(* ===== verification/Ob_Prelude.thy ===== *)
theory Ob_Prelude
  imports Main "HOL-Library.Word"
begin

unbundle bit_operations_syntax

section \<open>Shared types, buffers and codec combinators\<close>

text \<open>
  What every component of the development uses:
  \<^item> the return codes of \<^verbatim>\<open>src/oblib/lib/ob_errno.h\<close> that the modelled code returns;
  \<^item> byte buffers: a C pointer that may be NULL is an option, \<open>load\<close> and \<open>store\<close> are the
    reads and writes of consecutive bytes through it;
  \<^item> the two shapes in which the code chains field codecs,
    \<^verbatim>\<open>OB_FAIL(f) || OB_FAIL(g)\<close>, for encoders (\<open>enc_then\<close>) and for decoders that fill
    the fields of an object (\<open>rd\<close>, \<open>rd_then\<close>), with the rules by which a chain inherits
    the contract of its links;
  \<^item> the interface \<open>wire_codec\<close> of a fixed-width codec;
  \<^item> bit lemmas for splitting a word into bytes and gluing bytes into a word.
\<close>

named_theorems codec_intros \<open>contracts of encoders and decoders, closed under chaining\<close>

subsection \<open>Return codes\<close>

datatype ob_ret =
    OB_SUCCESS
  | OB_INVALID_ARGUMENT
  | OB_INIT_TWICE
  | OB_NOT_INIT
  | OB_ALLOCATE_MEMORY_FAILED
  | OB_ERR_UNEXPECTED
  | OB_SIZE_OVERFLOW
  | OB_EAGAIN
  | OB_BUF_NOT_ENOUGH
  | OB_ARRAY_OUT_OF_RANGE
  | OB_NOT_SUPPORTED
  | OB_ENTRY_NOT_EXIST
  | OB_SERIALIZE_ERROR
  | OB_DESERIALIZE_ERROR
  | OB_VERSION_NOT_MATCH
  | OB_INVALID_DATA
  | OB_CHECKSUM_ERROR
  | OB_STATE_NOT_MATCH
  | OB_ERR_OUT_OF_LOWER_BOUND
  | OB_ERR_OUT_OF_UPPER_BOUND

subsection \<open>Byte buffers\<close>

type_synonym byte = "8 word"
type_synonym cbuf = "byte list option"
type_synonym enc_res = "ob_ret \<times> int \<times> cbuf"
type_synonym 'a dec_res = "ob_ret \<times> int \<times> 'a option"
type_synonym 'h fld_res = "ob_ret \<times> int \<times> 'h"

definition load :: "byte list \<Rightarrow> nat \<Rightarrow> nat \<Rightarrow> byte list" where
  "load b p n = take n (drop p b)"

definition store :: "byte list \<Rightarrow> nat \<Rightarrow> byte list \<Rightarrow> byte list" where
  "store b p xs = take p b @ xs @ drop (p + length xs) b"

lemma length_store [simp]: "p + length xs \<le> length b \<Longrightarrow> length (store b p xs) = length b"
  by (simp add: store_def)

lemma length_load [simp]: "p + n \<le> length b \<Longrightarrow> length (load b p n) = n"
  by (simp add: load_def)

lemma load_store_same [simp]:
  "p + length xs \<le> length b \<Longrightarrow> n = length xs \<Longrightarrow> load (store b p xs) p n = xs"
  by (simp add: load_def store_def)

lemma store_store_adjacent:
  "p + length xs + length ys \<le> length b \<Longrightarrow>
   store (store b p xs) (p + length xs) ys = store b p (xs @ ys)"
  by (simp add: store_def ac_simps)

lemma nth_store:
  assumes "p + length xs \<le> length b" "i < length b"
  shows "store b p xs ! i = (if p \<le> i \<and> i < p + length xs then xs ! (i - p) else b ! i)"
  using assms by (auto simp: store_def nth_append min_def)

lemma load_add: "load b p (n + m) = load b p n @ load b (p + n) m"
  by (simp add: load_def take_add add.commute [of p n])

lemma load_appendD:
  assumes "load b p (length xs + length ys) = xs @ ys" "p + length xs + length ys \<le> length b"
  shows "load b p (length xs) = xs" and "load b (p + length xs) (length ys) = ys"
  using assms by (auto simp: load_add append_eq_append_conv)

lemma nth_load: "i < n \<Longrightarrow> p + n \<le> length b \<Longrightarrow> load b p n ! i = b ! (p + i)"
  by (simp add: load_def)

lemma load_Suc: "p < length b \<Longrightarrow> load b p (Suc n) = b ! p # load b (Suc p) n"
  by (simp add: load_def Cons_nth_drop_Suc [symmetric])

lemma load_0 [simp]: "load b p 0 = []"
  by (simp add: load_def)

lemmas load_unfold = load_Suc numeral_eq_Suc pred_numeral_simps

subsection \<open>Chained encoders\<close>

text \<open>
  An encoder takes the buffer, its length and the position, and returns the code, the new
  position and the buffer. \<open>enc_then f g\<close> is \<^verbatim>\<open>OB_FAIL(f) || OB_FAIL(g)\<close>: \<open>g\<close> runs
  on what \<open>f\<close> left, unless \<open>f\<close> failed.
\<close>

definition enc_then ::
  "(cbuf \<Rightarrow> int \<Rightarrow> int \<Rightarrow> enc_res) \<Rightarrow> (cbuf \<Rightarrow> int \<Rightarrow> int \<Rightarrow> enc_res) \<Rightarrow> cbuf \<Rightarrow> int \<Rightarrow> int \<Rightarrow> enc_res"
where
  "enc_then f g buf buf_len pos =
     (case f buf buf_len pos of
        (r, pos', buf') \<Rightarrow> if r = OB_SUCCESS then g buf' buf_len pos' else (r, pos', buf'))"

text \<open>
  The contract of an encoder that emits the bytes \<open>bs\<close>: with room for them it stores exactly
  them at the position and nothing else; without room it does not report success.
\<close>

definition enc_exact :: "(cbuf \<Rightarrow> int \<Rightarrow> int \<Rightarrow> enc_res) \<Rightarrow> byte list \<Rightarrow> bool" where
  "enc_exact f bs \<longleftrightarrow>
     (\<forall>b L p. L \<le> length b \<longrightarrow>
        (if p + length bs \<le> L
         then f (Some b) (int L) (int p) = (OB_SUCCESS, int (p + length bs), Some (store b p bs))
         else fst (f (Some b) (int L) (int p)) \<noteq> OB_SUCCESS))"

lemma enc_exactD:
  "enc_exact f bs \<Longrightarrow> p + length bs \<le> L \<Longrightarrow> L \<le> length b \<Longrightarrow>
   f (Some b) (int L) (int p) = (OB_SUCCESS, int (p + length bs), Some (store b p bs))"
  by (auto simp: enc_exact_def split: if_splits)

lemma enc_exact_shortD:
  "enc_exact f bs \<Longrightarrow> \<not> p + length bs \<le> L \<Longrightarrow> L \<le> length b \<Longrightarrow>
   fst (f (Some b) (int L) (int p)) \<noteq> OB_SUCCESS"
  by (auto simp: enc_exact_def split: if_splits)

lemma enc_exactI:
  assumes "\<And>b L p. L \<le> length b \<Longrightarrow> p + length bs \<le> L \<Longrightarrow>
             f (Some b) (int L) (int p) = (OB_SUCCESS, int (p + length bs), Some (store b p bs))"
    and "\<And>b L p. L \<le> length b \<Longrightarrow> L < p + length bs \<Longrightarrow>
           fst (f (Some b) (int L) (int p)) \<noteq> OB_SUCCESS"
  shows "enc_exact f bs"
  using assms by (auto simp: enc_exact_def not_le)

lemma enc_exact_then [codec_intros]:
  assumes f: "enc_exact f bs" and g: "enc_exact g cs"
  shows "enc_exact (enc_then f g) (bs @ cs)"
proof (rule enc_exactI)
  fix b :: "byte list" and L p assume "L \<le> length b" "p + length (bs @ cs) \<le> L"
  then show "enc_then f g (Some b) (int L) (int p) =
      (OB_SUCCESS, int (p + length (bs @ cs)), Some (store b p (bs @ cs)))"
    using enc_exactD [OF f, of p L b] enc_exactD [OF g, of "p + length bs" L "store b p bs"]
    by (simp add: enc_then_def store_store_adjacent add.assoc)
next
  fix b :: "byte list" and L p assume L: "L \<le> length b" "L < p + length (bs @ cs)"
  show "fst (enc_then f g (Some b) (int L) (int p)) \<noteq> OB_SUCCESS"
  proof (cases "p + length bs \<le> L")
    case True
    with L show ?thesis
      using enc_exactD [OF f, of p L b] enc_exact_shortD [OF g, of "p + length bs" L "store b p bs"]
      by (simp add: enc_then_def)
  next
    case False
    with L show ?thesis
      using enc_exact_shortD [OF f, of p L b] by (auto simp: enc_then_def split: prod.splits)
  qed
qed

subsection \<open>Chained decoders\<close>

text \<open>
  A decoder returns the code, the new position and the decoded value (None when the out
  parameter is not written). \<open>rd d upd\<close> decodes one field of an object \<open>h\<close>;
  \<open>rd_then\<close> is the \<^verbatim>\<open>||\<close> chain: once a field has failed, the rest does nothing, and the
  fields decoded before it keep their new values.
\<close>

definition rd ::
  "(cbuf \<Rightarrow> int \<Rightarrow> int \<Rightarrow> 'a dec_res) \<Rightarrow> ('a \<Rightarrow> 'h \<Rightarrow> 'h) \<Rightarrow> cbuf \<Rightarrow> int \<Rightarrow> 'h fld_res \<Rightarrow> 'h fld_res"
where
  "rd d upd buf data_len st =
     (case st of (r, pos, h) \<Rightarrow>
        if r \<noteq> OB_SUCCESS then (r, pos, h)
        else case d buf data_len pos of
               (r', pos', v) \<Rightarrow> (r', pos', case v of None \<Rightarrow> h | Some x \<Rightarrow> upd x h))"

definition rd_then ::
  "(cbuf \<Rightarrow> int \<Rightarrow> 'h fld_res \<Rightarrow> 'h fld_res) \<Rightarrow> (cbuf \<Rightarrow> int \<Rightarrow> 'h fld_res \<Rightarrow> 'h fld_res) \<Rightarrow>
   cbuf \<Rightarrow> int \<Rightarrow> 'h fld_res \<Rightarrow> 'h fld_res"
where
  "rd_then s t buf data_len st = t buf data_len (s buf data_len st)"

definition dec_exact :: "(cbuf \<Rightarrow> int \<Rightarrow> int \<Rightarrow> 'a dec_res) \<Rightarrow> byte list \<Rightarrow> 'a \<Rightarrow> bool" where
  "dec_exact d bs x \<longleftrightarrow>
     (\<forall>b L p. p + length bs \<le> L \<longrightarrow> L \<le> length b \<longrightarrow> load b p (length bs) = bs \<longrightarrow>
        d (Some b) (int L) (int p) = (OB_SUCCESS, int (p + length bs), Some x))"

definition fld_exact ::
  "(cbuf \<Rightarrow> int \<Rightarrow> 'h fld_res \<Rightarrow> 'h fld_res) \<Rightarrow> byte list \<Rightarrow> ('h \<Rightarrow> 'h) \<Rightarrow> bool" where
  "fld_exact s bs f \<longleftrightarrow>
     (\<forall>b L p h. p + length bs \<le> L \<longrightarrow> L \<le> length b \<longrightarrow> load b p (length bs) = bs \<longrightarrow>
        s (Some b) (int L) (OB_SUCCESS, int p, h) = (OB_SUCCESS, int (p + length bs), f h))"

lemma dec_exactD:
  "dec_exact d bs x \<Longrightarrow> p + length bs \<le> L \<Longrightarrow> L \<le> length b \<Longrightarrow> load b p (length bs) = bs \<Longrightarrow>
   d (Some b) (int L) (int p) = (OB_SUCCESS, int (p + length bs), Some x)"
  by (simp add: dec_exact_def)

lemma fld_exactD:
  "fld_exact s bs f \<Longrightarrow> p + length bs \<le> L \<Longrightarrow> L \<le> length b \<Longrightarrow> load b p (length bs) = bs \<Longrightarrow>
   s (Some b) (int L) (OB_SUCCESS, int p, h) = (OB_SUCCESS, int (p + length bs), f h)"
  by (simp add: fld_exact_def)

lemma fld_exact_rd [codec_intros]:
  "dec_exact d bs x \<Longrightarrow> fld_exact (rd d upd) bs (upd x)"
  by (simp add: fld_exact_def dec_exact_def rd_def)

lemma fld_exact_then [codec_intros]:
  assumes s: "fld_exact s bs f" and t: "fld_exact t cs g"
  shows "fld_exact (rd_then s t) (bs @ cs) (g \<circ> f)"
  unfolding fld_exact_def
proof (intro allI impI)
  fix b L p h
  assume L: "p + length (bs @ cs) \<le> L" "L \<le> length b"
    and ld: "load b p (length (bs @ cs)) = bs @ cs"
  from ld L have "load b p (length bs) = bs" "load b (p + length bs) (length cs) = cs"
    using load_appendD [of b p bs cs] by auto
  with L show "rd_then s t (Some b) (int L) (OB_SUCCESS, int p, h) =
      (OB_SUCCESS, int (p + length (bs @ cs)), (g \<circ> f) h)"
    using fld_exactD [OF s, of p L b h] fld_exactD [OF t, of "p + length bs" L b "f h"]
    by (simp add: rd_then_def add.assoc)
qed

text \<open>A failure stays: no later field of the chain runs.\<close>

lemma rd_failed [simp]: "r \<noteq> OB_SUCCESS \<Longrightarrow> rd d upd buf L (r, p, h) = (r, p, h)"
  by (simp add: rd_def)

subsection \<open>The interface of a fixed-width codec\<close>

text \<open>
  \<open>ser\<close> and \<open>des\<close> are an encoder and the decoder that reads it back, \<open>img\<close> the bytes on
  the wire, \<open>ok\<close> the values that survive the trip. The laws are the two contracts above; a
  client needs nothing else of a codec.
\<close>

locale wire_codec =
  fixes ser :: "'a \<Rightarrow> cbuf \<Rightarrow> int \<Rightarrow> int \<Rightarrow> enc_res"
    and des :: "cbuf \<Rightarrow> int \<Rightarrow> int \<Rightarrow> 'a dec_res"
    and img :: "'a \<Rightarrow> byte list"
    and width :: nat
    and ok :: "'a \<Rightarrow> bool"
  assumes img_length: "length (img x) = width"
    and ser_exact: "enc_exact (ser x) (img x)"
    and des_exact: "ok x \<Longrightarrow> dec_exact des (img x) x"
begin

lemma roundtrip:
  assumes "ok x" "p + width \<le> L" "L \<le> length b"
  shows "\<exists>b'. ser x (Some b) (int L) (int p) = (OB_SUCCESS, int (p + width), Some b')
              \<and> length b' = length b
              \<and> des (Some b') (int L) (int p) = (OB_SUCCESS, int (p + width), Some x)"
proof -
  let ?b = "store b p (img x)"
  have "ser x (Some b) (int L) (int p) = (OB_SUCCESS, int (p + width), Some ?b)"
    using assms enc_exactD [OF ser_exact, of p x L b] by (simp add: img_length)
  moreover have "des (Some ?b) (int L) (int p) = (OB_SUCCESS, int (p + width), Some x)"
    using assms dec_exactD [OF des_exact, of x p L ?b] by (simp add: img_length)
  ultimately show ?thesis using assms by (auto simp: img_length)
qed

lemma img_inj:
  assumes "ok x" "ok y" "img x = img y"
  shows "x = y"
proof -
  have "des (Some (img x)) (int width) (int 0) = (OB_SUCCESS, int (0 + width), Some x)"
    using dec_exactD [OF des_exact [OF assms(1)], of 0 width "img x"]
    by (simp add: img_length load_def)
  moreover have "des (Some (img x)) (int width) (int 0) = (OB_SUCCESS, int (0 + width), Some y)"
    using dec_exactD [OF des_exact [OF assms(2)], of 0 width "img y"] assms(3)
    by (simp add: img_length load_def)
  ultimately show ?thesis by simp
qed

end

subsection \<open>Words and bytes\<close>

text \<open>
  \<open>low8 w\<close> is \<^verbatim>\<open>static_cast<char>(w & 0xff)\<close>; \<open>zext8 b\<close> is the C idiom that undoes the sign
  extension of a \<^verbatim>\<open>char\<close>, \<^verbatim>\<open>static_cast<intN_t>(c) & 0xff\<close>.
\<close>

definition low8 :: "'a::len word \<Rightarrow> byte" where
  "low8 w = ucast (w AND 0xff)"

definition zext8 :: "byte \<Rightarrow> 'a::len word" where
  "zext8 b = scast b AND 0xff"

lemma bit_ff: "bit (0xff :: 'a::len word) n \<longleftrightarrow> n < 8 \<and> n < LENGTH('a)"
proof -
  have "(0xff :: 'a word) = mask 8" by (simp add: mask_eq_exp_minus_1)
  then show ?thesis by (simp only: bit_mask_iff) auto
qed

lemma bit_low8: "bit (low8 (w::'a::len word)) n \<longleftrightarrow> n < 8 \<and> bit w n"
  unfolding low8_def
  by (auto simp only: bit_unsigned_iff bit_and_iff bit_ff)
    (auto dest: bit_imp_le_length simp: possible_bit_def)

lemma bit_zext8:
  assumes "8 \<le> LENGTH('a)"
  shows "bit (zext8 b :: 'a::len word) n \<longleftrightarrow> n < 8 \<and> bit b n"
proof (cases "n < 8")
  case True
  then have "min 7 n = n" by simp
  with True assms show ?thesis
    using bit_ff [of n, where 'a = 'a]
    by (simp add: zext8_def bit_and_iff bit_signed_iff possible_bit_def)
next
  case False
  then show ?thesis
    using bit_ff [of n, where 'a = 'a] by (simp add: zext8_def bit_and_iff)
qed

lemma bit_low8_sdb:
  "k + 8 \<le> LENGTH('a) \<Longrightarrow>
   bit (low8 (signed_drop_bit k (v::'a::len word))) n \<longleftrightarrow> n < 8 \<and> bit v (k + n)"
  by (auto simp: bit_low8 bit_signed_drop_bit_iff)

lemma bit_piece:
  "k + 8 \<le> LENGTH('a) \<Longrightarrow>
   bit (push_bit k (zext8 (low8 (signed_drop_bit k (v::'a::len word)))) :: 'a word) n
     \<longleftrightarrow> k \<le> n \<and> n < k + 8 \<and> bit v n"
  by (auto simp: bit_push_bit_iff bit_zext8 bit_low8_sdb dest: bit_imp_le_length)

lemma bit_piece0:
  "8 \<le> LENGTH('a) \<Longrightarrow> bit (zext8 (low8 (v::'a::len word)) :: 'a word) n \<longleftrightarrow> n < 8 \<and> bit v n"
  by (auto simp: bit_zext8 bit_low8)

lemmas glue_bits = bit_or_iff bit_piece bit_piece0

lemma take_bit_small:
  fixes w :: "'a::len word"
  assumes "unat w < 2 ^ n"
  shows "take_bit n w = w"
proof -
  have "unat (take_bit n w) = take_bit n (unat w)" by (rule unsigned_take_bit_eq)
  also have "\<dots> = unat w" using assms by (rule take_bit_nat_eq_self)
  finally show ?thesis by (rule word_unat_eq_iff [THEN iffD2])
qed

lemma drop_bit_0_iff:
  fixes w :: "'a::len word"
  shows "drop_bit n w = 0 \<longleftrightarrow> unat w < 2 ^ n"
proof -
  have "drop_bit n w = 0 \<longleftrightarrow> unat (drop_bit n w) = 0" by (metis unsigned_0 word_unat_eq_iff)
  also have "\<dots> \<longleftrightarrow> unat w div 2 ^ n = 0" by (simp only: unat_drop_bit_eq drop_bit_nat_def)
  also have "\<dots> \<longleftrightarrow> unat w < 2 ^ n" by (simp add: div_eq_0_iff)
  finally show ?thesis .
qed

lemma unat_less_numeral: "unat (w :: 'a::len word) < numeral k \<longleftrightarrow> uint w < numeral k"
proof -
  have "unat w < numeral k \<longleftrightarrow> int (unat w) < int (numeral k)" by (simp only: of_nat_less_iff)
  then show ?thesis by simp
qed

lemma uint_add_small:
  fixes a b :: "'a::len word"
  shows "uint a + uint b < 2 ^ LENGTH('a) \<Longrightarrow> uint (a + b) = uint a + uint b"
  by (rule uint_add_lem [THEN iffD1])

lemma uint_sub_small:
  fixes a b :: "'a::len word"
  shows "uint b \<le> uint a \<Longrightarrow> uint (a - b) = uint a - uint b"
  by (rule uint_sub_lem [THEN iffD1])

lemma uint_ucast_small:
  fixes w :: "'a::len word"
  assumes "uint w < 2 ^ LENGTH('b)"
  shows "uint (ucast w :: 'b::len word) = uint w"
  using assms by (simp add: unsigned_ucast_eq take_bit_int_eq_self)

lemma uint_word_of_int_small:
  "0 \<le> x \<Longrightarrow> x < 2 ^ LENGTH('a) \<Longrightarrow> uint (word_of_int x :: 'a::len word) = x"
  by (simp add: take_bit_int_eq_self unsigned_of_int)

lemma uint_max: "uint (max a b :: 'a::len word) = max (uint a) (uint b)"
  by (simp add: max_def word_le_def)

lemmas uint_small = uint_add_small uint_sub_small uint_ucast_small uint_word_of_int_small uint_max

subsection \<open>Words in memory\<close>

text \<open>
  The host is little-endian: \<open>le_word\<close> is a load of up to eight bytes, \<open>le_image n w\<close> the \<open>n\<close>
  bytes that a word occupies, which is what code sees that hashes an object through
  \<^verbatim>\<open>reinterpret_cast\<close>.
\<close>

fun le_word :: "byte list \<Rightarrow> 64 word" where
  "le_word [] = 0"
| "le_word (x # xs) = zext8 x OR push_bit 8 (le_word xs)"

definition le_image :: "nat \<Rightarrow> 'a::len word \<Rightarrow> byte list" where
  "le_image n w = map (\<lambda>i. low8 (drop_bit (8 * i) w)) [0..<n]"

definition le_bytes :: "64 word \<Rightarrow> byte list" where
  "le_bytes v = map (\<lambda>i. low8 (drop_bit (8 * i) v)) [0..<8]"

lemma length_le_image [simp]: "length (le_image n w) = n" "length (le_bytes v) = 8"
  by (simp_all add: le_image_def le_bytes_def)

lemma bit_le_word: "bit (le_word bs) n \<longleftrightarrow> n < 64 \<and> n div 8 < length bs \<and> bit (bs ! (n div 8)) (n mod 8)"
proof (induction bs arbitrary: n)
  case (Cons x xs)
  show ?case
  proof (cases "n < 8")
    case True
    then show ?thesis by (auto simp: bit_or_iff bit_zext8 bit_push_bit_iff)
  next
    case False
    then obtain m where "n = m + 8" by (metis add.commute le_Suc_ex not_less)
    moreover have "(m + 8) div 8 = Suc (m div 8)" by simp
    ultimately show ?thesis using Cons.IH [of m] by (auto simp: bit_or_iff bit_zext8 bit_push_bit_iff)
  qed
qed simp

lemma le_word_bytes: "(c :: 64 word) = le_word (map (\<lambda>i. low8 (drop_bit (8 * i) c)) [0..<8])"
proof (rule bit_word_eqI)
  fix n assume "n < LENGTH(64)"
  then have "n div 8 < 8" "n < 64" by simp_all
  then show "bit c n = bit (le_word (map (\<lambda>i. low8 (drop_bit (8 * i) c)) [0..<8])) n"
    by (simp add: bit_le_word bit_low8 bit_drop_bit_eq)
qed

end
