(* ===== verification/Ob_Codec.thy ===== *)
theory Ob_Codec
  imports Ob_Prelude
begin

section \<open>The serialization primitives of \<^verbatim>\<open>oblib/lib/utility/serialization.h\<close>\<close>

text \<open>
  Every persistent structure of the program is written with these functions. Modelled are the
  big-endian fixed-width integers, booleans, the 7-bit variable-length integers (vi32, vi64 and
  the padded five-byte form), and the frame of version and length that the \<^verbatim>\<open>OB_UNIS\<close>
  macros of \<^verbatim>\<open>ob_unify_serialize.h\<close> put around the members of a class. The type-tagged
  integers of the object codec, the strings and the floating-point numbers are not modelled. A
  signed C integer is a word of its width. The variable-length decoder reads the buffer before it
  compares the position with the data length and shifts by an unchecked amount; in the model both
  of these undefined behaviours are the outcome None.
\<close>

subsection \<open>Fixed-width integers\<close>

text \<open>
  All fixed-width encoders share the guard \<^verbatim>\<open>(NULL != buf) && buf_len - pos >= sizeof(val)\<close>
  followed by writes through \<^verbatim>\<open>*(buf + pos++)\<close>, all decoders the guard
  \<^verbatim>\<open>NULL != buf && data_len - pos >= n\<close> followed by reads.
\<close>

definition emit :: "byte list \<Rightarrow> cbuf \<Rightarrow> int \<Rightarrow> int \<Rightarrow> enc_res" where
  "emit bs buf buf_len pos =
     (case buf of
        None \<Rightarrow> (OB_SIZE_OVERFLOW, pos, buf)
      | Some b \<Rightarrow>
          if buf_len - pos \<ge> int (length bs)
          then (OB_SUCCESS, pos + int (length bs), Some (store b (nat pos) bs))
          else (OB_SIZE_OVERFLOW, pos, buf))"

definition fetch :: "nat \<Rightarrow> (byte list \<Rightarrow> 'a) \<Rightarrow> cbuf \<Rightarrow> int \<Rightarrow> int \<Rightarrow> 'a dec_res" where
  "fetch n glue buf data_len pos =
     (case buf of
        None \<Rightarrow> (OB_DESERIALIZE_ERROR, pos, None)
      | Some b \<Rightarrow>
          if data_len - pos \<ge> int n
          then (OB_SUCCESS, pos + int n, Some (glue (load b (nat pos) n)))
          else (OB_DESERIALIZE_ERROR, pos, None))"

definition encode_i8 :: "cbuf \<Rightarrow> int \<Rightarrow> int \<Rightarrow> 8 word \<Rightarrow> enc_res" where
  "encode_i8 buf buf_len pos val = emit [val] buf buf_len pos"

definition decode_i8 :: "cbuf \<Rightarrow> int \<Rightarrow> int \<Rightarrow> 8 word dec_res" where
  "decode_i8 = fetch 1 (\<lambda>bs. bs ! 0)"

definition encode_i16 :: "cbuf \<Rightarrow> int \<Rightarrow> int \<Rightarrow> 16 word \<Rightarrow> enc_res" where
  "encode_i16 buf buf_len pos val =
     emit [low8 (signed_drop_bit 8 val), low8 val] buf buf_len pos"

definition decode_i16 :: "cbuf \<Rightarrow> int \<Rightarrow> int \<Rightarrow> 16 word dec_res" where
  "decode_i16 = fetch 2 (\<lambda>bs. push_bit 8 (zext8 (bs ! 0)) OR zext8 (bs ! 1))"

definition encode_i32 :: "cbuf \<Rightarrow> int \<Rightarrow> int \<Rightarrow> 32 word \<Rightarrow> enc_res" where
  "encode_i32 buf buf_len pos val =
     emit [low8 (signed_drop_bit 24 val), low8 (signed_drop_bit 16 val),
           low8 (signed_drop_bit 8 val), low8 val] buf buf_len pos"

definition decode_i32 :: "cbuf \<Rightarrow> int \<Rightarrow> int \<Rightarrow> 32 word dec_res" where
  "decode_i32 =
     fetch 4 (\<lambda>bs. push_bit 24 (zext8 (bs ! 0)) OR push_bit 16 (zext8 (bs ! 1))
                     OR push_bit 8 (zext8 (bs ! 2)) OR zext8 (bs ! 3))"

definition encode_i64 :: "cbuf \<Rightarrow> int \<Rightarrow> int \<Rightarrow> 64 word \<Rightarrow> enc_res" where
  "encode_i64 buf buf_len pos val =
     emit [low8 (signed_drop_bit 56 val), low8 (signed_drop_bit 48 val),
           low8 (signed_drop_bit 40 val), low8 (signed_drop_bit 32 val),
           low8 (signed_drop_bit 24 val), low8 (signed_drop_bit 16 val),
           low8 (signed_drop_bit 8 val), low8 val] buf buf_len pos"

definition decode_i64 :: "cbuf \<Rightarrow> int \<Rightarrow> int \<Rightarrow> 64 word dec_res" where
  "decode_i64 =
     fetch 8 (\<lambda>bs. push_bit 56 (zext8 (bs ! 0)) OR push_bit 48 (zext8 (bs ! 1))
                     OR push_bit 40 (zext8 (bs ! 2)) OR push_bit 32 (zext8 (bs ! 3))
                     OR push_bit 24 (zext8 (bs ! 4)) OR push_bit 16 (zext8 (bs ! 5))
                     OR push_bit 8 (zext8 (bs ! 6)) OR zext8 (bs ! 7))"

definition encoded_length_i8 :: "8 word \<Rightarrow> int" where "encoded_length_i8 val = 1"
definition encoded_length_i16 :: "16 word \<Rightarrow> int" where "encoded_length_i16 val = 2"
definition encoded_length_i32 :: "32 word \<Rightarrow> int" where "encoded_length_i32 val = 4"
definition encoded_length_i64 :: "64 word \<Rightarrow> int" where "encoded_length_i64 val = 8"
definition encoded_length_bool :: "bool \<Rightarrow> int" where "encoded_length_bool val = 1"

definition encode_bool :: "cbuf \<Rightarrow> int \<Rightarrow> int \<Rightarrow> bool \<Rightarrow> enc_res" where
  "encode_bool buf buf_len pos val = emit [if val then 1 else 0] buf buf_len pos"

definition decode_bool :: "cbuf \<Rightarrow> int \<Rightarrow> int \<Rightarrow> bool dec_res" where
  "decode_bool buf buf_len pos =
     (case decode_i8 buf buf_len pos of (r, pos', v) \<Rightarrow> (r, pos', map_option (\<lambda>x. x \<noteq> 0) v))"

subsection \<open>Variable-length integers\<close>

text \<open>
  Seven bits per byte, low group first, bit 7 set on all bytes but the last. The loop is shared
  by the 32-bit and the 64-bit encoder.
\<close>

function vi_loop :: "byte list \<Rightarrow> nat \<Rightarrow> 'a::len word \<Rightarrow> nat \<times> byte list" where
  "vi_loop b p v =
     (if 127 < unat v then vi_loop (store b p [low8 (v OR 0x80)]) (Suc p) (drop_bit 7 v)
      else (Suc p, store b p [low8 (v AND 0x7f)]))"
  by pat_completeness auto
termination
proof (relation "measure (\<lambda>(b, p, v). unat v)")
  fix v :: "'a word"
  assume "127 < unat v"
  then have "unat v div 128 < unat v" by simp
  then have "unat (drop_bit 7 v) < unat v" by (subst unat_drop_bit_eq) (simp add: drop_bit_eq_div)
  then show "((b, p, drop_bit 7 v), b', p', v) \<in> measure (\<lambda>(b, p, v). unat v)" for b p b' p'
    by simp
qed simp

definition encoded_length_vi64 :: "64 word \<Rightarrow> int" where
  "encoded_length_vi64 val =
     (let v = unat val in
      if v \<le> 2 ^ 7 - 1 then 1
      else if v \<le> 2 ^ 14 - 1 then 2
      else if v \<le> 2 ^ 21 - 1 then 3
      else if v \<le> 2 ^ 28 - 1 then 4
      else if v \<le> 2 ^ 35 - 1 then 5
      else if v \<le> 2 ^ 42 - 1 then 6
      else if v \<le> 2 ^ 49 - 1 then 7
      else if v \<le> 2 ^ 56 - 1 then 8
      else if v \<le> 2 ^ 63 - 1 then 9
      else 10)"

definition encode_vi64 :: "cbuf \<Rightarrow> int \<Rightarrow> int \<Rightarrow> 64 word \<Rightarrow> enc_res" where
  "encode_vi64 buf buf_len pos val =
     (case buf of
        None \<Rightarrow> (OB_SIZE_OVERFLOW, pos, buf)
      | Some b \<Rightarrow>
          if buf_len - pos \<ge> encoded_length_vi64 val
          then (case vi_loop b (nat pos) val of (p', b') \<Rightarrow> (OB_SUCCESS, int p', Some b'))
          else (OB_SIZE_OVERFLOW, pos, buf))"

definition encoded_length_vi32 :: "32 word \<Rightarrow> int" where
  "encoded_length_vi32 val =
     (let v = unat val in
      if v \<le> 2 ^ 7 - 1 then 1
      else if v \<le> 2 ^ 14 - 1 then 2
      else if v \<le> 2 ^ 21 - 1 then 3
      else if v \<le> 2 ^ 28 - 1 then 4
      else 5)"

definition encode_vi32 :: "cbuf \<Rightarrow> int \<Rightarrow> int \<Rightarrow> 32 word \<Rightarrow> enc_res" where
  "encode_vi32 buf buf_len pos val =
     (case buf of
        None \<Rightarrow> (OB_SIZE_OVERFLOW, pos, buf)
      | Some b \<Rightarrow>
          if buf_len - pos \<ge> encoded_length_vi32 val
          then (case vi_loop b (nat pos) val of (p', b') \<Rightarrow> (OB_SUCCESS, int p', Some b'))
          else (OB_SIZE_OVERFLOW, pos, buf))"

text \<open>The five-byte padded form: \<^verbatim>\<open>n\<close> counts down from \<^verbatim>\<open>OB_SERIALIZE_SIZE_NEED_BYTES\<close>.\<close>

fun fixed_loop :: "nat \<Rightarrow> byte list \<Rightarrow> nat \<Rightarrow> 64 word \<Rightarrow> nat \<times> byte list" where
  "fixed_loop 0 b p v = (p, b)"
| "fixed_loop (Suc n) b p v =
     (if n > 0 then fixed_loop n (store b p [low8 (v OR 0x80)]) (Suc p) (drop_bit 7 v)
      else fixed_loop n (store b p [low8 (v AND 0x7f)]) (Suc p) v)"

definition encode_fixed_bytes_i64 :: "cbuf \<Rightarrow> int \<Rightarrow> int \<Rightarrow> 64 word \<Rightarrow> enc_res" where
  "encode_fixed_bytes_i64 buf buf_len pos val =
     (case buf of
        None \<Rightarrow> (OB_SIZE_OVERFLOW, pos, buf)
      | Some b \<Rightarrow>
          if buf_len - pos \<ge> 5
          then (case fixed_loop 5 b (nat pos) val of (p', b') \<Rightarrow> (OB_SUCCESS, int p', Some b'))
          else (OB_SIZE_OVERFLOW, pos, buf))"

text \<open>
  The decoding loop tests \<^verbatim>\<open>(*(buf + tmp_pos)) & 0x80\<close> first and the data length only inside
  the body. A read at an index that the buffer does not have, and a shift by at least the width,
  are the outcome None.
\<close>

function vi_dec_loop ::
  "byte list \<Rightarrow> int \<Rightarrow> nat \<Rightarrow> 'a::len word \<Rightarrow> nat \<Rightarrow> (ob_ret \<times> nat \<times> 'a word \<times> nat) option" where
  "vi_dec_loop b data_len i v sh =
     (if length b \<le> i then None
      else if bit (b ! i) 7
      then if data_len - int i < 1 then Some (OB_DESERIALIZE_ERROR, i, v, sh)
           else if LENGTH('a) \<le> sh then None
           else vi_dec_loop b data_len (Suc i) (v OR push_bit sh (zext8 (b ! i) AND 0x7f)) (sh + 7)
      else Some (OB_SUCCESS, i, v, sh))"
  by pat_completeness auto
termination by (relation "measure (\<lambda>(b, data_len, i, v, sh). length b - i)") auto

definition decode_vi ::
  "cbuf \<Rightarrow> int \<Rightarrow> int \<Rightarrow> 'a::len word dec_res option" where
  "decode_vi buf data_len pos =
     (case buf of
        None \<Rightarrow> None
      | Some b \<Rightarrow>
          if pos < 0 then None
          else case vi_dec_loop b data_len (nat pos) (0 :: 'a word) 0 of
                 None \<Rightarrow> None
               | Some (r, i, v, sh) \<Rightarrow>
                   if r \<noteq> OB_SUCCESS then Some (r, pos, None)
                   else if data_len - int i < 1 then Some (OB_DESERIALIZE_ERROR, pos, None)
                   else if LENGTH('a) \<le> sh then None
                   else Some (OB_SUCCESS, int i + 1,
                              Some (v OR push_bit sh (zext8 (b ! i) AND 0x7f))))"

definition decode_vi64 :: "cbuf \<Rightarrow> int \<Rightarrow> int \<Rightarrow> 64 word dec_res option" where
  "decode_vi64 = decode_vi"

definition decode_vi32 :: "cbuf \<Rightarrow> int \<Rightarrow> int \<Rightarrow> 32 word dec_res option" where
  "decode_vi32 = decode_vi"

declare vi_loop.simps [simp del] vi_dec_loop.simps [simp del]

subsection \<open>The \<^verbatim>\<open>OB_UNIS\<close> frame\<close>

text \<open>
  \<^verbatim>\<open>OB_UNIS_SERIALIZE\<close> writes the version, leaves five bytes free, runs the member
  function \<^verbatim>\<open>serialize_\<close> (\<open>body\<close>) behind them and puts the number of bytes it wrote
  into the gap, through a pointer to it. The debug assertion on that number is left out
  (\<^verbatim>\<open>NDEBUG\<close>).
\<close>

definition OB_SERIALIZE_SIZE_NEED_BYTES :: int where "OB_SERIALIZE_SIZE_NEED_BYTES = 5"

definition unis_serialize ::
  "64 word \<Rightarrow> (cbuf \<Rightarrow> int \<Rightarrow> int \<Rightarrow> enc_res) \<Rightarrow> cbuf \<Rightarrow> int \<Rightarrow> int \<Rightarrow> enc_res" where
  "unis_serialize ver body buf buf_len pos =
     (case encode_vi64 buf buf_len pos ver of
        (r, pos1, buf1) \<Rightarrow>
          if r \<noteq> OB_SUCCESS then (r, pos1, buf1)
          else let pos_bak = pos1 + OB_SERIALIZE_SIZE_NEED_BYTES in
            case body buf1 buf_len pos_bak of
              (r', pos2, buf2) \<Rightarrow>
                if r' \<noteq> OB_SUCCESS then (r', pos2, buf2)
                else let gap = nat (pos_bak - OB_SERIALIZE_SIZE_NEED_BYTES) in
                  case encode_fixed_bytes_i64 (map_option (drop gap) buf2) OB_SERIALIZE_SIZE_NEED_BYTES 0
                         (word_of_int (pos2 - pos_bak)) of
                    (r'', tmp_pos, sub) \<Rightarrow>
                      (r'', pos2, case (buf2, sub) of (Some b, Some c) \<Rightarrow> Some (take gap b @ c) | _ \<Rightarrow> buf2))"

text \<open>
  \<^verbatim>\<open>OB_UNIS_DECODE\<close> of an \<^verbatim>\<open>int64_t\<close> that is initialized with 0: at the end of the data
  nothing is read and the code stays \<^verbatim>\<open>OB_SUCCESS\<close>. \<^verbatim>\<open>CHECK_VERSION_LENGTH\<close> adds the
  decoded length to the position; a sum beyond \<^verbatim>\<open>int64_t\<close> is the outcome None.
\<close>

definition unis_decode :: "cbuf \<Rightarrow> int \<Rightarrow> int \<Rightarrow> (ob_ret \<times> int \<times> 64 word) option" where
  "unis_decode buf data_len pos =
     (if pos < data_len
      then case decode_vi64 buf data_len pos of
             None \<Rightarrow> None
           | Some (r, pos', v) \<Rightarrow> Some (r, pos', case v of None \<Rightarrow> 0 | Some w \<Rightarrow> w)
      else Some (OB_SUCCESS, pos, 0))"

definition check_version_length :: "64 word \<Rightarrow> 64 word \<Rightarrow> 64 word \<Rightarrow> int \<Rightarrow> int \<Rightarrow> ob_ret option" where
  "check_version_length unis_version ver len data_len pos =
     (if ver \<noteq> unis_version then Some OB_NOT_SUPPORTED
      else if sint len < 0 then Some OB_ERR_UNEXPECTED
      else if sint len + pos \<ge> 2 ^ 63 then None
      else if data_len < sint len + pos then Some OB_DESERIALIZE_ERROR
      else Some OB_SUCCESS)"

text \<open>
  \<^verbatim>\<open>OB_UNIS_DESERIALIZE\<close> gives \<^verbatim>\<open>deserialize_\<close> exactly the announced bytes and continues
  behind them, whatever it has read or returned.
\<close>

definition unis_deserialize ::
  "64 word \<Rightarrow> (cbuf \<Rightarrow> int \<Rightarrow> int \<Rightarrow> 'a \<Rightarrow> ob_ret \<times> int \<times> 'a) \<Rightarrow>
   cbuf \<Rightarrow> int \<Rightarrow> int \<Rightarrow> 'a \<Rightarrow> (ob_ret \<times> int \<times> 'a) option" where
  "unis_deserialize ver body buf data_len pos s =
     (case unis_decode buf data_len pos of
        None \<Rightarrow> None
      | Some (r, pos1, version) \<Rightarrow>
          if r \<noteq> OB_SUCCESS then Some (r, pos1, s)
          else case unis_decode buf data_len pos1 of
            None \<Rightarrow> None
          | Some (r, pos_orig, len) \<Rightarrow>
              if r \<noteq> OB_SUCCESS then Some (r, pos_orig, s)
              else case check_version_length ver version len data_len pos_orig of
                None \<Rightarrow> None
              | Some r \<Rightarrow>
                  if r \<noteq> OB_SUCCESS then Some (r, pos_orig, s)
                  else case body (map_option (drop (nat pos_orig)) buf) (sint len) 0 s of
                         (r', _, s') \<Rightarrow> Some (r', pos_orig + sint len, s'))"

definition unis_get_serialize_size :: "64 word \<Rightarrow> int \<Rightarrow> int" where
  "unis_get_serialize_size ver len = len + encoded_length_vi64 ver + OB_SERIALIZE_SIZE_NEED_BYTES"

subsection \<open>Contracts of the fixed-width codecs\<close>

lemma emit_exact [codec_intros]: "enc_exact (emit bs) bs"
  by (rule enc_exactI) (auto simp: emit_def)

lemma fetch_exact:
  "length bs = n \<Longrightarrow> glue bs = x \<Longrightarrow> dec_exact (fetch n glue) bs x"
  by (auto simp: dec_exact_def fetch_def)

definition be16 :: "16 word \<Rightarrow> byte list" where
  "be16 v = [low8 (signed_drop_bit 8 v), low8 v]"

definition be32 :: "32 word \<Rightarrow> byte list" where
  "be32 v = [low8 (signed_drop_bit 24 v), low8 (signed_drop_bit 16 v),
             low8 (signed_drop_bit 8 v), low8 v]"

definition be64 :: "64 word \<Rightarrow> byte list" where
  "be64 v = [low8 (signed_drop_bit 56 v), low8 (signed_drop_bit 48 v),
             low8 (signed_drop_bit 40 v), low8 (signed_drop_bit 32 v),
             low8 (signed_drop_bit 24 v), low8 (signed_drop_bit 16 v),
             low8 (signed_drop_bit 8 v), low8 v]"

lemma length_be [simp]: "length (be16 v) = 2" "length (be32 w) = 4" "length (be64 x) = 8"
  by (simp_all add: be16_def be32_def be64_def)

lemma glue16: "push_bit 8 (zext8 (low8 (signed_drop_bit 8 v))) OR zext8 (low8 v) = (v :: 16 word)"
  (is "?l = v")
proof (rule bit_word_eqI)
  fix n assume "n < LENGTH(16)"
  then show "bit ?l n = bit v n" by (simp add: glue_bits) auto
qed

lemma glue32:
  "push_bit 24 (zext8 (low8 (signed_drop_bit 24 v))) OR push_bit 16 (zext8 (low8 (signed_drop_bit 16 v)))
   OR push_bit 8 (zext8 (low8 (signed_drop_bit 8 v))) OR zext8 (low8 v) = (v :: 32 word)"
  (is "?l = v")
proof (rule bit_word_eqI)
  fix n assume "n < LENGTH(32)"
  then show "bit ?l n = bit v n" by (simp add: glue_bits) auto
qed

lemma glue64:
  "push_bit 56 (zext8 (low8 (signed_drop_bit 56 v))) OR push_bit 48 (zext8 (low8 (signed_drop_bit 48 v)))
   OR push_bit 40 (zext8 (low8 (signed_drop_bit 40 v))) OR push_bit 32 (zext8 (low8 (signed_drop_bit 32 v)))
   OR push_bit 24 (zext8 (low8 (signed_drop_bit 24 v))) OR push_bit 16 (zext8 (low8 (signed_drop_bit 16 v)))
   OR push_bit 8 (zext8 (low8 (signed_drop_bit 8 v))) OR zext8 (low8 v) = (v :: 64 word)"
  (is "?l = v")
proof (rule bit_word_eqI)
  fix n assume "n < LENGTH(64)"
  then show "bit ?l n = bit v n" by (simp add: glue_bits) auto
qed

lemma encode_i8_exact [codec_intros]: "enc_exact (\<lambda>buf L p. encode_i8 buf L p v) [v]"
  using emit_exact [of "[v]"] by (simp add: encode_i8_def)

lemma encode_i16_exact [codec_intros]: "enc_exact (\<lambda>buf L p. encode_i16 buf L p v) (be16 v)"
  using emit_exact [of "be16 v"] by (simp add: encode_i16_def be16_def)

lemma encode_i32_exact [codec_intros]: "enc_exact (\<lambda>buf L p. encode_i32 buf L p v) (be32 v)"
  using emit_exact [of "be32 v"] by (simp add: encode_i32_def be32_def)

lemma encode_i64_exact [codec_intros]: "enc_exact (\<lambda>buf L p. encode_i64 buf L p v) (be64 v)"
  using emit_exact [of "be64 v"] by (simp add: encode_i64_def be64_def)

lemma decode_i8_exact [codec_intros]: "dec_exact decode_i8 [v] v"
  unfolding decode_i8_def by (rule fetch_exact) simp_all

lemma decode_i16_exact [codec_intros]: "dec_exact decode_i16 (be16 v) v"
  unfolding decode_i16_def by (rule fetch_exact) (simp_all add: be16_def glue16)

lemma decode_i32_exact [codec_intros]: "dec_exact decode_i32 (be32 v) v"
  unfolding decode_i32_def
  by (rule fetch_exact) (use glue32 [of v] in \<open>simp_all add: be32_def\<close>)

lemma decode_i64_exact [codec_intros]: "dec_exact decode_i64 (be64 v) v"
  unfolding decode_i64_def
  by (rule fetch_exact) (use glue64 [of v] in \<open>simp_all add: be64_def\<close>)

interpretation i8: wire_codec
  "\<lambda>v buf L p. encode_i8 buf L p v" decode_i8 "\<lambda>v. [v]" 1 "\<lambda>_. True"
  by unfold_locales (simp_all add: encode_i8_exact decode_i8_exact)

interpretation i16: wire_codec
  "\<lambda>v buf L p. encode_i16 buf L p v" decode_i16 be16 2 "\<lambda>_. True"
  by unfold_locales (simp_all add: encode_i16_exact decode_i16_exact)

interpretation i32: wire_codec
  "\<lambda>v buf L p. encode_i32 buf L p v" decode_i32 be32 4 "\<lambda>_. True"
  by unfold_locales (simp_all add: encode_i32_exact decode_i32_exact)

interpretation i64: wire_codec
  "\<lambda>v buf L p. encode_i64 buf L p v" decode_i64 be64 8 "\<lambda>_. True"
  by unfold_locales (simp_all add: encode_i64_exact decode_i64_exact)

subsection \<open>The variable-length encoding\<close>

function vi_bytes :: "'a::len word \<Rightarrow> byte list" where
  "vi_bytes v =
     (if 127 < unat v then low8 (v OR 0x80) # vi_bytes (drop_bit 7 v) else [low8 (v AND 0x7f)])"
  by pat_completeness auto
termination
proof (relation "measure unat")
  fix v :: "'a word"
  assume "127 < unat v"
  then have "unat v div 128 < unat v" by simp
  then show "(drop_bit 7 v, v) \<in> measure unat"
    by (simp only: in_measure) (subst unat_drop_bit_eq, simp add: drop_bit_eq_div)
qed simp

declare vi_bytes.simps [simp del]

lemma vi_bytes_nonempty [simp]: "vi_bytes v \<noteq> []"
  by (subst vi_bytes.simps) simp

lemma vi_loop_bytes:
  "p + length (vi_bytes v) \<le> length b \<Longrightarrow>
   vi_loop b p v = (p + length (vi_bytes v), store b p (vi_bytes v))"
proof (induction b p v rule: vi_loop.induct)
  case (1 b p v)
  show ?case
  proof (cases "127 < unat v")
    case True
    let ?x = "low8 (v OR 0x80)"
    have bytes: "vi_bytes v = ?x # vi_bytes (drop_bit 7 v)"
      using True by (subst vi_bytes.simps) simp
    have len: "length (store b p [?x]) = length b"
      using "1.prems" by (intro length_store) (simp add: bytes)
    have "vi_loop b p v = vi_loop (store b p [?x]) (Suc p) (drop_bit 7 v)"
      using True by (subst vi_loop.simps) simp
    also have "\<dots> = (Suc p + length (vi_bytes (drop_bit 7 v)),
        store (store b p [?x]) (Suc p) (vi_bytes (drop_bit 7 v)))"
      using "1.IH" [OF True] "1.prems" by (simp add: bytes len)
    also have "store (store b p [?x]) (Suc p) (vi_bytes (drop_bit 7 v)) = store b p (vi_bytes v)"
      using store_store_adjacent [of p "[?x]" "vi_bytes (drop_bit 7 v)" b] "1.prems"
      by (simp add: bytes)
    finally show ?thesis by (simp add: bytes)
  next
    case False
    then have "vi_bytes v = [low8 (v AND 0x7f)]" by (subst vi_bytes.simps) simp
    with False show ?thesis by (subst vi_loop.simps) simp
  qed
qed

text \<open>The length table agrees with the loop.\<close>

lemma length_vi_bytes:
  "length (vi_bytes v) = (if unat v \<le> 127 then 1 else Suc (length (vi_bytes (drop_bit 7 v))))"
  by (subst vi_bytes.simps) simp

lemma unat_drop_drop: "unat (drop_bit n (drop_bit m (v :: 'a::len word))) = unat v div 2 ^ (m + n)"
  by (simp only: unat_drop_bit_eq) (simp add: drop_bit_eq_div div_mult2_eq power_add)

lemma vi_bytes_le:
  "unat (v :: 'a::len word) < 128 ^ Suc n \<Longrightarrow> length (vi_bytes v) \<le> Suc n"
proof (induction n arbitrary: v)
  case 0
  then show ?case by (simp add: length_vi_bytes)
next
  case (Suc n)
  have "unat v div 128 < 128 ^ Suc n"
    using Suc.prems by (intro less_mult_imp_div_less) (simp add: mult.commute)
  then have "unat (drop_bit 7 v) < 128 ^ Suc n"
    by (subst unat_drop_bit_eq) (simp add: drop_bit_eq_div)
  then have "length (vi_bytes (drop_bit 7 v)) \<le> Suc n" by (rule Suc.IH)
  then show ?case by (subst length_vi_bytes) simp
qed

lemma vi_bytes_ge:
  "128 ^ n \<le> unat (v :: 'a::len word) \<Longrightarrow> Suc n \<le> length (vi_bytes v)"
proof (induction n arbitrary: v)
  case 0
  then show ?case by (simp add: Suc_le_eq)
next
  case (Suc n)
  have "128 * 1 \<le> 128 * (128 :: nat) ^ n" by simp
  also have "\<dots> \<le> unat v" using Suc.prems by simp
  finally have big: "127 < unat v" by simp
  have "128 ^ n \<le> unat v div 128"
    using Suc.prems by (simp add: less_eq_div_iff_mult_less_eq mult.commute)
  then have "128 ^ n \<le> unat (drop_bit 7 v)"
    by (subst unat_drop_bit_eq) (simp add: drop_bit_eq_div)
  then have "Suc n \<le> length (vi_bytes (drop_bit 7 v))" by (rule Suc.IH)
  with big show ?case by (subst length_vi_bytes) simp
qed

lemma length_vi_bytes_eq:
  "128 ^ n \<le> unat v \<Longrightarrow> unat (v :: 'a::len word) < 128 ^ Suc n \<Longrightarrow> length (vi_bytes v) = Suc n"
  using vi_bytes_le [of v n] vi_bytes_ge [of n v] by simp

lemma encoded_length_vi64_eq: "encoded_length_vi64 v = int (length (vi_bytes v))"
proof -
  have "unat v < 2 ^ LENGTH(64)" by (rule unsigned_less)
  then have top: "unat v < 128 ^ Suc 9" by simp
  show ?thesis
    using length_vi_bytes_eq [of 1 v] length_vi_bytes_eq [of 2 v] length_vi_bytes_eq [of 3 v]
      length_vi_bytes_eq [of 4 v] length_vi_bytes_eq [of 5 v] length_vi_bytes_eq [of 6 v]
      length_vi_bytes_eq [of 7 v] length_vi_bytes_eq [of 8 v] length_vi_bytes_eq [of 9 v] top
    by (simp add: encoded_length_vi64_def Let_def length_vi_bytes [of v] del: Suc_eq_plus1)
qed

lemma encoded_length_vi32_eq: "encoded_length_vi32 v = int (length (vi_bytes v))"
proof -
  have "unat v < 2 ^ LENGTH(32)" by (rule unsigned_less)
  then have top: "unat v < 128 ^ Suc 4" by simp
  show ?thesis
    using length_vi_bytes_eq [of 1 v] length_vi_bytes_eq [of 2 v] length_vi_bytes_eq [of 3 v]
      length_vi_bytes_eq [of 4 v] top
    by (simp add: encoded_length_vi32_def Let_def length_vi_bytes [of v])
qed

lemma encode_vi64_exact [codec_intros]: "enc_exact (\<lambda>buf L p. encode_vi64 buf L p v) (vi_bytes v)"
  by (rule enc_exactI) (auto simp: encode_vi64_def encoded_length_vi64_eq vi_loop_bytes)

lemma encode_vi32_exact [codec_intros]: "enc_exact (\<lambda>buf L p. encode_vi32 buf L p v) (vi_bytes v)"
  by (rule enc_exactI) (auto simp: encode_vi32_def encoded_length_vi32_eq vi_loop_bytes)

lemma bit_80: "bit (0x80 :: 'a::len word) n \<longleftrightarrow> n = 7 \<and> 7 < LENGTH('a)"
proof -
  have "(0x80 :: 'a word) = push_bit 7 1" by simp
  then show ?thesis by (simp only: bit_push_bit_iff bit_1_iff possible_bit_def) auto
qed

lemma bit_7f: "bit (0x7f :: 'a::len word) n \<longleftrightarrow> n < 7 \<and> n < LENGTH('a)"
proof -
  have "(0x7f :: 'a word) = mask 7" by (simp add: mask_eq_exp_minus_1)
  then show ?thesis by (simp only: bit_mask_iff) auto
qed

lemma bit7_cont: "8 \<le> LENGTH('a) \<Longrightarrow> bit (low8 ((w :: 'a::len word) OR 0x80)) 7"
  by (simp only: bit_low8 bit_or_iff bit_80) simp

lemma bit7_last: "\<not> bit (low8 ((w :: 'a::len word) AND 0x7f)) 7"
  by (simp only: bit_low8 bit_and_iff bit_7f) simp

lemma group_cont:
  assumes "8 \<le> LENGTH('a)"
  shows "zext8 (low8 ((w :: 'a::len word) OR 0x80)) AND 0x7f = (take_bit 7 w :: 'a word)"
proof (rule bit_word_eqI)
  fix n assume "n < LENGTH('a)"
  then show "bit (zext8 (low8 (w OR 0x80)) AND 0x7f :: 'a word) n = bit (take_bit 7 w) n"
    by (simp only: bit_and_iff bit_zext8 [OF assms] bit_low8 bit_or_iff bit_80 bit_7f
        bit_take_bit_iff) auto
qed

lemma group_last:
  assumes "8 \<le> LENGTH('a)" "unat (w :: 'a::len word) \<le> 127"
  shows "zext8 (low8 (w AND 0x7f)) AND 0x7f = (w :: 'a word)"
proof -
  have "take_bit 7 (unat w) = unat w" using assms(2) by (simp add: take_bit_eq_mod)
  then have w: "take_bit 7 w = w" by (metis unsigned_take_bit_eq unsigned_word_eqI)
  show ?thesis
  proof (rule bit_word_eqI)
    fix n assume "n < LENGTH('a)"
    moreover have "bit w n \<Longrightarrow> n < 7" by (metis w bit_take_bit_iff)
    ultimately show "bit (zext8 (low8 (w AND 0x7f)) AND 0x7f :: 'a word) n = bit w n"
      by (simp only: bit_and_iff bit_zext8 [OF assms(1)] bit_low8 bit_7f) auto
  qed
qed

lemma push_groups:
  "push_bit sh (take_bit 7 w) OR push_bit (sh + 7) (drop_bit 7 w) = push_bit sh (w :: 'a::len word)"
proof (rule bit_word_eqI)
  fix n assume "n < LENGTH('a)"
  moreover have "7 + (n - (sh + 7)) = n - sh" if "sh + 7 \<le> n" using that by simp
  ultimately show "bit (push_bit sh (take_bit 7 w) OR push_bit (sh + 7) (drop_bit 7 w)) n = bit (push_bit sh w) n"
    by (cases "sh + 7 \<le> n") (auto simp: bit_or_iff bit_push_bit_iff bit_take_bit_iff bit_drop_bit_eq)
qed

lemma vi_dec_loop_bytes:
  assumes w8: "8 \<le> LENGTH('a)"
  shows "load b i (length (vi_bytes w)) = vi_bytes (w :: 'a::len word) \<Longrightarrow>
    i + length (vi_bytes w) \<le> L \<Longrightarrow> L \<le> length b \<Longrightarrow>
    sh + 7 * (length (vi_bytes w) - 1) < LENGTH('a) \<Longrightarrow>
    \<exists>v' sh'. vi_dec_loop b (int L) i acc sh =
        Some (OB_SUCCESS, i + length (vi_bytes w) - 1, v', sh') \<and> sh' < LENGTH('a) \<and>
      v' OR push_bit sh' (zext8 (b ! (i + length (vi_bytes w) - 1)) AND 0x7f) = acc OR push_bit sh w"
proof (induction w arbitrary: i acc sh rule: vi_bytes.induct)
  case (1 w)
  show ?case
  proof (cases "127 < unat w")
    case True
    let ?w = "drop_bit 7 w" and ?x = "low8 (w OR 0x80)"
    have bytes: "vi_bytes w = ?x # vi_bytes ?w" using True by (subst vi_bytes.simps) simp
    obtain m where m: "length (vi_bytes ?w) = Suc m"
      by (cases "vi_bytes ?w") (auto simp: vi_bytes_nonempty)
    have i: "i < length b" and bi: "b ! i = ?x" and rest: "load b (Suc i) (length (vi_bytes ?w)) = vi_bytes ?w"
      using "1.prems" by (auto simp: bytes load_Suc)
    have "vi_dec_loop b (int L) i acc sh =
        vi_dec_loop b (int L) (Suc i) (acc OR push_bit sh (take_bit 7 w)) (sh + 7)"
      using "1.prems" i by (subst vi_dec_loop.simps) (simp add: bi bit7_cont [OF w8] group_cont [OF w8] bytes m)
    moreover obtain v' sh' where "vi_dec_loop b (int L) (Suc i) (acc OR push_bit sh (take_bit 7 w)) (sh + 7) =
        Some (OB_SUCCESS, Suc i + length (vi_bytes ?w) - 1, v', sh')" "sh' < LENGTH('a)"
      "v' OR push_bit sh' (zext8 (b ! (Suc i + length (vi_bytes ?w) - 1)) AND 0x7f) =
        (acc OR push_bit sh (take_bit 7 w)) OR push_bit (sh + 7) ?w"
      using "1.IH" [OF True rest, of "sh + 7" "acc OR push_bit sh (take_bit 7 w)"] "1.prems"
      by (auto simp: bytes m)
    ultimately show ?thesis
      by (auto simp: bytes m or.assoc push_groups)
  next
    case False
    then have bytes: "vi_bytes w = [low8 (w AND 0x7f)]" by (subst vi_bytes.simps) simp
    with "1.prems" have "i < length b" "b ! i = low8 (w AND 0x7f)"
      by (auto simp: load_Suc)
    with False "1.prems" show ?thesis
      by (subst vi_dec_loop.simps) (auto simp: bytes bit7_last group_last [OF w8])
  qed
qed

text \<open>
  A well-formed encoding is decoded, provided the last group is shifted by less than the width;
  the groups of a 64-bit and of a 32-bit value are.
\<close>

lemma decode_vi_bytes:
  fixes w :: "'a::len word"
  assumes "8 \<le> LENGTH('a)" "7 * (length (vi_bytes w) - 1) < LENGTH('a)"
    and "load b p (length (vi_bytes w)) = vi_bytes w" "p + length (vi_bytes w) \<le> L" "L \<le> length b"
  shows "decode_vi (Some b) (int L) (int p) =
    Some (OB_SUCCESS, int (p + length (vi_bytes w)), Some w)"
proof -
  obtain m where m: "length (vi_bytes w) = Suc m"
    by (cases "vi_bytes w") (auto simp: vi_bytes_nonempty)
  obtain v' sh' where "vi_dec_loop b (int L) p (0 :: 'a word) 0 =
      Some (OB_SUCCESS, p + length (vi_bytes w) - 1, v', sh')" "sh' < LENGTH('a)"
    "v' OR push_bit sh' (zext8 (b ! (p + length (vi_bytes w) - 1)) AND 0x7f) = 0 OR push_bit 0 w"
    using vi_dec_loop_bytes [OF assms(1,3,4,5), of 0 0] assms(2) by auto
  with assms(4) show ?thesis by (simp add: decode_vi_def m)
qed

lemma vi64_shift: "7 * (length (vi_bytes (w :: 64 word)) - 1) < LENGTH(64)"
proof -
  have "unat w < 2 ^ LENGTH(64)" by (rule unsigned_less)
  then have "length (vi_bytes w) \<le> Suc 9" by (intro vi_bytes_le) simp
  then show ?thesis by simp
qed

lemma vi32_shift: "7 * (length (vi_bytes (w :: 32 word)) - 1) < LENGTH(32)"
proof -
  have "unat w < 2 ^ LENGTH(32)" by (rule unsigned_less)
  then have "length (vi_bytes w) \<le> Suc 4" by (intro vi_bytes_le) simp
  then show ?thesis by simp
qed

subsection \<open>The frame is a codec when its body is\<close>

definition fixed_bytes :: "64 word \<Rightarrow> byte list" where
  "fixed_bytes v =
     [low8 (v OR 0x80), low8 (drop_bit 7 v OR 0x80), low8 (drop_bit 14 v OR 0x80),
      low8 (drop_bit 21 v OR 0x80), low8 (drop_bit 28 v AND 0x7f)]"

lemma length_fixed_bytes [simp]: "length (fixed_bytes v) = 5"
  by (simp add: fixed_bytes_def)

lemma encode_fixed_bytes_at_0:
  assumes "5 \<le> length b"
  shows "encode_fixed_bytes_i64 (Some b) 5 0 v = (OB_SUCCESS, 5, Some (fixed_bytes v @ drop 5 b))"
proof -
  obtain a1 a2 a3 a4 a5 r where "b = a1 # a2 # a3 # a4 # a5 # r"
    using assms by (auto simp: numeral_eq_Suc Suc_le_length_iff)
  then show ?thesis
    by (simp add: encode_fixed_bytes_i64_def fixed_bytes_def store_def eval_nat_numeral drop_bit_drop_bit)
qed

text \<open>The padded form is the same sequence of groups, so the variable-length decoder reads it.\<close>

lemma vi_dec_cont:
  assumes "i < length b" "int i < L" "sh < 64" "b ! i = low8 ((w :: 64 word) OR 0x80)"
  shows "vi_dec_loop b L i v sh = vi_dec_loop b L (Suc i) (v OR push_bit sh (take_bit 7 w)) (sh + 7)"
  using assms by (subst vi_dec_loop.simps) (simp add: bit7_cont group_cont)

lemma groups_35:
  "take_bit 7 (v :: 64 word) OR push_bit 7 (take_bit 7 (drop_bit 7 v)) OR push_bit 14 (take_bit 7 (drop_bit 14 v))
    OR push_bit 21 (take_bit 7 (drop_bit 21 v)) OR push_bit 28 (drop_bit 28 v) = v"
  using push_groups [of 21 "drop_bit 21 v"] push_groups [of 14 "drop_bit 14 v"] push_groups [of 7 "drop_bit 7 v"]
    push_groups [of 0 v]
  by (simp add: drop_bit_drop_bit or.assoc)

lemma decode_fixed_bytes:
  assumes v: "unat v < 2 ^ 35" and b: "load b p 5 = fixed_bytes v" "p + 5 \<le> L" "L \<le> length b"
  shows "decode_vi64 (Some b) (int L) (int p) = Some (OB_SUCCESS, int (p + 5), Some v)"
proof -
  have "b ! (p + i) = fixed_bytes v ! i" if "i < 5" for i
    using that b nth_load [of i 5 p b] by simp
  from this [of 0] this [of 1] this [of 2] this [of 3] this [of 4]
  have nth: "b ! p = low8 (v OR 0x80)" "b ! Suc p = low8 (drop_bit 7 v OR 0x80)"
    "b ! Suc (Suc p) = low8 (drop_bit 14 v OR 0x80)" "b ! Suc (Suc (Suc p)) = low8 (drop_bit 21 v OR 0x80)"
    "b ! Suc (Suc (Suc (Suc p))) = low8 (drop_bit 28 v AND 0x7f)"
    by (simp_all add: fixed_bytes_def eval_nat_numeral)
  have "unat (drop_bit 28 v) = unat v div 2 ^ 28" by (subst unat_drop_bit_eq) (simp add: drop_bit_eq_div)
  moreover have "unat v div 2 ^ 28 < 2 ^ 7" using v by (simp add: div_less_iff_less_mult)
  ultimately have last: "unat (drop_bit 28 v) \<le> 127" by simp
  have "vi_dec_loop b (int L) p 0 0 = Some (OB_SUCCESS, p + 4,
      take_bit 7 v OR push_bit 7 (take_bit 7 (drop_bit 7 v)) OR push_bit 14 (take_bit 7 (drop_bit 14 v))
      OR push_bit 21 (take_bit 7 (drop_bit 21 v)), 28)"
    using b(2,3)
    by (simp add: vi_dec_cont [OF _ _ _ nth(1)] vi_dec_cont [OF _ _ _ nth(2)] vi_dec_cont [OF _ _ _ nth(3)]
        vi_dec_cont [OF _ _ _ nth(4)] vi_dec_loop.simps [of b "int L" "Suc (Suc (Suc (Suc p)))"] nth(5) bit7_last or.assoc)
  then show ?thesis
    using b(2) nth(5) groups_35 [of v] group_last [OF _ last]
    by (simp add: decode_vi64_def decode_vi_def eval_nat_numeral or.assoc)
qed

definition unis_image :: "64 word \<Rightarrow> byte list \<Rightarrow> byte list" where
  "unis_image ver bs = vi_bytes ver @ fixed_bytes (of_nat (length bs)) @ bs"

lemma unis_serialize_exact [codec_intros]:
  assumes body: "enc_exact body bs"
  shows "enc_exact (unis_serialize ver body) (unis_image ver bs)"
proof (rule enc_exactI)
  fix b :: "byte list" and L p
  let ?k = "p + length (vi_bytes ver)" and ?V = "vi_bytes ver"
  assume L: "L \<le> length b" and room: "p + length (unis_image ver bs) \<le> L"
  then have room': "?k + 5 + length bs \<le> L" by (simp add: unis_image_def)
  let ?b = "store (store b p ?V) (?k + 5) bs"
  have "encode_vi64 (Some b) (int L) (int p) ver = (OB_SUCCESS, int ?k, Some (store b p ?V))"
    using enc_exactD [OF encode_vi64_exact [of ver], of p L b] L room' by simp
  moreover have "body (Some (store b p ?V)) (int L) (int ?k + 5) = (OB_SUCCESS, int ?k + 5 + int (length bs), Some ?b)"
    using enc_exactD [OF body, of "?k + 5" L "store b p ?V"] L room' by (simp add: add.assoc)
  moreover have "take ?k ?b @ fixed_bytes w @ drop 5 (drop ?k ?b) = store b p (?V @ fixed_bytes w @ bs)" for w
    using L room' by (simp add: store_def min_def ac_simps)
  ultimately show "unis_serialize ver body (Some b) (int L) (int p) =
      (OB_SUCCESS, int (p + length (unis_image ver bs)), Some (store b p (unis_image ver bs)))"
    using L room' by (simp add: unis_serialize_def OB_SERIALIZE_SIZE_NEED_BYTES_def encode_fixed_bytes_at_0 unis_image_def
        Let_def nat_add_distrib)
next
  fix b :: "byte list" and L p
  let ?k = "p + length (vi_bytes ver)" and ?V = "vi_bytes ver"
  assume L: "L \<le> length b" and short: "L < p + length (unis_image ver bs)"
  show "fst (unis_serialize ver body (Some b) (int L) (int p)) \<noteq> OB_SUCCESS"
  proof (cases "?k \<le> L")
    case True
    then have "encode_vi64 (Some b) (int L) (int p) ver = (OB_SUCCESS, int ?k, Some (store b p ?V))"
      using enc_exactD [OF encode_vi64_exact [of ver], of p L b] L by simp
    moreover have "fst (body (Some (store b p ?V)) (int L) (int ?k + 5)) \<noteq> OB_SUCCESS"
      using enc_exact_shortD [OF body, of "?k + 5" L "store b p ?V"] L short True
      by (simp add: unis_image_def add.assoc)
    ultimately show ?thesis
      by (auto simp: unis_serialize_def OB_SERIALIZE_SIZE_NEED_BYTES_def Let_def split: prod.splits)
  next
    case False
    then show ?thesis
      using enc_exact_shortD [OF encode_vi64_exact [of ver], of p L b] L
      by (auto simp: unis_serialize_def split: prod.splits)
  qed
qed

text \<open>Reading a framed image: the version, the length, and the body behind them.\<close>

lemma unis_decode_image:
  assumes b: "load b p (length (unis_image ver bs)) = unis_image ver bs"
    and L: "p + length (unis_image ver bs) \<le> L" "L \<le> length b" and len: "length bs < 2 ^ 35"
  defines "k \<equiv> p + length (vi_bytes ver)" and "w \<equiv> of_nat (length bs) :: 64 word"
  shows "unis_decode (Some b) (int L) (int p) = Some (OB_SUCCESS, int k, ver)"
    and "unis_decode (Some b) (int L) (int k) = Some (OB_SUCCESS, int (k + 5), w)"
    and "take (length bs) (drop (k + 5) b) = bs" and "sint w = int (length bs)"
    and "k + 5 + length bs \<le> L"
proof -
  show room: "k + 5 + length bs \<le> L" using L(1) by (simp add: unis_image_def k_def)
  have ld: "load b p (length (vi_bytes ver)) = vi_bytes ver" "load b k (5 + length bs) = fixed_bytes w @ bs"
    using load_appendD [of b p "vi_bytes ver" "fixed_bytes w @ bs"] b L room
    by (simp_all add: unis_image_def k_def w_def)
  then have ld': "load b k 5 = fixed_bytes w" "load b (k + 5) (length bs) = bs"
    using load_appendD [of b k "fixed_bytes w" bs] L room by simp_all
  have w: "unat w = length bs" and sw: "sint w = int (length bs)"
    using len by (simp_all add: w_def unat_of_nat signed_of_nat signed_take_bit_int_eq_self)
  show "sint w = int (length bs)" by (rule sw)
  show "unis_decode (Some b) (int L) (int p) = Some (OB_SUCCESS, int k, ver)"
    using decode_vi_bytes [of ver b p L] vi64_shift [of ver] ld(1) room L(2)
    by (simp add: unis_decode_def decode_vi64_def k_def)
  show "unis_decode (Some b) (int L) (int k) = Some (OB_SUCCESS, int (k + 5), w)"
    using decode_fixed_bytes [of w b k L] ld'(1) room L(2) len by (simp add: unis_decode_def w)
  show "take (length bs) (drop (k + 5) b) = bs" using ld'(2) by (simp add: load_def)
qed

lemma unis_deserialize_image:
  assumes b: "load b p (length (unis_image ver bs)) = unis_image ver bs"
    and L: "p + length (unis_image ver bs) \<le> L" "L \<le> length b" "L < 2 ^ 63" and len: "length bs < 2 ^ 35"
    and body: "\<And>c. length bs \<le> length c \<Longrightarrow> take (length bs) c = bs \<Longrightarrow>
      \<exists>q. body (Some c) (int (length bs)) 0 s = (r, q, s')"
  shows "unis_deserialize ver body (Some b) (int L) (int p) s = Some (r, int (p + length (unis_image ver bs)), s')"
proof -
  let ?k = "p + length (vi_bytes ver)" and ?w = "of_nat (length bs) :: 64 word"
  note dec = unis_decode_image [OF b L(1,2) len]
  have chk: "check_version_length ver ver ?w (int L) (int (?k + 5)) = Some OB_SUCCESS"
    using dec(5) L(3) by (simp add: check_version_length_def dec(4))
  obtain q where "body (Some (drop (?k + 5) b)) (int (length bs)) 0 s = (r, q, s')"
    using body [of "drop (?k + 5) b"] le_diff_conv2 [of "?k + 5" "length b" "length bs"] dec(3,5) L(2) by auto
  then show ?thesis
    using dec(1,2) chk by (simp add: unis_deserialize_def dec(4) unis_image_def nat_add_distrib)
qed

lemma unis_deserialize_other_version:
  assumes "load b p (length (unis_image v bs)) = unis_image v bs"
    and "p + length (unis_image v bs) \<le> L" "L \<le> length b" "length bs < 2 ^ 35" and ver: "v \<noteq> ver"
  shows "unis_deserialize ver body (Some b) (int L) (int p) s =
    Some (OB_NOT_SUPPORTED, int (p + length (vi_bytes v) + 5), s)"
  using unis_decode_image(1,2) [OF assms(1-4)] ver by (simp add: unis_deserialize_def check_version_length_def)

end
