(* ===== verification/Ob_Atomic.thy ===== *)
theory Ob_Atomic
  imports Main
begin

section \<open>Compare-and-swap update loops\<close>

text \<open>
  \<^verbatim>\<open>inc_update\<close> and \<^verbatim>\<open>dec_update\<close> of \<^verbatim>\<open>oblib/lib/atomic/ob_atomic.h\<close> move a shared register
  towards a bound with a load and a loop of value-returning compare-and-swaps;
  \<^verbatim>\<open>SCN::inc_update\<close>, \<^verbatim>\<open>SCN::dec_update\<close> and the watermarks of the log group buffer are
  instances. A thread is a program counter with its local copy of the register; the order
  \<open>lt\<close> it compares with is a parameter (less-than for \<^verbatim>\<open>inc_update\<close>, greater-than for
  \<^verbatim>\<open>dec_update\<close>). Any number of threads run interleaved on one register.
\<close>

datatype 'a cas_pc = Idle | Trying 'a | Returned 'a

definition vcas :: "'a \<Rightarrow> 'a \<Rightarrow> 'a \<Rightarrow> 'a \<times> 'a" where
  \<comment> \<open>the observed value and the register afterwards\<close>
  "vcas reg cmpv newv = (reg, if reg = cmpv then newv else reg)"

text \<open>One step of the loop: the load, or one test of the guard with its compare-and-swap.\<close>

fun cas_iter :: "('a \<Rightarrow> 'a \<Rightarrow> bool) \<Rightarrow> 'a \<Rightarrow> 'a \<Rightarrow> 'a cas_pc \<Rightarrow> 'a \<times> 'a cas_pc" where
  "cas_iter lt x reg Idle = (reg, Trying reg)"
| "cas_iter lt x reg (Trying nv) =
     (if lt nv x
      then (case vcas reg nv x of
              (seen, reg') \<Rightarrow> (reg', if seen = nv then Trying x else Trying seen))
      else (reg, Returned nv))"
| "cas_iter lt x reg (Returned nv) = (reg, Returned nv)"

text \<open>A single thread left alone; three steps always suffice (\<open>seq_update_eq\<close>).\<close>

fun cas_run :: "('a \<Rightarrow> 'a \<Rightarrow> bool) \<Rightarrow> 'a \<Rightarrow> nat \<Rightarrow> 'a \<times> 'a cas_pc \<Rightarrow> 'a \<times> 'a cas_pc" where
  "cas_run lt x 0 s = s"
| "cas_run lt x (Suc n) (reg, pc) = cas_run lt x n (cas_iter lt x reg pc)"

definition seq_update :: "('a \<Rightarrow> 'a \<Rightarrow> bool) \<Rightarrow> 'a \<Rightarrow> 'a \<Rightarrow> 'a \<times> 'a cas_pc" where
  "seq_update lt reg x = cas_run lt x 3 (reg, Idle)"

text \<open>The interleaving: thread \<open>i\<close> updates towards \<open>xs i\<close>.\<close>

type_synonym 'a cas_state = "'a \<times> (nat \<Rightarrow> 'a cas_pc)"

inductive cas_step :: "('a \<Rightarrow> 'a \<Rightarrow> bool) \<Rightarrow> (nat \<Rightarrow> 'a) \<Rightarrow> 'a cas_state \<Rightarrow> 'a cas_state \<Rightarrow> bool"
  for lt :: "'a \<Rightarrow> 'a \<Rightarrow> bool" and xs :: "nat \<Rightarrow> 'a"
where
  thread: "cas_iter lt (xs i) reg (pcs i) = (reg', pc') \<Longrightarrow>
    cas_step lt xs (reg, pcs) (reg', pcs(i := pc'))"

inductive cas_reach :: "('a \<Rightarrow> 'a \<Rightarrow> bool) \<Rightarrow> (nat \<Rightarrow> 'a) \<Rightarrow> 'a \<Rightarrow> 'a cas_state \<Rightarrow> bool"
  for lt :: "'a \<Rightarrow> 'a \<Rightarrow> bool" and xs :: "nat \<Rightarrow> 'a" and r0 :: 'a
where
  start: "cas_reach lt xs r0 (r0, \<lambda>_. Idle)"
| step: "cas_reach lt xs r0 s \<Longrightarrow> cas_step lt xs s t \<Longrightarrow> cas_reach lt xs r0 t"

text \<open>A schedule, the threads in the order in which they take their steps, runs to a reachable state.\<close>

fun cas_exec :: "('a \<Rightarrow> 'a \<Rightarrow> bool) \<Rightarrow> (nat \<Rightarrow> 'a) \<Rightarrow> nat list \<Rightarrow> 'a cas_state \<Rightarrow> 'a cas_state" where
  "cas_exec lt xs [] s = s"
| "cas_exec lt xs (i # sched) (reg, pcs) =
     (case cas_iter lt (xs i) reg (pcs i) of
        (reg', pc') \<Rightarrow> cas_exec lt xs sched (reg', pcs(i := pc')))"

lemma cas_exec_reach: "cas_reach lt xs r0 s \<Longrightarrow> cas_reach lt xs r0 (cas_exec lt xs sched s)"
proof (induction sched arbitrary: s)
  case (Cons i sched)
  obtain reg pcs where s: "s = (reg, pcs)" by (cases s)
  obtain reg' pc' where it: "cas_iter lt (xs i) reg (pcs i) = (reg', pc')" by fastforce
  have "cas_reach lt xs r0 (reg', pcs(i := pc'))"
    using Cons.prems cas_step.thread [of lt xs i reg pcs, OF it] by (auto simp: s intro: cas_reach.step)
  then show ?case using Cons.IH by (simp add: s it)
qed simp

inductive_cases cas_stepE: "cas_step lt xs s t"

text \<open>
  The client's side: for a transitive irreflexive comparison the register only moves towards
  the bounds, and a thread that has returned leaves the register at its bound or beyond.
\<close>

locale cas_order =
  fixes lt :: "'a \<Rightarrow> 'a \<Rightarrow> bool"
  assumes irrefl: "\<not> lt a a"
    and trans: "lt a b \<Longrightarrow> lt b c \<Longrightarrow> lt a c"
begin

lemma iter_mono: "cas_iter lt x reg pc = (reg', pc') \<Longrightarrow> reg' = reg \<or> lt reg reg'"
  by (cases pc) (auto simp: vcas_def split: if_splits)

lemma seq_update_eq:
  "seq_update lt reg x = (let m = if lt reg x then x else reg in (m, Returned m))"
  by (simp add: seq_update_def eval_nat_numeral vcas_def irrefl)

lemma iter_local:
  assumes "cas_iter lt x reg pc = (reg', pc')"
    and "\<And>nv. pc = Trying nv \<or> pc = Returned nv \<Longrightarrow> nv = reg \<or> lt nv reg"
    and "pc' = Trying nv \<or> pc' = Returned nv"
  shows "nv = reg' \<or> lt nv reg'"
  using assms by (cases pc) (auto simp: vcas_def split: if_splits)

lemma iter_returned:
  assumes "cas_iter lt x reg pc = (reg', Returned nv)" "pc = Returned nv \<Longrightarrow> \<not> lt nv x"
  shows "\<not> lt nv x"
  using assms by (cases pc) (auto split: if_splits prod.splits)

lemma reach_inv:
  assumes "cas_reach lt xs r0 s"
  shows "(fst s = r0 \<or> lt r0 (fst s)) \<and>
    (\<forall>i nv. snd s i = Trying nv \<or> snd s i = Returned nv \<longrightarrow> nv = fst s \<or> lt nv (fst s)) \<and>
    (\<forall>i nv. snd s i = Returned nv \<longrightarrow> \<not> lt nv (xs i))"
  using assms
proof (induction rule: cas_reach.induct)
  case start
  then show ?case by simp
next
  case (step s t)
  from step.hyps(2) obtain reg pcs i reg' pc'
    where s: "s = (reg, pcs)" and t: "t = (reg', pcs(i := pc'))"
      and it: "cas_iter lt (xs i) reg (pcs i) = (reg', pc')"
    by (auto elim!: cas_stepE)
  have mono: "reg' = reg \<or> lt reg reg'" by (rule iter_mono [OF it])
  have loc: "nv = reg \<or> lt nv reg" if "pcs j = Trying nv \<or> pcs j = Returned nv" for j nv
    using step.IH that by (auto simp: s)
  show ?case
  proof (intro conjI allI impI)
    show "fst t = r0 \<or> lt r0 (fst t)"
      using step.IH mono by (auto simp: s t intro: trans)
  next
    fix j nv assume j: "snd t j = Trying nv \<or> snd t j = Returned nv"
    show "nv = fst t \<or> lt nv (fst t)"
    proof (cases "j = i")
      case True
      with j have "pc' = Trying nv \<or> pc' = Returned nv" by (simp add: t)
      with it loc have "nv = reg' \<or> lt nv reg'" by (rule iter_local)
      then show ?thesis by (simp add: t)
    next
      case False
      with j loc [of j nv] mono show ?thesis by (auto simp: t intro: trans)
    qed
  next
    fix j nv assume j: "snd t j = Returned nv"
    show "\<not> lt nv (xs j)"
    proof (cases "j = i")
      case True
      with j it have "cas_iter lt (xs i) reg (pcs i) = (reg', Returned nv)" by (simp add: t)
      then show ?thesis using step.IH iter_returned [of "xs i" reg "pcs i"] True by (auto simp: s)
    next
      case False
      with j step.IH show ?thesis by (auto simp: s t)
    qed
  qed
qed

lemma returned_bound:
  assumes "cas_reach lt xs r0 (reg, pcs)" "pcs i = Returned nv"
  shows "\<not> lt reg (xs i)"
proof -
  note inv = reach_inv [OF assms(1), simplified]
  have "nv = reg \<or> lt nv reg" using inv assms(2) by blast
  moreover have "\<not> lt nv (xs i)" using inv assms(2) by blast
  ultimately show ?thesis by (auto dest: trans)
qed

end

end
