(* ===== verification/Palf_Scn.thy ===== *)
theory Palf_Scn
  imports Ob_Codec Ob_Atomic
begin

section \<open>System change numbers: \<^verbatim>\<open>share/scn.h\<close>, \<^verbatim>\<open>share/scn.cpp\<close>\<close>

text \<open>
  An SCN is one 64-bit word, read through a union either as \<^verbatim>\<open>val_\<close> or as the bit fields
  \<^verbatim>\<open>ts_ns_\<close> (62 bits, nanoseconds) and \<^verbatim>\<open>v_\<close> (2 bits, the version, 0 for a valid SCN).
  Modelled is the whole class: validity, the comparison operators, arithmetic, the atomic
  updates, the conversions and both serialized forms. Left out are the printers
  (\<^verbatim>\<open>to_yson\<close>, the stream operator). Functions that return a code and change the
  object return both. 64-bit signed arguments and results are \<open>int\<close>.
\<close>

datatype SCN = SCN (scn_val: "64 word")

definition OB_INVALID_SCN_VAL :: "64 word" where "OB_INVALID_SCN_VAL = - 1"
definition OB_MIN_SCN_TS_NS :: "64 word" where "OB_MIN_SCN_TS_NS = 0"
definition OB_BASE_SCN_TS_NS :: "64 word" where "OB_BASE_SCN_TS_NS = 1"
definition OB_MAX_SCN_TS_NS :: "64 word" where "OB_MAX_SCN_TS_NS = push_bit 62 1 - 1"
definition SCN_VERSION :: "64 word" where "SCN_VERSION = 0"
definition INT64_MAX :: int where "INT64_MAX = 2 ^ 63 - 1"

lemmas scn_consts = OB_INVALID_SCN_VAL_def OB_MIN_SCN_TS_NS_def OB_BASE_SCN_TS_NS_def
  OB_MAX_SCN_TS_NS_def SCN_VERSION_def INT64_MAX_def

subsection \<open>The bit fields\<close>

definition ts_ns :: "SCN \<Rightarrow> 64 word" where "ts_ns s = take_bit 62 (scn_val s)"
definition ver :: "SCN \<Rightarrow> 64 word" where "ver s = drop_bit 62 (scn_val s)"

text \<open>Assignment to both fields: \<^verbatim>\<open>v_ = v; ts_ns_ = ts\<close>.\<close>

definition scn_fields :: "64 word \<Rightarrow> 64 word \<Rightarrow> SCN" where
  "scn_fields v ts = SCN (take_bit 62 ts OR push_bit 62 v)"

definition scn_is_valid :: "SCN \<Rightarrow> bool" where "scn_is_valid s \<longleftrightarrow> SCN_VERSION = ver s"

definition is_valid_and_not_min :: "SCN \<Rightarrow> bool" where
  "is_valid_and_not_min s \<longleftrightarrow> SCN_VERSION = ver s \<and> OB_MIN_SCN_TS_NS \<noteq> scn_val s"

definition is_max :: "SCN \<Rightarrow> bool" where
  "is_max s \<longleftrightarrow> ver s = SCN_VERSION \<and> ts_ns s = OB_MAX_SCN_TS_NS"

definition is_min :: "SCN \<Rightarrow> bool" where
  "is_min s \<longleftrightarrow> ver s = SCN_VERSION \<and> ts_ns s = OB_MIN_SCN_TS_NS"

definition is_base_scn :: "SCN \<Rightarrow> bool" where
  "is_base_scn s \<longleftrightarrow> SCN_VERSION = ver s \<and> OB_BASE_SCN_TS_NS = ts_ns s"

definition set_max :: "SCN \<Rightarrow> SCN" where "set_max s = scn_fields SCN_VERSION OB_MAX_SCN_TS_NS"
definition set_min :: "SCN \<Rightarrow> SCN" where "set_min s = scn_fields SCN_VERSION OB_MIN_SCN_TS_NS"
definition set_base :: "SCN \<Rightarrow> SCN" where "set_base s = scn_fields SCN_VERSION OB_BASE_SCN_TS_NS"

definition invalid_scn :: SCN where "invalid_scn = SCN OB_INVALID_SCN_VAL"
definition max_scn :: SCN where "max_scn = set_max invalid_scn"
definition min_scn :: SCN where "min_scn = set_min invalid_scn"
definition base_scn :: SCN where "base_scn = set_base invalid_scn"

subsection \<open>Comparison\<close>

definition scn_lt :: "SCN \<Rightarrow> SCN \<Rightarrow> bool" where
  "scn_lt a b =
     (if \<not> scn_is_valid a \<and> \<not> scn_is_valid b then False
      else if \<not> scn_is_valid a then True
      else if \<not> scn_is_valid b then False
      else ts_ns a < ts_ns b)"

definition scn_le :: "SCN \<Rightarrow> SCN \<Rightarrow> bool" where
  "scn_le a b =
     (if \<not> scn_is_valid a \<and> \<not> scn_is_valid b then True
      else if \<not> scn_is_valid a then True
      else if \<not> scn_is_valid b then False
      else ts_ns a \<le> ts_ns b)"

definition scn_gt :: "SCN \<Rightarrow> SCN \<Rightarrow> bool" where
  "scn_gt a b =
     (if \<not> scn_is_valid a \<and> \<not> scn_is_valid b then False
      else if \<not> scn_is_valid a then False
      else if \<not> scn_is_valid b then True
      else ts_ns a > ts_ns b)"

definition scn_ge :: "SCN \<Rightarrow> SCN \<Rightarrow> bool" where
  "scn_ge a b =
     (if \<not> scn_is_valid a \<and> \<not> scn_is_valid b then True
      else if \<not> scn_is_valid a then False
      else if \<not> scn_is_valid b then True
      else ts_ns a \<ge> ts_ns b)"

definition scn_max :: "SCN \<Rightarrow> SCN \<Rightarrow> SCN" where
  "scn_max left right =
     (if \<not> scn_is_valid left then right
      else if \<not> scn_is_valid right then left
      else if scn_gt right left then right else left)"

definition scn_min :: "SCN \<Rightarrow> SCN \<Rightarrow> SCN" where
  "scn_min left right =
     (if \<not> scn_is_valid left then left
      else if \<not> scn_is_valid right then right
      else if scn_lt right left then right else left)"

subsection \<open>Arithmetic\<close>

definition scn_plus :: "SCN \<Rightarrow> 64 word \<Rightarrow> SCN" where
  "scn_plus ref delta =
     (if OB_MAX_SCN_TS_NS \<le> delta \<or> \<not> scn_is_valid ref then invalid_scn
      else let new_val = scn_val ref + delta in
           if OB_MAX_SCN_TS_NS < new_val then invalid_scn else SCN new_val)"

definition scn_minus :: "SCN \<Rightarrow> 64 word \<Rightarrow> SCN" where
  "scn_minus ref delta =
     (if OB_MAX_SCN_TS_NS \<le> delta \<or> \<not> scn_is_valid ref then invalid_scn
      else if scn_val ref < delta then invalid_scn
      else SCN (scn_val ref - delta))"

definition scn_inc :: "SCN \<Rightarrow> SCN" where
  "scn_inc ref =
     (if OB_MAX_SCN_TS_NS \<le> scn_val ref then SCN OB_INVALID_SCN_VAL else SCN (scn_val ref + 1))"

definition scn_dec :: "SCN \<Rightarrow> SCN" where
  "scn_dec ref =
     (if OB_MIN_SCN_TS_NS = scn_val ref \<or> \<not> scn_is_valid ref then SCN OB_INVALID_SCN_VAL
      else SCN (scn_val ref - 1))"

definition scn_atomic_bcas :: "SCN \<Rightarrow> SCN \<Rightarrow> SCN \<Rightarrow> bool \<times> SCN" where
  "scn_atomic_bcas this old_v new_val = (this = old_v, snd (vcas this old_v new_val))"

definition scn_atomic_vcas :: "SCN \<Rightarrow> SCN \<Rightarrow> SCN \<Rightarrow> SCN \<times> SCN" where
  "scn_atomic_vcas this old_v new_val = vcas this old_v new_val"

definition scn_inc_update :: "SCN \<Rightarrow> SCN \<Rightarrow> SCN \<times> SCN cas_pc" where
  \<comment> \<open>the register afterwards and the returned value\<close>
  "scn_inc_update this ref_scn = seq_update scn_lt this ref_scn"

definition scn_dec_update :: "SCN \<Rightarrow> SCN \<Rightarrow> SCN \<times> SCN cas_pc" where
  "scn_dec_update this ref_scn = seq_update scn_gt this ref_scn"

subsection \<open>Conversions\<close>

definition convert_to_ts :: "SCN \<Rightarrow> int" where
  "convert_to_ts s = (if scn_is_valid s then uint (ts_ns s) div 1000 else 0)"

definition convert_from_ts :: "64 word \<Rightarrow> SCN \<Rightarrow> ob_ret \<times> SCN" where
  "convert_from_ts ts_us this =
     (let ns = ts_us * 1000 in
      if OB_MAX_SCN_TS_NS div 1000 + 1 \<le> ts_us then (OB_INVALID_ARGUMENT, this)
      else (OB_SUCCESS, scn_fields SCN_VERSION ns))"

definition convert_for_gts :: "int \<Rightarrow> SCN \<Rightarrow> ob_ret \<times> SCN" where
  "convert_for_gts ns this =
     (if 0 > ns \<or> OB_MAX_SCN_TS_NS < word_of_int ns then (OB_INVALID_ARGUMENT, this)
      else (OB_SUCCESS, scn_fields SCN_VERSION (word_of_int ns)))"

definition convert_for_logservice :: "64 word \<Rightarrow> SCN \<Rightarrow> ob_ret \<times> SCN" where
  "convert_for_logservice v this =
     (if OB_MAX_SCN_TS_NS < v then (OB_INVALID_ARGUMENT, this) else (OB_SUCCESS, SCN v))"

definition convert_for_inner_table_field :: "64 word \<Rightarrow> SCN \<Rightarrow> ob_ret \<times> SCN" where
  "convert_for_inner_table_field v this =
     (if OB_MAX_SCN_TS_NS < v then (OB_INVALID_ARGUMENT, this) else (OB_SUCCESS, SCN v))"

definition convert_for_sql :: "64 word \<Rightarrow> SCN \<Rightarrow> ob_ret \<times> SCN" where
  "convert_for_sql v this =
     (if OB_MAX_SCN_TS_NS < v then (OB_INVALID_ARGUMENT, this) else (OB_SUCCESS, SCN v))"

definition convert_for_tx :: "int \<Rightarrow> SCN \<Rightarrow> ob_ret \<times> SCN" where
  "convert_for_tx v this =
     (if INT64_MAX = v then (OB_SUCCESS, SCN OB_MAX_SCN_TS_NS)
      else if v < 0 \<or> OB_MAX_SCN_TS_NS < word_of_int v then (OB_INVALID_ARGUMENT, this)
      else (OB_SUCCESS, SCN (word_of_int v)))"

definition get_val_for_tx :: "SCN \<Rightarrow> int" where
  "get_val_for_tx s =
     (if SCN_VERSION = ver s
      then if OB_MAX_SCN_TS_NS \<noteq> ts_ns s then uint (ts_ns s) else INT64_MAX
      else - 1)"

definition transform_max :: "SCN \<Rightarrow> SCN" where
  "transform_max s = (if word_of_int INT64_MAX = scn_val s then set_max s else s)"

subsection \<open>Serialization\<close>

definition scn_fixed_serialize :: "SCN \<Rightarrow> cbuf \<Rightarrow> int \<Rightarrow> int \<Rightarrow> enc_res" where
  "scn_fixed_serialize s buf buf_len pos =
     (if buf = None \<or> buf_len \<le> 0 then (OB_INVALID_ARGUMENT, pos, buf)
      else case encode_i64 buf buf_len pos (scn_val s) of
             (r, new_pos, buf') \<Rightarrow> if r \<noteq> OB_SUCCESS then (r, pos, buf') else (r, new_pos, buf'))"

definition fixed_deserialize_without_transform :: "cbuf \<Rightarrow> int \<Rightarrow> int \<Rightarrow> SCN dec_res" where
  "fixed_deserialize_without_transform buf data_len pos =
     (if buf = None \<or> data_len \<le> 0 then (OB_INVALID_ARGUMENT, pos, None)
      else case decode_i64 buf data_len pos of
             (r, new_pos, v) \<Rightarrow>
               if r \<noteq> OB_SUCCESS then (r, pos, map_option SCN v) else (r, new_pos, map_option SCN v))"

definition scn_fixed_deserialize :: "cbuf \<Rightarrow> int \<Rightarrow> int \<Rightarrow> SCN dec_res" where
  "scn_fixed_deserialize buf data_len pos =
     (case fixed_deserialize_without_transform buf data_len pos of
        (r, new_pos, s) \<Rightarrow>
          if r \<noteq> OB_SUCCESS then (r, new_pos, s) else (r, new_pos, map_option transform_max s))"

definition get_fixed_serialize_size :: "SCN \<Rightarrow> int" where
  "get_fixed_serialize_size s = encoded_length_i64 (scn_val s)"

definition scn_serialize :: "SCN \<Rightarrow> cbuf \<Rightarrow> int \<Rightarrow> int \<Rightarrow> enc_res" where
  "scn_serialize s buf buf_len pos =
     (if buf = None \<or> buf_len \<le> 0 then (OB_INVALID_ARGUMENT, pos, buf)
      else case encode_vi64 buf buf_len pos (scn_val s) of
             (r, new_pos, buf') \<Rightarrow> if r \<noteq> OB_SUCCESS then (r, pos, buf') else (r, new_pos, buf'))"

text \<open>
  \<^verbatim>\<open>serialization::decode\<close> of a \<^verbatim>\<open>uint64_t\<close> clears the target before it decodes, so a failed
  \<^verbatim>\<open>deserialize\<close> leaves the SCN at 0.
\<close>

definition scn_deserialize :: "cbuf \<Rightarrow> int \<Rightarrow> int \<Rightarrow> SCN dec_res option" where
  "scn_deserialize buf data_len pos =
     (if buf = None \<or> data_len \<le> 0 then Some (OB_INVALID_ARGUMENT, pos, None)
      else case decode_vi64 buf data_len pos of
             None \<Rightarrow> None
           | Some (r, new_pos, v) \<Rightarrow>
               let s = (case v of None \<Rightarrow> SCN 0 | Some x \<Rightarrow> SCN x) in
               Some (if r \<noteq> OB_SUCCESS then (r, pos, Some s)
                     else (r, new_pos, Some (transform_max s))))"

definition scn_get_serialize_size :: "SCN \<Rightarrow> int" where
  "scn_get_serialize_size s = encoded_length_vi64 (scn_val s)"

subsection \<open>The order of SCNs\<close>

text \<open>
  All four operators compare one rank: an invalid SCN lies below every valid one, valid SCNs
  are ordered by their value.
\<close>

definition scn_rank :: "SCN \<Rightarrow> nat" where
  "scn_rank s = (if scn_is_valid s then Suc (unat (scn_val s)) else 0)"

lemma unat_MAX: "unat OB_MAX_SCN_TS_NS = 4611686018427387903"
  by (simp add: scn_consts)

lemma scn_valid_unat: "scn_is_valid s \<longleftrightarrow> unat (scn_val s) < 4611686018427387904"
  using drop_bit_0_iff [of 62 "scn_val s"]
  by (auto simp: scn_is_valid_def ver_def SCN_VERSION_def)

lemma scn_valid_le_MAX: "scn_is_valid s \<longleftrightarrow> scn_val s \<le> OB_MAX_SCN_TS_NS"
  by (simp add: scn_valid_unat word_le_nat_alt unat_MAX less_Suc_eq_le [symmetric])

lemma ts_ns_valid [simp]: "scn_is_valid s \<Longrightarrow> ts_ns s = scn_val s"
  using take_bit_small [of "scn_val s" 62] by (simp add: ts_ns_def scn_valid_unat)

lemma ver_0_iff: "ver s = SCN_VERSION \<longleftrightarrow> scn_is_valid s" "SCN_VERSION = ver s \<longleftrightarrow> scn_is_valid s"
  by (auto simp: scn_is_valid_def)

lemma scn_fields_small:
  "unat ts < 4611686018427387904 \<Longrightarrow> scn_fields SCN_VERSION ts = SCN ts"
  using take_bit_small [of ts 62] by (simp add: scn_fields_def SCN_VERSION_def)

lemma max_scn_eq: "max_scn = SCN OB_MAX_SCN_TS_NS"
  unfolding max_scn_def set_max_def by (rule scn_fields_small) (simp add: unat_MAX)

lemma min_scn_eq: "min_scn = SCN 0"
  unfolding min_scn_def set_min_def OB_MIN_SCN_TS_NS_def by (rule scn_fields_small) simp

lemma base_scn_eq: "base_scn = SCN 1"
  unfolding base_scn_def set_base_def OB_BASE_SCN_TS_NS_def by (rule scn_fields_small) simp

lemma invalid_scn_invalid [simp]: "\<not> scn_is_valid invalid_scn"
  by (simp add: scn_valid_unat invalid_scn_def OB_INVALID_SCN_VAL_def unsigned_minus_1_eq_mask mask_eq_exp_minus_1)

lemma scn_lt_rank: "scn_lt a b \<longleftrightarrow> scn_rank a < scn_rank b"
  by (simp add: scn_lt_def scn_rank_def word_less_nat_alt)

lemma scn_le_rank: "scn_le a b \<longleftrightarrow> scn_rank a \<le> scn_rank b"
  by (simp add: scn_le_def scn_rank_def word_le_nat_alt)

lemma scn_gt_rank: "scn_gt a b \<longleftrightarrow> scn_rank a > scn_rank b"
  by (simp add: scn_gt_def scn_rank_def word_less_nat_alt)

lemma scn_ge_rank: "scn_ge a b \<longleftrightarrow> scn_rank a \<ge> scn_rank b"
  by (simp add: scn_ge_def scn_rank_def word_le_nat_alt)

lemma scn_rank_valid_eq: "scn_is_valid a \<Longrightarrow> scn_rank a = scn_rank b \<longleftrightarrow> a = b"
  by (auto simp: scn_rank_def word_unat_eq_iff intro: SCN.expand)

lemma scn_rank_0: "\<not> scn_is_valid a \<Longrightarrow> scn_rank a = 0" "scn_is_valid a \<Longrightarrow> 0 < scn_rank a"
  by (simp_all add: scn_rank_def)

lemmas scn_order_rank = scn_lt_rank scn_le_rank scn_gt_rank scn_ge_rank

instantiation SCN :: preorder
begin

definition less_eq_SCN :: "SCN \<Rightarrow> SCN \<Rightarrow> bool" where "less_eq_SCN = scn_le"
definition less_SCN :: "SCN \<Rightarrow> SCN \<Rightarrow> bool" where "less_SCN = scn_lt"

instance
  by standard (auto simp: less_eq_SCN_def less_SCN_def scn_order_rank)

end

interpretation scn_up: cas_order scn_lt
  by unfold_locales (auto simp: scn_order_rank)

interpretation scn_down: cas_order scn_gt
  by unfold_locales (auto simp: scn_order_rank)

subsection \<open>Arithmetic and conversions\<close>

lemma scn_plus_valid:
  assumes "scn_is_valid s" "scn_val s \<le> OB_MAX_SCN_TS_NS" "d < OB_MAX_SCN_TS_NS"
  shows "unat (scn_val s + d) = unat (scn_val s) + unat d"
  using assms by (intro unat_add_lem [THEN iffD1]) (simp add: word_le_nat_alt word_less_nat_alt unat_MAX)

lemma scn_plus_eq:
  assumes "scn_is_valid s" "d < OB_MAX_SCN_TS_NS"
  shows "scn_plus s d =
    (if unat (scn_val s) + unat d < 4611686018427387904 then SCN (scn_val s + d) else invalid_scn)"
proof -
  have "unat (scn_val s + d) = unat (scn_val s) + unat d"
    using assms by (intro scn_plus_valid) (simp_all add: scn_valid_le_MAX)
  with assms show ?thesis
    by (auto simp: scn_plus_def Let_def word_less_nat_alt word_le_nat_alt unat_MAX not_le)
qed

lemma scn_minus_eq:
  assumes "scn_is_valid s" "d < OB_MAX_SCN_TS_NS"
  shows "scn_minus s d = (if d \<le> scn_val s then SCN (scn_val s - d) else invalid_scn)"
  using assms by (auto simp: scn_minus_def)

lemma scn_inc_plus: "scn_is_valid s \<Longrightarrow> scn_inc s = scn_plus s 1"
  by (auto simp: scn_inc_def scn_plus_def invalid_scn_def Let_def scn_consts scn_valid_unat
      word_le_nat_alt word_less_nat_alt unat_word_ariths)

text \<open>
  C25. SCN addition is exact: on a valid SCN and a delta below the maximum, \<^verbatim>\<open>plus\<close> gives the
  SCN whose value is the mathematical sum when that is at most the largest SCN and the invalid
  SCN otherwise (the 64-bit sum never wraps); when the sum is valid, it is never below the
  operand and \<^verbatim>\<open>minus\<close> takes it back.
\<close>

theorem scn_plus_exact:
  assumes "scn_is_valid s" "d < OB_MAX_SCN_TS_NS"
  shows "if unat (scn_val s) + unat d \<le> unat OB_MAX_SCN_TS_NS
    then scn_is_valid (scn_plus s d) \<and> unat (scn_val (scn_plus s d)) = unat (scn_val s) + unat d
      \<and> scn_ge (scn_plus s d) s \<and> scn_minus (scn_plus s d) d = s
    else scn_plus s d = invalid_scn"
proof (cases "unat (scn_val s) + unat d < 4611686018427387904")
  case True
  have sum: "unat (scn_val s + d) = unat (scn_val s) + unat d"
    using assms by (intro scn_plus_valid) (simp_all add: scn_valid_le_MAX)
  have eq: "scn_plus s d = SCN (scn_val s + d)" using assms True by (simp add: scn_plus_eq)
  moreover have v: "scn_is_valid (SCN (scn_val s + d))" using True by (simp add: scn_valid_unat sum)
  moreover have "scn_ge (SCN (scn_val s + d)) s"
    using v assms by (simp add: scn_ge_rank scn_rank_def sum)
  moreover have "scn_minus (SCN (scn_val s + d)) d = s"
    using v assms by (simp add: scn_minus_eq word_le_nat_alt sum)
  ultimately show ?thesis by (simp add: unat_MAX sum True less_Suc_eq_le [symmetric])
next
  case False
  with assms show ?thesis by (simp add: unat_MAX scn_plus_eq)
qed

theorem scn_plus_exact_witness:
  "scn_is_valid (SCN 100) \<and> scn_minus (scn_plus (SCN 100) 7) 7 = SCN 100"
  using scn_plus_exact [of "SCN 100" 7] by (simp add: scn_valid_unat scn_consts)

text \<open>
  C26. The comparison operators of SCN are one total preorder in which every invalid SCN lies
  strictly below every valid one: the four operators are each other's converses and
  complements, the order is total and transitive, and \<^verbatim>\<open>max\<close> and \<^verbatim>\<open>min\<close> are an upper and a
  lower bound that is one of the arguments.
\<close>

theorem scn_operators_total_preorder:
  "(scn_lt a b \<longleftrightarrow> scn_gt b a) \<and> (scn_le a b \<longleftrightarrow> scn_ge b a) \<and> (scn_le a b \<longleftrightarrow> \<not> scn_lt b a)
   \<and> (scn_le a b \<or> scn_le b a) \<and> (scn_le a b \<and> scn_le b c \<longrightarrow> scn_le a c)
   \<and> (\<not> scn_is_valid a \<and> scn_is_valid b \<longrightarrow> scn_lt a b)
   \<and> (scn_is_valid a \<and> scn_le a b \<and> scn_le b a \<longrightarrow> a = b)
   \<and> scn_le a (scn_max a b) \<and> scn_le b (scn_max a b) \<and> scn_max a b \<in> {a, b}
   \<and> scn_le (scn_min a b) a \<and> scn_le (scn_min a b) b \<and> scn_min a b \<in> {a, b}"
proof (intro conjI)
  show "scn_is_valid a \<and> scn_le a b \<and> scn_le b a \<longrightarrow> a = b"
    by (auto simp: scn_le_rank scn_rank_valid_eq dest: order_antisym)
qed (auto simp: scn_order_rank scn_max_def scn_min_def scn_rank_0)

theorem scn_operators_witness: "scn_lt invalid_scn (SCN 5) \<and> scn_le (SCN 5) (SCN 10)"
proof
  have v: "scn_is_valid (SCN 5)" and le: "scn_le (SCN 5) (SCN 9)" "scn_le (SCN 9) (SCN 10)" by code_simp+
  show "scn_lt invalid_scn (SCN 5)"
    using scn_operators_total_preorder [of invalid_scn "SCN 5" "SCN 9"] v invalid_scn_invalid by blast
  show "scn_le (SCN 5) (SCN 10)"
    using scn_operators_total_preorder [of "SCN 5" "SCN 9" "SCN 10"] le by blast
qed

lemma scn_valid_uint: "scn_is_valid s \<longleftrightarrow> uint (scn_val s) < 4611686018427387904"
  by (simp only: scn_valid_unat unat_less_numeral)

lemma uint_scn_small: "scn_is_valid s \<Longrightarrow> uint (scn_val s) < 4611686018427387904"
  by (simp add: scn_valid_uint)

text \<open>
  C27. The conversions used at the boundaries of the log service come back: a valid SCN passed
  out as the transaction layer's signed value (\<^verbatim>\<open>INT64_MAX\<close> stands for the largest SCN), as a
  global timestamp, or as the unsigned value of the log service, the inner tables and SQL, and
  converted in again, is the same SCN.
\<close>

theorem scn_conversions_roundtrip:
  assumes "scn_is_valid s"
  shows "convert_for_tx (get_val_for_tx s) t = (OB_SUCCESS, s)
   \<and> convert_for_gts (uint (scn_val s)) t = (OB_SUCCESS, s)
   \<and> convert_for_logservice (scn_val s) t = (OB_SUCCESS, s)
   \<and> convert_for_inner_table_field (scn_val s) t = (OB_SUCCESS, s)
   \<and> convert_for_sql (scn_val s) t = (OB_SUCCESS, s)"
proof -
  have le: "\<not> OB_MAX_SCN_TS_NS < scn_val s" using assms by (simp add: scn_valid_le_MAX not_less)
  have "uint (scn_val s) \<noteq> INT64_MAX" using uint_scn_small [OF assms] by (simp add: INT64_MAX_def)
  then have "convert_for_tx (get_val_for_tx s) t = (OB_SUCCESS, s)"
    using assms le by (cases s) (simp add: convert_for_tx_def get_val_for_tx_def ver_0_iff not_less)
  moreover have "convert_for_gts (uint (scn_val s)) t = (OB_SUCCESS, s)"
    using assms le by (cases s) (simp add: convert_for_gts_def scn_fields_small scn_valid_unat)
  ultimately show ?thesis
    using le by (simp add: convert_for_logservice_def convert_for_inner_table_field_def convert_for_sql_def)
qed

theorem scn_conversions_witness:
  "convert_for_tx (get_val_for_tx max_scn) (SCN 3) = (OB_SUCCESS, max_scn)"
proof -
  have "scn_is_valid max_scn" by (simp add: max_scn_eq scn_valid_unat unat_MAX)
  then show ?thesis using scn_conversions_roundtrip [of max_scn "SCN 3"] by blast
qed

text \<open>
  Microsecond timestamps survive the SCN: every timestamp up to the largest SCN divided by
  1000 converts to a valid SCN whose nanoseconds are exactly a thousand times it (no wrap in
  the 64-bit product) and \<^verbatim>\<open>convert_to_ts\<close> gives it back; every other one is rejected and the
  object keeps its value.
\<close>

theorem scn_timestamp_roundtrip:
  "(if unat ts \<le> unat OB_MAX_SCN_TS_NS div 1000
    then \<exists>s. convert_from_ts ts t = (OB_SUCCESS, s) \<and> scn_is_valid s
           \<and> unat (scn_val s) = 1000 * unat ts \<and> convert_to_ts s = uint ts
    else convert_from_ts ts t = (OB_INVALID_ARGUMENT, t))"
proof -
  have guard: "(OB_MAX_SCN_TS_NS div 1000 + 1 \<le> ts) = (4611686018427388 \<le> unat ts)"
    by (simp add: word_le_nat_alt scn_consts)
  show ?thesis
  proof (cases "unat ts \<le> unat OB_MAX_SCN_TS_NS div 1000")
    case True
    then have lt: "unat ts \<le> 4611686018427387" by (simp add: unat_MAX)
    then have prod: "unat (ts * 1000) = 1000 * unat ts" by (simp add: unat_word_ariths)
    let ?s = "SCN (ts * 1000)"
    have "scn_fields SCN_VERSION (ts * 1000) = ?s" using lt by (intro scn_fields_small) (simp add: prod)
    then have "convert_from_ts ts t = (OB_SUCCESS, ?s)"
      using lt by (simp add: convert_from_ts_def guard)
    moreover have v: "scn_is_valid ?s" using lt by (simp add: scn_valid_unat prod)
    moreover have "int (unat (ts * 1000)) = int (1000 * unat ts)" by (simp only: prod)
    then have "uint (ts * 1000) = 1000 * uint ts" by simp
    then have "convert_to_ts ?s = uint ts"
      using v by (simp add: convert_to_ts_def)
    ultimately show ?thesis using True prod by auto
  next
    case False
    then show ?thesis by (simp add: unat_MAX convert_from_ts_def guard Let_def)
  qed
qed

subsection \<open>Serialization\<close>

definition scn_wire_ok :: "SCN \<Rightarrow> bool" where
  "scn_wire_ok s \<longleftrightarrow> scn_val s \<noteq> word_of_int INT64_MAX"

lemma transform_max_ok [simp]: "scn_wire_ok s \<Longrightarrow> transform_max s = s"
  by (auto simp: transform_max_def scn_wire_ok_def)

lemma scn_valid_wire_ok: "scn_is_valid s \<Longrightarrow> scn_wire_ok s"
  by (auto simp: scn_wire_ok_def scn_valid_unat INT64_MAX_def)

lemma scn_fixed_serialize_exact [codec_intros]: "enc_exact (scn_fixed_serialize s) (be64 (scn_val s))"
proof (rule enc_exactI)
  fix b :: "byte list" and L p
  assume "L \<le> length b" "p + length (be64 (scn_val s)) \<le> L"
  then show "scn_fixed_serialize s (Some b) (int L) (int p) =
      (OB_SUCCESS, int (p + length (be64 (scn_val s))), Some (store b p (be64 (scn_val s))))"
    using enc_exactD [OF encode_i64_exact, of p "scn_val s" L b]
    by (simp add: scn_fixed_serialize_def)
next
  fix b :: "byte list" and L p
  assume "L \<le> length b" "L < p + length (be64 (scn_val s))"
  then show "fst (scn_fixed_serialize s (Some b) (int L) (int p)) \<noteq> OB_SUCCESS"
    using enc_exact_shortD [OF encode_i64_exact, of p "scn_val s" L b]
    by (auto simp: scn_fixed_serialize_def split: prod.splits)
qed

lemma scn_fixed_raw_exact:
  "dec_exact fixed_deserialize_without_transform (be64 (scn_val s)) s"
  unfolding dec_exact_def
  using dec_exactD [OF decode_i64_exact, of _ "scn_val s"]
  by (auto simp: fixed_deserialize_without_transform_def)

lemma scn_fixed_deserialize_exact [codec_intros]:
  "scn_wire_ok s \<Longrightarrow> dec_exact scn_fixed_deserialize (be64 (scn_val s)) s"
  using scn_fixed_raw_exact [of s] unfolding dec_exact_def
  by (auto simp: scn_fixed_deserialize_def)

interpretation scn_wire: wire_codec
  scn_fixed_serialize scn_fixed_deserialize "\<lambda>s. be64 (scn_val s)" 8 scn_wire_ok
  by unfold_locales (simp_all add: scn_fixed_serialize_exact scn_fixed_deserialize_exact)

text \<open>
  C28. Both serialized forms of a valid SCN come back: with the announced number of bytes of
  room, \<^verbatim>\<open>fixed_serialize\<close> and \<^verbatim>\<open>serialize\<close> succeed, advance the position by exactly
  \<^verbatim>\<open>get_fixed_serialize_size\<close> and \<^verbatim>\<open>get_serialize_size\<close>, and the matching deserializer
  started at the old position returns the same SCN and the same new position; the conversion
  of \<^verbatim>\<open>INT64_MAX\<close> on the way in touches no valid SCN.
\<close>

theorem scn_serialize_roundtrip:
  assumes "scn_is_valid s" "L \<le> length b"
    and "int p + get_fixed_serialize_size s \<le> int L" "int p + scn_get_serialize_size s \<le> int L"
  shows "(\<exists>b'. scn_fixed_serialize s (Some b) (int L) (int p)
               = (OB_SUCCESS, int p + get_fixed_serialize_size s, Some b')
             \<and> scn_fixed_deserialize (Some b') (int L) (int p)
               = (OB_SUCCESS, int p + get_fixed_serialize_size s, Some s))
       \<and> (\<exists>b'. scn_serialize s (Some b) (int L) (int p)
               = (OB_SUCCESS, int p + scn_get_serialize_size s, Some b')
             \<and> scn_deserialize (Some b') (int L) (int p)
               = Some (OB_SUCCESS, int p + scn_get_serialize_size s, Some s))"
proof
  have ok: "scn_wire_ok s" using assms(1) by (rule scn_valid_wire_ok)
  show "\<exists>b'. scn_fixed_serialize s (Some b) (int L) (int p)
               = (OB_SUCCESS, int p + get_fixed_serialize_size s, Some b')
             \<and> scn_fixed_deserialize (Some b') (int L) (int p)
               = (OB_SUCCESS, int p + get_fixed_serialize_size s, Some s)"
    using scn_wire.roundtrip [OF ok, of p L b] assms(2,3)
    by (auto simp: get_fixed_serialize_size_def encoded_length_i64_def)
  let ?bs = "vi_bytes (scn_val s)"
  have n: "scn_get_serialize_size s = int (length ?bs)"
    by (simp add: scn_get_serialize_size_def encoded_length_vi64_eq)
  have le: "p + length ?bs \<le> L" using assms(4) by (simp add: n)
  have "0 < length ?bs" by (simp add: vi_bytes_nonempty)
  then have L: "0 < L" using le by linarith
  have "scn_serialize s (Some b) (int L) (int p) = (OB_SUCCESS, int p + int (length ?bs), Some (store b p ?bs))"
    using enc_exactD [OF encode_vi64_exact le assms(2)] L by (simp add: scn_serialize_def)
  moreover have "decode_vi64 (Some (store b p ?bs)) (int L) (int p)
      = Some (OB_SUCCESS, int (p + length ?bs), Some (scn_val s))"
    unfolding decode_vi64_def
    using le assms(2) by (intro decode_vi_bytes vi64_shift) (simp_all add: load_store_same)
  ultimately show "\<exists>b'. scn_serialize s (Some b) (int L) (int p)
               = (OB_SUCCESS, int p + scn_get_serialize_size s, Some b')
             \<and> scn_deserialize (Some b') (int L) (int p)
               = Some (OB_SUCCESS, int p + scn_get_serialize_size s, Some s)"
    using L ok by (auto simp: n scn_deserialize_def)
qed

theorem scn_serialize_witness:
  "\<exists>b'. scn_serialize (SCN 300) (Some (replicate 16 0)) 16 2 = (OB_SUCCESS, 4, Some b')
      \<and> scn_deserialize (Some b') 16 2 = Some (OB_SUCCESS, 4, Some (SCN 300))"
proof -
  have n: "scn_get_serialize_size (SCN 300) = 2" by code_simp
  have f: "get_fixed_serialize_size (SCN 300) = 8" by code_simp
  have v: "scn_is_valid (SCN 300)" by code_simp
  show ?thesis using scn_serialize_roundtrip [OF v, of 16 "replicate 16 0" 2] by (simp add: n f)
qed

text \<open>
  C29. Concurrent maxima: whatever threads run \<^verbatim>\<open>inc_update\<close> interleaved on one SCN, it never
  decreases, and once a thread has returned it is at least that thread's argument; run alone,
  the call ends with the SCN at the larger of the two and returns it.
\<close>

theorem scn_inc_update_concurrent:
  assumes "cas_reach scn_lt refs s0 (s, pcs)"
  shows "scn_le s0 s \<and> (\<forall>i r. pcs i = Returned r \<longrightarrow> scn_ge s (refs i) \<and> scn_ge r (refs i) \<and> scn_le r s)
    \<and> scn_inc_update s x = (let m = if scn_lt s x then x else s in (m, Returned m))"
proof (intro conjI allI impI)
  note inv = scn_up.reach_inv [OF assms, simplified]
  show "scn_le s0 s" using inv by (auto simp: scn_order_rank)
  show "scn_ge s (refs i)" if "pcs i = Returned r" for i r
    using scn_up.returned_bound [OF assms that] by (simp add: scn_order_rank)
  show "scn_ge r (refs i)" if "pcs i = Returned r" for i r
  proof -
    have "\<not> scn_lt r (refs i)" using inv that by blast
    then show ?thesis by (simp add: scn_order_rank)
  qed
  show "scn_le r s" if "pcs i = Returned r" for i r
  proof -
    have "r = s \<or> scn_lt r s" using inv that by blast
    then show ?thesis by (auto simp: scn_order_rank)
  qed
  show "scn_inc_update s x = (let m = if scn_lt s x then x else s in (m, Returned m))"
    unfolding scn_inc_update_def by (rule scn_up.seq_update_eq)
qed

theorem scn_inc_update_witness:
  "\<exists>s pcs. cas_reach scn_lt (\<lambda>i. if i = 0 then SCN 7 else SCN 9) (SCN 3) (s, pcs)
     \<and> pcs 0 = Returned (SCN 9) \<and> scn_ge s (SCN 7)"
proof -
  let ?refs = "\<lambda>i::nat. if i = 0 then SCN 7 else SCN 9"
  define t where "t = cas_exec scn_lt ?refs [0, 1, 1, 0, 0] (SCN 3, \<lambda>_. Idle)"
  have r: "cas_reach scn_lt ?refs (SCN 3) (fst t, snd t)"
    unfolding t_def by (simp only: prod.collapse) (intro cas_exec_reach cas_reach.start)
  have lt: "scn_lt (SCN 3) (SCN 7)" "scn_lt (SCN 3) (SCN 9)" "\<not> scn_lt (SCN 9) (SCN 7)" "\<not> scn_lt (SCN 9) (SCN 9)"
    by code_simp+
  have p0: "snd t 0 = Returned (SCN 9)" by (simp add: t_def vcas_def lt)
  moreover have "scn_ge (fst t) (?refs 0)"
    using conjunct1 [OF conjunct2 [OF scn_inc_update_concurrent [OF r]]] p0 by blast
  ultimately show ?thesis using r by (intro exI [of _ "fst t"] exI [of _ "snd t"]) simp
qed

end
