(* ===== verification/Palf_Lsn.thy ===== *)
theory Palf_Lsn
  imports Ob_Codec Ob_Atomic
begin

section \<open>Log sequence numbers: \<^verbatim>\<open>share/log/palf/lsn.h\<close>, \<^verbatim>\<open>lsn.cpp\<close>, \<^verbatim>\<open>log_define.h\<close>\<close>

text \<open>
  An LSN is the byte offset of a log entry in the unbounded log, one 64-bit word; the all-ones
  word is the invalid LSN. The log is cut into blocks of \<^verbatim>\<open>PALF_BLOCK_SIZE\<close> bytes.
  Modelled are the class, its operators (which wrap, as \<^verbatim>\<open>uint64_t\<close> does), its serialized form
  and the constants of \<^verbatim>\<open>log_define.h\<close> that the log components use. The operators
  \<^verbatim>\<open><\<close> and \<^verbatim>\<open><=\<close> are the instance of \<open>linorder\<close>.
\<close>

datatype LSN = LSN (lsn_val: "64 word")

definition LOG_INVALID_LSN_VAL :: "64 word" where "LOG_INVALID_LSN_VAL = - 1"
definition LOG_MAX_LSN_VAL :: "64 word" where "LOG_MAX_LSN_VAL = LOG_INVALID_LSN_VAL - 1"
definition PALF_INITIAL_LSN_VAL :: "64 word" where "PALF_INITIAL_LSN_VAL = 0"

definition MAX_LOG_HEADER_SIZE :: int where "MAX_LOG_HEADER_SIZE = 4 * 1024"
definition MAX_INFO_BLOCK_SIZE :: int where "MAX_INFO_BLOCK_SIZE = 4 * 1024"
definition MAX_LOG_BODY_SIZE :: int where "MAX_LOG_BODY_SIZE = 3 * 1024 * 1024 + 512 * 1024"
definition PALF_PHY_BLOCK_SIZE :: int where "PALF_PHY_BLOCK_SIZE = 2 ^ 26"
definition PALF_BLOCK_SIZE :: int where "PALF_BLOCK_SIZE = PALF_PHY_BLOCK_SIZE - MAX_INFO_BLOCK_SIZE"
definition CLOG_FILE_TAIL_PADDING_TRIGGER :: int where "CLOG_FILE_TAIL_PADDING_TRIGGER = 4096"
definition MAX_LOG_BUFFER_SIZE :: int where
  "MAX_LOG_BUFFER_SIZE = MAX_LOG_BODY_SIZE + MAX_LOG_HEADER_SIZE + CLOG_FILE_TAIL_PADDING_TRIGGER"
definition PALF_SLIDING_WINDOW_SIZE :: int where "PALF_SLIDING_WINDOW_SIZE = 2 ^ 11"
definition FIRST_VALID_LOG_ID :: int where "FIRST_VALID_LOG_ID = 1"
definition OB_INVALID_LOG_ID :: int where "OB_INVALID_LOG_ID = - 1"

lemmas palf_consts = MAX_LOG_HEADER_SIZE_def MAX_INFO_BLOCK_SIZE_def MAX_LOG_BODY_SIZE_def
  PALF_PHY_BLOCK_SIZE_def PALF_BLOCK_SIZE_def CLOG_FILE_TAIL_PADDING_TRIGGER_def
  MAX_LOG_BUFFER_SIZE_def PALF_SLIDING_WINDOW_SIZE_def FIRST_VALID_LOG_ID_def OB_INVALID_LOG_ID_def

definition is_valid_log_id :: "int \<Rightarrow> bool" where "is_valid_log_id log_id \<longleftrightarrow> log_id > 0"

definition LOG_MAX_BLOCK_ID :: int where "LOG_MAX_BLOCK_ID = (2 ^ 64 - 1) div PALF_BLOCK_SIZE - 1"
definition LOG_INVALID_BLOCK_ID :: int where "LOG_INVALID_BLOCK_ID = LOG_MAX_BLOCK_ID + 1"

definition is_valid_block_id :: "int \<Rightarrow> bool" where
  "is_valid_block_id block_id \<longleftrightarrow> block_id \<ge> 0 \<and> block_id < LOG_MAX_BLOCK_ID"

subsection \<open>The class\<close>

definition lsn_reset :: LSN where "lsn_reset = LSN LOG_INVALID_LSN_VAL"

definition lsn_is_valid :: "LSN \<Rightarrow> bool" where
  "lsn_is_valid l \<longleftrightarrow> LOG_INVALID_LSN_VAL \<noteq> lsn_val l"

definition lsn_lt :: "LSN \<Rightarrow> LSN \<Rightarrow> bool" where "lsn_lt a b \<longleftrightarrow> lsn_val a < lsn_val b"
definition lsn_gt :: "LSN \<Rightarrow> LSN \<Rightarrow> bool" where "lsn_gt a b \<longleftrightarrow> lsn_lt b a"
definition lsn_ge :: "LSN \<Rightarrow> LSN \<Rightarrow> bool" where "lsn_ge a b \<longleftrightarrow> lsn_lt b a \<or> b = a"
definition lsn_le :: "LSN \<Rightarrow> LSN \<Rightarrow> bool" where "lsn_le a b \<longleftrightarrow> lsn_gt b a \<or> b = a"

definition lsn_plus :: "LSN \<Rightarrow> 64 word \<Rightarrow> LSN" where "lsn_plus l len = LSN (lsn_val l + len)"
definition lsn_minus :: "LSN \<Rightarrow> 64 word \<Rightarrow> LSN" where "lsn_minus l len = LSN (lsn_val l - len)"
definition lsn_diff :: "LSN \<Rightarrow> LSN \<Rightarrow> 64 word" where "lsn_diff l r = lsn_val l - lsn_val r"

definition lsn_2_block :: "LSN \<Rightarrow> 64 word \<Rightarrow> 64 word" where
  "lsn_2_block l block_size = lsn_val l div block_size"

definition lsn_2_offset :: "LSN \<Rightarrow> 64 word \<Rightarrow> 64 word" where
  "lsn_2_offset l block_size = lsn_val l mod block_size"

instantiation LSN :: linorder
begin

definition less_LSN :: "LSN \<Rightarrow> LSN \<Rightarrow> bool" where "less_LSN = lsn_lt"
definition less_eq_LSN :: "LSN \<Rightarrow> LSN \<Rightarrow> bool" where "less_eq_LSN = lsn_le"

instance
  by standard (auto simp: less_LSN_def less_eq_LSN_def lsn_lt_def lsn_le_def lsn_gt_def LSN.expand
      intro: LSN.expand)

end

lemma lsn_less_iff: "a < b \<longleftrightarrow> lsn_val a < lsn_val b"
  by (simp add: less_LSN_def lsn_lt_def)

lemma lsn_less_eq_iff: "a \<le> b \<longleftrightarrow> lsn_val a \<le> lsn_val b"
  by (auto simp: less_eq_LSN_def lsn_le_def lsn_gt_def lsn_lt_def intro: LSN.expand)

lemma lsn_ops [simp]: "lsn_lt a b \<longleftrightarrow> a < b" "lsn_gt a b \<longleftrightarrow> b < a" "lsn_ge a b \<longleftrightarrow> b \<le> a" "lsn_le a b \<longleftrightarrow> a \<le> b"
  by (auto simp: less_LSN_def less_eq_LSN_def lsn_ge_def lsn_le_def lsn_gt_def)

interpretation lsn_up: cas_order "(<) :: LSN \<Rightarrow> LSN \<Rightarrow> bool"
  by unfold_locales auto

subsection \<open>Serialization\<close>

definition lsn_serialize :: "LSN \<Rightarrow> cbuf \<Rightarrow> int \<Rightarrow> int \<Rightarrow> enc_res" where
  "lsn_serialize l buf buf_len pos =
     (if buf = None \<and> buf_len \<le> 0 then (OB_INVALID_ARGUMENT, pos, buf)
      else case encode_i64 buf buf_len pos (lsn_val l) of
             (r, new_pos, buf') \<Rightarrow>
               if r \<noteq> OB_SUCCESS then (OB_BUF_NOT_ENOUGH, pos, buf') else (r, new_pos, buf'))"

definition lsn_deserialize :: "cbuf \<Rightarrow> int \<Rightarrow> int \<Rightarrow> LSN dec_res" where
  "lsn_deserialize buf data_len pos =
     (if buf = None \<and> data_len \<le> 0 then (OB_INVALID_ARGUMENT, pos, None)
      else case decode_i64 buf data_len pos of
             (r, new_pos, v) \<Rightarrow>
               if r \<noteq> OB_SUCCESS then (OB_BUF_NOT_ENOUGH, pos, map_option LSN v)
               else (r, new_pos, map_option LSN v))"

definition lsn_get_serialize_size :: "LSN \<Rightarrow> int" where
  "lsn_get_serialize_size l = encoded_length_i64 (lsn_val l)"

lemma lsn_serialize_exact [codec_intros]: "enc_exact (lsn_serialize l) (be64 (lsn_val l))"
proof (rule enc_exactI)
  fix b :: "byte list" and L p
  assume "L \<le> length b" "p + length (be64 (lsn_val l)) \<le> L"
  then show "lsn_serialize l (Some b) (int L) (int p) =
      (OB_SUCCESS, int (p + length (be64 (lsn_val l))), Some (store b p (be64 (lsn_val l))))"
    using enc_exactD [OF encode_i64_exact, of p "lsn_val l" L b] by (simp add: lsn_serialize_def)
next
  fix b :: "byte list" and L p
  assume "L \<le> length b" "L < p + length (be64 (lsn_val l))"
  then show "fst (lsn_serialize l (Some b) (int L) (int p)) \<noteq> OB_SUCCESS"
    using enc_exact_shortD [OF encode_i64_exact, of p "lsn_val l" L b]
    by (auto simp: lsn_serialize_def split: prod.splits)
qed

lemma lsn_deserialize_exact [codec_intros]: "dec_exact lsn_deserialize (be64 (lsn_val l)) l"
  unfolding dec_exact_def
  using dec_exactD [OF decode_i64_exact, of _ "lsn_val l"]
  by (auto simp: lsn_deserialize_def)

interpretation lsn_wire: wire_codec lsn_serialize lsn_deserialize "\<lambda>l. be64 (lsn_val l)" 8 "\<lambda>_. True"
  by unfold_locales (simp_all add: lsn_serialize_exact lsn_deserialize_exact)

end
