(* ===== verification/Palf_Allocator.thy ===== *)
theory Palf_Allocator
  imports Palf_Scn Palf_Lsn
begin

section \<open>The LSN allocator: \<^verbatim>\<open>logservice/palf/lsn_allocator.h\<close>, \<^verbatim>\<open>lsn_allocator.cpp\<close>\<close>

text \<open>
  The allocator hands every submitted log entry its LSN, log id and SCN. Its hot state is one
  128-bit word of bit fields (\<open>LSNTsMeta\<close>) that holds deltas against two bases; the fields
  keep their widths, so an assignment truncates. Modelled is the whole class. A successful
  128-bit compare-and-swap is one atomic step, so a history of calls is a sequence of such steps. Block arithmetic on 64-bit locals is on \<open>int\<close> and
  stored back with \<open>word_of_int\<close>; SCN arithmetic wraps as in the code. The padding, cut and
  aggregation rules of \<^verbatim>\<open>alloc_lsn_scn\<close> are the functions \<open>alloc_place\<close> and \<open>alloc_fit\<close>.
\<close>

record LSNTsMeta =
  is_need_cut :: bool
  log_id_delta :: "28 word"
  scn_delta :: "35 word"
  meta_lsn_val :: "64 word"

record LSNAllocator =
  lsn_ts_meta :: LSNTsMeta
  log_id_base :: int
  scn_base :: "64 word"
  is_inited :: bool

definition LOG_ID_DELTA_UPPER_BOUND :: int where "LOG_ID_DELTA_UPPER_BOUND = 2 ^ 28 - 1000"
definition LOG_TS_DELTA_UPPER_BOUND :: "64 word" where "LOG_TS_DELTA_UPPER_BOUND = 2 ^ 35 - 1000"
definition LOG_CUT_TRIGGER :: int where "LOG_CUT_TRIGGER = 2 ^ 21"
definition LOG_CUT_TRIGGER_MASK :: int where "LOG_CUT_TRIGGER_MASK = 2 ^ 21 - 1"

text \<open>\<^verbatim>\<open>sizeof(LogGroupEntryHeader)\<close>.\<close>

definition GROUP_HEADER_SER_SIZE :: int where "GROUP_HEADER_SER_SIZE = 2 + 2 + 4 + 8 + 8 + 8 + 8 + 8"

lemmas alloc_consts = LOG_ID_DELTA_UPPER_BOUND_def LOG_TS_DELTA_UPPER_BOUND_def LOG_CUT_TRIGGER_def
  LOG_CUT_TRIGGER_MASK_def GROUP_HEADER_SER_SIZE_def

definition get_log_block_size :: "64 word \<Rightarrow> ob_ret \<times> int" where
  "get_log_block_size block_id = (OB_SUCCESS, PALF_BLOCK_SIZE)"

definition alloc_reset :: LSNAllocator where
  "alloc_reset = \<lparr> lsn_ts_meta = \<lparr> is_need_cut = True, log_id_delta = 0, scn_delta = 0, meta_lsn_val = 0 \<rparr>,
     log_id_base = OB_INVALID_LOG_ID, scn_base = 0, is_inited = False \<rparr>"

definition alloc_init :: "int \<Rightarrow> SCN \<Rightarrow> LSN \<Rightarrow> LSNAllocator \<Rightarrow> ob_ret \<times> LSNAllocator" where
  "alloc_init log_id scn start_lsn a =
     (if is_inited a then (OB_INIT_TWICE, a)
      else if OB_INVALID_LOG_ID = log_id \<or> \<not> scn_is_valid scn \<or> \<not> lsn_is_valid start_lsn
      then (OB_INVALID_ARGUMENT, a)
      else (OB_SUCCESS, a \<lparr> log_id_base := log_id, scn_base := scn_val scn,
              lsn_ts_meta := \<lparr> is_need_cut = True, log_id_delta = 0, scn_delta = 0,
                               meta_lsn_val = lsn_val start_lsn \<rparr>,
              is_inited := True \<rparr>))"

definition alloc_truncate :: "LSN \<Rightarrow> int \<Rightarrow> SCN \<Rightarrow> LSNAllocator \<Rightarrow> ob_ret \<times> LSNAllocator" where
  "alloc_truncate lsn log_id scn a =
     (if \<not> is_inited a then (OB_NOT_INIT, a)
      else if \<not> lsn_is_valid lsn \<or> OB_INVALID_LOG_ID = log_id \<or> \<not> scn_is_valid scn
      then (OB_INVALID_ARGUMENT, a)
      else (OB_SUCCESS, a \<lparr> lsn_ts_meta := \<lparr> is_need_cut = True, log_id_delta = 0, scn_delta = 0,
                                            meta_lsn_val = lsn_val lsn \<rparr>,
              log_id_base := log_id, scn_base := scn_val scn \<rparr>))"

definition cur_log_id :: "LSNAllocator \<Rightarrow> int" where
  "cur_log_id a = log_id_base a + uint (log_id_delta (lsn_ts_meta a))"

definition cur_scn :: "LSNAllocator \<Rightarrow> 64 word" where
  "cur_scn a = scn_base a + ucast (scn_delta (lsn_ts_meta a))"

definition inc_update_last_log_info :: "LSN \<Rightarrow> int \<Rightarrow> SCN \<Rightarrow> LSNAllocator \<Rightarrow> ob_ret \<times> LSNAllocator" where
  "inc_update_last_log_info lsn log_id scn a =
     (if \<not> is_inited a then (OB_NOT_INIT, a)
      else if \<not> lsn_is_valid lsn \<or> \<not> scn_is_valid scn \<or> OB_INVALID_LOG_ID = log_id
      then (OB_INVALID_ARGUMENT, a)
      else if log_id < cur_log_id a \<or> lsn_val lsn < meta_lsn_val (lsn_ts_meta a)
      then (OB_SUCCESS, a)
      else if log_id - log_id_base a \<ge> LOG_ID_DELTA_UPPER_BOUND
            \<or> scn_val scn - scn_base a \<ge> LOG_TS_DELTA_UPPER_BOUND
      then (OB_SUCCESS, a \<lparr> lsn_ts_meta := \<lparr> is_need_cut = True, log_id_delta = 0, scn_delta = 0,
                                            meta_lsn_val = lsn_val lsn \<rparr>,
              log_id_base := log_id, scn_base := scn_val scn \<rparr>)
      else (OB_SUCCESS, a \<lparr> lsn_ts_meta := \<lparr> is_need_cut = True,
              log_id_delta = word_of_int (log_id - log_id_base a),
              scn_delta = ucast (scn_val scn - scn_base a), meta_lsn_val = lsn_val lsn \<rparr> \<rparr>))"

definition inc_update_scn_base :: "SCN \<Rightarrow> LSNAllocator \<Rightarrow> ob_ret \<times> LSNAllocator" where
  "inc_update_scn_base ref_scn a =
     (if \<not> is_inited a then (OB_NOT_INIT, a)
      else if \<not> scn_is_valid ref_scn then (OB_INVALID_ARGUMENT, a)
      else if cur_scn a > scn_val ref_scn then (OB_SUCCESS, a)
      else (OB_SUCCESS, a \<lparr> lsn_ts_meta := (lsn_ts_meta a) \<lparr> scn_delta := 0, is_need_cut := True \<rparr>,
                            scn_base := scn_val ref_scn \<rparr>))"

definition get_max_log_id :: "LSNAllocator \<Rightarrow> int" where
  "get_max_log_id a = (if \<not> is_inited a then OB_INVALID_LOG_ID else cur_log_id a)"

definition get_max_scn :: "LSNAllocator \<Rightarrow> SCN" where
  "get_max_scn a =
     (if \<not> is_inited a then invalid_scn else snd (convert_for_logservice (cur_scn a) invalid_scn))"

definition get_curr_end_lsn :: "LSNAllocator \<Rightarrow> LSN \<Rightarrow> ob_ret \<times> LSN" where
  "get_curr_end_lsn a out =
     (if \<not> is_inited a then (OB_NOT_INIT, out) else (OB_SUCCESS, LSN (meta_lsn_val (lsn_ts_meta a))))"

definition try_freeze_by_time ::
  "LSN \<Rightarrow> int \<Rightarrow> LSNAllocator \<Rightarrow> ob_ret \<times> LSN \<times> int \<times> LSNAllocator" where
  "try_freeze_by_time last_lsn last_log_id a =
     (if \<not> is_inited a then (OB_NOT_INIT, last_lsn, last_log_id, a)
      else let last = lsn_ts_meta a in
        if is_need_cut last
        then (OB_STATE_NOT_MATCH, LSN (meta_lsn_val last), cur_log_id a, a)
        else (OB_SUCCESS, LSN (meta_lsn_val last), cur_log_id a,
              a \<lparr> lsn_ts_meta := last \<lparr> is_need_cut := True \<rparr> \<rparr>))"

definition try_freeze :: "LSN \<Rightarrow> int \<Rightarrow> LSNAllocator \<Rightarrow> ob_ret \<times> LSN \<times> int \<times> LSNAllocator" where
  "try_freeze last_lsn last_log_id a =
     (if \<not> is_inited a then (OB_NOT_INIT, last_lsn, last_log_id, a)
      else let last = lsn_ts_meta a in
        if is_need_cut last
        then (OB_SUCCESS, LSN (meta_lsn_val last), cur_log_id a, a)
        else (OB_SUCCESS, LSN (meta_lsn_val last), cur_log_id a,
              a \<lparr> lsn_ts_meta := last \<lparr> is_need_cut := True \<rparr> \<rparr>))"

subsection \<open>\<^verbatim>\<open>alloc_lsn_scn\<close>\<close>

text \<open>The out parameters; a call writes some of them, the others keep the caller's values.\<close>

record alloc_out =
  out_lsn :: LSN
  out_log_id :: int
  out_scn :: SCN
  is_new_group_log :: bool
  need_gen_padding_entry :: bool
  padding_len :: int

text \<open>The base update under the write lock (the compare-and-swap cannot fail there).\<close>

definition alloc_update_base :: "SCN \<Rightarrow> LSNAllocator \<Rightarrow> LSNAllocator" where
  "alloc_update_base base a =
     a \<lparr> log_id_base := cur_log_id a, scn_base := max (scn_val base) (cur_scn a),
        lsn_ts_meta := \<lparr> is_need_cut = is_need_cut (lsn_ts_meta a), log_id_delta = 0, scn_delta = 0,
                         meta_lsn_val = meta_lsn_val (lsn_ts_meta a) \<rparr> \<rparr>"

definition tmp_next_scn :: "SCN \<Rightarrow> LSNAllocator \<Rightarrow> 64 word" where
  "tmp_next_scn base a = max (scn_val base) (cur_scn a + 1)"

definition alloc_need_update_base :: "SCN \<Rightarrow> LSNAllocator \<Rightarrow> bool" where
  "alloc_need_update_base base a \<longleftrightarrow>
     (tmp_next_scn base a + 1) - scn_base a \<ge> LOG_TS_DELTA_UPPER_BOUND
     \<or> uint (log_id_delta (lsn_ts_meta a)) + 2 \<ge> LOG_ID_DELTA_UPPER_BOUND"

text \<open>
  Where the entry goes if the block were unbounded: the code, whether it starts a new group
  log, the offset behind it, and whether the next one must be cut. In the branch the code calls
  unexpected the offset keeps its initial 0.
\<close>

definition alloc_place :: "bool \<Rightarrow> int \<Rightarrow> int \<Rightarrow> ob_ret \<times> bool \<times> int \<times> bool" where
  "alloc_place need_cut last_block_offset sz =
     (let new_group_log_size = sz + GROUP_HEADER_SER_SIZE;
          in_cut = last_block_offset AND LOG_CUT_TRIGGER_MASK
      in if need_cut
         then (OB_SUCCESS, True, last_block_offset + new_group_log_size,
               in_cut + new_group_log_size \<ge> LOG_CUT_TRIGGER)
         else if last_block_offset > 0 \<and> in_cut = 0
         then (OB_ERR_UNEXPECTED, False, 0, False)
         else if last_block_offset > 0 \<and> in_cut + sz > LOG_CUT_TRIGGER
         then (OB_SUCCESS, True, last_block_offset + new_group_log_size,
               in_cut + new_group_log_size \<ge> LOG_CUT_TRIGGER)
         else (OB_SUCCESS, False, last_block_offset + sz, in_cut + sz \<ge> LOG_CUT_TRIGGER))"

text \<open>
  The end of the block: whether the entry is a new group log, the length of the padding entry
  before it (0: none), the blocks advanced, the offset behind the entry and the cut flag.
\<close>

definition alloc_fit :: "int \<Rightarrow> int \<Rightarrow> bool \<Rightarrow> int \<Rightarrow> bool \<Rightarrow> bool \<times> bool \<times> int \<times> int \<times> int \<times> bool" where
  "alloc_fit last_block_offset sz is_new tmp_next_block_offset is_next_need_cut =
     (let new_group_log_size = sz + GROUP_HEADER_SER_SIZE;
          pad = (True, True, PALF_BLOCK_SIZE - last_block_offset, 1, new_group_log_size,
                 new_group_log_size \<ge> LOG_CUT_TRIGGER)
      in if tmp_next_block_offset < PALF_BLOCK_SIZE
         then if PALF_BLOCK_SIZE - tmp_next_block_offset < CLOG_FILE_TAIL_PADDING_TRIGGER
              then pad
              else (is_new, False, 0, 0, tmp_next_block_offset, is_next_need_cut)
         else if tmp_next_block_offset = PALF_BLOCK_SIZE
         then (is_new, False, 0, 1, 0, True)
         else pad)"

text \<open>
  One iteration of the inner loop once the bases suffice. The conversion of the SCN assigns the
  return code again, so its code is the one returned; a value rejected by it leaves the caller's
  SCN, with the allocation already installed.
\<close>

definition alloc_try ::
  "SCN \<Rightarrow> int \<Rightarrow> int \<Rightarrow> LSN \<Rightarrow> LSNAllocator \<Rightarrow> alloc_out \<Rightarrow> ob_ret \<times> alloc_out \<times> LSNAllocator" where
  "alloc_try base sz log_id_upper_bound lsn_upper_bound a out =
     (let last = lsn_ts_meta a;
          last_log_id = cur_log_id a;
          block_id = uint (lsn_2_block (LSN (meta_lsn_val last)) (word_of_int PALF_BLOCK_SIZE));
          last_block_offset = uint (lsn_2_offset (LSN (meta_lsn_val last)) (word_of_int PALF_BLOCK_SIZE));
          tmp_next_scn_delta = tmp_next_scn base a - scn_base a
      in case alloc_place (is_need_cut last) last_block_offset sz of
           (ret, is_new0, offset0, cut0) \<Rightarrow>
         case alloc_fit last_block_offset sz is_new0 offset0 cut0 of
           (is_new, padding, pad_len, blocks, offset, next_cut) \<Rightarrow>
         let next = \<lparr> is_need_cut = next_cut,
               log_id_delta = word_of_int (uint (log_id_delta last) + of_bool is_new + of_bool padding),
               scn_delta = ucast (tmp_next_scn_delta + of_bool padding),
               meta_lsn_val = word_of_int ((block_id + blocks) * PALF_BLOCK_SIZE + offset) \<rparr>;
             out' = out \<lparr> is_new_group_log := is_new, need_gen_padding_entry := padding,
                         padding_len := pad_len \<rparr>;
             new_log_id = (if is_new then last_log_id + 1 else last_log_id) + of_bool padding
         in if new_log_id > log_id_upper_bound \<or> lsn_gt (LSN (meta_lsn_val next)) lsn_upper_bound
            then (OB_EAGAIN, out', a)
            else case convert_for_logservice (scn_base a + tmp_next_scn_delta) (out_scn out) of
                   (r, scn) \<Rightarrow>
                     (r, out' \<lparr> out_lsn := LSN (meta_lsn_val last),
                                out_log_id := (if is_new then last_log_id + 1 else last_log_id),
                                out_scn := scn \<rparr>,
                      a \<lparr> lsn_ts_meta := next \<rparr>))"

text \<open>
  The outer loop: as long as an iteration asks for it, the bases are updated and the iteration
  is repeated. Nothing in the code bounds the repetitions; \<open>None\<close> is not returning.
\<close>

partial_function (option) alloc_loop ::
  "SCN \<Rightarrow> int \<Rightarrow> int \<Rightarrow> LSN \<Rightarrow> LSNAllocator \<Rightarrow> alloc_out \<Rightarrow> (ob_ret \<times> alloc_out \<times> LSNAllocator) option"
where
  "alloc_loop base sz log_id_upper_bound lsn_upper_bound a out =
     (if alloc_need_update_base base a
      then alloc_loop base sz log_id_upper_bound lsn_upper_bound (alloc_update_base base a)
             (out \<lparr> is_new_group_log := False, need_gen_padding_entry := False, padding_len := 0 \<rparr>)
      else Some (alloc_try base sz log_id_upper_bound lsn_upper_bound a out))"

declare alloc_loop.simps [code]

definition alloc_lsn_scn ::
  "SCN \<Rightarrow> int \<Rightarrow> int \<Rightarrow> LSN \<Rightarrow> LSNAllocator \<Rightarrow> alloc_out \<Rightarrow> (ob_ret \<times> alloc_out \<times> LSNAllocator) option"
where
  "alloc_lsn_scn base sz log_id_upper_bound lsn_upper_bound a out =
     (if \<not> is_inited a then Some (OB_NOT_INIT, out, a)
      else if sz \<le> 0 \<or> \<not> scn_is_valid base \<or> log_id_upper_bound \<le> 0 \<or> \<not> lsn_is_valid lsn_upper_bound
      then Some (OB_INVALID_ARGUMENT, out, a)
      else alloc_loop base sz log_id_upper_bound lsn_upper_bound a out)"

subsection \<open>Placement inside a block\<close>

definition end_off :: "LSNAllocator \<Rightarrow> int" where
  "end_off a = uint (meta_lsn_val (lsn_ts_meta a))"

lemma in_cut_mod: "x AND LOG_CUT_TRIGGER_MASK = x mod LOG_CUT_TRIGGER"
  using take_bit_eq_mask [of 21 x]
  by (simp add: LOG_CUT_TRIGGER_MASK_def LOG_CUT_TRIGGER_def take_bit_eq_mod mask_eq_exp_minus_1)

lemma cut_mod_pos:
  fixes x y T :: int
  assumes "0 < y" "x mod T + y < T" "0 < T"
  shows "(x + y) mod T \<noteq> 0"
proof -
  have "0 \<le> x mod T" using assms(3) by simp
  then have "(x mod T + y) mod T = x mod T + y" using assms by (intro mod_pos_pos_trivial) auto
  then have "(x + y) mod T = x mod T + y" by (simp add: mod_add_left_eq)
  with assms \<open>0 \<le> x mod T\<close> show ?thesis by linarith
qed

text \<open>An offset the allocator leaves behind: at least 4KB from the end of the block, and off the
  cut boundary unless the next entry will be cut anyway.\<close>

definition tail_ok :: "bool \<Rightarrow> int \<Rightarrow> bool" where
  "tail_ok need_cut off \<longleftrightarrow>
     0 \<le> off \<and> off + CLOG_FILE_TAIL_PADDING_TRIGGER \<le> PALF_BLOCK_SIZE
     \<and> (need_cut \<or> off mod LOG_CUT_TRIGGER \<noteq> 0)"

definition size_ok :: "int \<Rightarrow> bool" where
  "size_ok sz \<longleftrightarrow> 0 < sz \<and> sz + GROUP_HEADER_SER_SIZE + CLOG_FILE_TAIL_PADDING_TRIGGER \<le> PALF_BLOCK_SIZE"

lemma alloc_place_spec:
  assumes "tail_ok need_cut off" "size_ok sz" "alloc_place need_cut off sz = (r, n, o', c)"
  shows "r = OB_SUCCESS" "o' = off + (if n then GROUP_HEADER_SER_SIZE else 0) + sz"
    "need_cut \<Longrightarrow> n" "\<not> n \<Longrightarrow> off mod LOG_CUT_TRIGGER + sz \<le> LOG_CUT_TRIGGER"
    "c \<or> o' mod LOG_CUT_TRIGGER \<noteq> 0"
proof -
  have T: "0 < LOG_CUT_TRIGGER" "0 < GROUP_HEADER_SER_SIZE" by (simp_all add: alloc_consts)
  have sz: "0 < sz" "0 \<le> off" using assms by (auto simp: size_ok_def tail_ok_def)
  have nz: "need_cut \<or> off mod LOG_CUT_TRIGGER \<noteq> 0 \<and> 0 < off"
    using assms(1) by (cases "off = 0") (auto simp: tail_ok_def)
  show "r = OB_SUCCESS" "o' = off + (if n then GROUP_HEADER_SER_SIZE else 0) + sz"
    "need_cut \<Longrightarrow> n" "\<not> n \<Longrightarrow> off mod LOG_CUT_TRIGGER + sz \<le> LOG_CUT_TRIGGER"
    using assms(3) nz by (auto simp: alloc_place_def Let_def in_cut_mod split: if_splits)
  show "c \<or> o' mod LOG_CUT_TRIGGER \<noteq> 0"
    using assms(3) nz cut_mod_pos [of sz off LOG_CUT_TRIGGER]
      cut_mod_pos [of "sz + GROUP_HEADER_SER_SIZE" off LOG_CUT_TRIGGER] sz T
    by (auto simp: alloc_place_def Let_def in_cut_mod not_le split: if_splits)
qed

lemma alloc_fit_spec:
  assumes "tail_ok need_cut off" "size_ok sz" "alloc_place need_cut off sz = (r, n0, o0, c0)"
    and fit: "alloc_fit off sz n0 o0 c0 = (n, p, pl, k, o', c)"
  shows "k * PALF_BLOCK_SIZE + o' = off + pl + (if n then GROUP_HEADER_SER_SIZE else 0) + sz"
    and "tail_ok c o'" and "k = 0 \<or> k = 1" and "need_cut \<Longrightarrow> n"
    and "\<not> n \<Longrightarrow> off mod LOG_CUT_TRIGGER + sz \<le> LOG_CUT_TRIGGER"
    and "if p then n \<and> k = 1 \<and> off + pl = PALF_BLOCK_SIZE
                 \<and> CLOG_FILE_TAIL_PADDING_TRIGGER \<le> pl
                 \<and> pl < sz + GROUP_HEADER_SER_SIZE + CLOG_FILE_TAIL_PADDING_TRIGGER
         else pl = 0 \<and> off + (if n then GROUP_HEADER_SER_SIZE else 0) + sz \<le> PALF_BLOCK_SIZE"
proof -
  note pl = alloc_place_spec [OF assms(1-3)]
  have big: "LOG_CUT_TRIGGER \<le> sz + GROUP_HEADER_SER_SIZE \<or>
      \<not> LOG_CUT_TRIGGER dvd sz + GROUP_HEADER_SER_SIZE"
    using assms(2) by (auto simp: size_ok_def alloc_consts dest: zdvd_imp_le)
  have H: "0 < GROUP_HEADER_SER_SIZE" "0 < CLOG_FILE_TAIL_PADDING_TRIGGER"
    by (simp_all add: alloc_consts palf_consts)
  have B: "CLOG_FILE_TAIL_PADDING_TRIGGER \<le> PALF_BLOCK_SIZE" by (simp add: palf_consts)
  show "k * PALF_BLOCK_SIZE + o' = off + pl + (if n then GROUP_HEADER_SER_SIZE else 0) + sz"
    using fit pl by (auto simp: alloc_fit_def Let_def split: if_splits)
  show "k = 0 \<or> k = 1" "need_cut \<Longrightarrow> n"
    using fit pl by (auto simp: alloc_fit_def Let_def split: if_splits)
  show "\<not> n \<Longrightarrow> off mod LOG_CUT_TRIGGER + sz \<le> LOG_CUT_TRIGGER"
    using fit pl by (auto simp: alloc_fit_def Let_def split: if_splits)
  show "tail_ok c o'"
    using fit pl assms(1,2) big H B
    by (auto simp: alloc_fit_def Let_def tail_ok_def size_ok_def not_le split: if_splits)
  show "if p then n \<and> k = 1 \<and> off + pl = PALF_BLOCK_SIZE
                 \<and> CLOG_FILE_TAIL_PADDING_TRIGGER \<le> pl
                 \<and> pl < sz + GROUP_HEADER_SER_SIZE + CLOG_FILE_TAIL_PADDING_TRIGGER
         else pl = 0 \<and> off + (if n then GROUP_HEADER_SER_SIZE else 0) + sz \<le> PALF_BLOCK_SIZE"
    using fit pl assms(1) H
    by (auto simp: alloc_fit_def Let_def tail_ok_def split: if_splits)
qed

subsection \<open>The abstract tail of the log\<close>

text \<open>
  What the allocator promises, over unbounded integers: the offset behind the last entry, the
  last log id, the last SCN and whether the current group log is closed.
\<close>

record log_tail =
  tail_off :: int
  tail_id :: int
  tail_scn :: int
  tail_cut :: bool

definition alloc_abs :: "LSNAllocator \<Rightarrow> log_tail" where
  "alloc_abs a = \<lparr> tail_off = end_off a, tail_id = cur_log_id a,
     tail_scn = uint (scn_base a) + uint (scn_delta (lsn_ts_meta a)),
     tail_cut = is_need_cut (lsn_ts_meta a) \<rparr>"

text \<open>
  Granting a request of \<open>sz\<close> bytes with lower bound \<open>base\<close> for its SCN, as a function of the tail. The
  entry joins the open group if its last byte stays within the 2MB stretch of the block the tail is in. If
  it then would not fit the block, or would leave less than 4KB of it, the rest of the block becomes
  a padding entry and the entry opens a group in the next block. The group is closed once it reaches
  the end of its 2MB stretch or of the block.
\<close>

definition tail_grant :: "int \<Rightarrow> int \<Rightarrow> log_tail \<Rightarrow> alloc_out \<times> log_tail" where
  "tail_grant base sz t =
     (let o' = tail_off t mod PALF_BLOCK_SIZE;
          joins = (\<not> tail_cut t \<and> o' mod LOG_CUT_TRIGGER + sz \<le> LOG_CUT_TRIGGER);
          fin = o' + (if joins then 0 else GROUP_HEADER_SER_SIZE) + sz;
          pad = (fin \<noteq> PALF_BLOCK_SIZE \<and> PALF_BLOCK_SIZE < fin + CLOG_FILE_TAIL_PADDING_TRIGGER);
          pad_len = (if pad then PALF_BLOCK_SIZE - o' else 0);
          begin_off = (if pad then 0 else o');
          is_new = (pad \<or> \<not> joins);
          len = (if is_new then GROUP_HEADER_SER_SIZE else 0) + sz;
          scn = max base (tail_scn t + 1)
      in (\<lparr> out_lsn = LSN (word_of_int (tail_off t)), out_log_id = tail_id t + of_bool is_new,
            out_scn = SCN (word_of_int scn), is_new_group_log = is_new, need_gen_padding_entry = pad,
            padding_len = pad_len \<rparr>,
          \<lparr> tail_off = tail_off t + pad_len + len, tail_id = tail_id t + of_bool is_new + of_bool pad,
            tail_scn = scn + of_bool pad,
            tail_cut = (begin_off mod LOG_CUT_TRIGGER + len \<ge> LOG_CUT_TRIGGER \<or> begin_off + len = PALF_BLOCK_SIZE) \<rparr>))"

text \<open>Raising the SCN of the tail, which a call does first when the deltas no longer suffice.\<close>

definition tail_raise :: "int \<Rightarrow> log_tail \<Rightarrow> log_tail" where
  "tail_raise base t = t \<lparr> tail_scn := max base (tail_scn t) \<rparr>"

text \<open>
  What clients of the allocator rely on, with or without such a raise: a grant starts where
  the log ended (behind the padding, if any), the new end lies exactly behind it, its bytes
  share one block, a padding entry fills its block to the end and is of the documented size,
  ids and SCNs advance, and an entry joins the open group only if the group stays within the
  2MB cut.
\<close>

definition alloc_spec :: "int \<Rightarrow> int \<Rightarrow> log_tail \<Rightarrow> alloc_out \<Rightarrow> log_tail \<Rightarrow> bool" where
  "alloc_spec base sz t out t' \<longleftrightarrow>
     uint (lsn_val (out_lsn out)) = tail_off t
   \<and> tail_off t' = tail_off t + padding_len out
        + (if is_new_group_log out then GROUP_HEADER_SER_SIZE else 0) + sz
   \<and> (if need_gen_padding_entry out
       then is_new_group_log out \<and> (tail_off t + padding_len out) mod PALF_BLOCK_SIZE = 0
          \<and> CLOG_FILE_TAIL_PADDING_TRIGGER \<le> padding_len out
          \<and> padding_len out < sz + GROUP_HEADER_SER_SIZE + CLOG_FILE_TAIL_PADDING_TRIGGER
       else padding_len out = 0)
   \<and> (tail_off t + padding_len out) div PALF_BLOCK_SIZE = (tail_off t' - 1) div PALF_BLOCK_SIZE
   \<and> (tail_cut t \<longrightarrow> is_new_group_log out)
   \<and> (is_new_group_log out \<or>
        tail_off t mod PALF_BLOCK_SIZE mod LOG_CUT_TRIGGER + sz \<le> LOG_CUT_TRIGGER)
   \<and> out_log_id out = tail_id t + of_bool (is_new_group_log out)
   \<and> tail_id t' = out_log_id out + of_bool (need_gen_padding_entry out)
   \<and> scn_is_valid (out_scn out)
   \<and> max base (tail_scn t + 1) \<le> uint (scn_val (out_scn out))
   \<and> uint (scn_val (out_scn out)) \<le> max base (tail_scn t) + 1
   \<and> tail_scn t' = uint (scn_val (out_scn out)) + of_bool (need_gen_padding_entry out)"

definition alloc_inv :: "LSNAllocator \<Rightarrow> bool" where
  "alloc_inv a \<longleftrightarrow> is_inited a
     \<and> tail_ok (is_need_cut (lsn_ts_meta a)) (end_off a mod PALF_BLOCK_SIZE)
     \<and> uint (scn_base a) + uint (scn_delta (lsn_ts_meta a)) < 2 ^ 62"

text \<open>Room for one more entry in the 64-bit offsets and the 62-bit SCNs.\<close>

definition alloc_room :: "SCN \<Rightarrow> LSNAllocator \<Rightarrow> bool" where
  "alloc_room base a \<longleftrightarrow> end_off a + 2 * PALF_BLOCK_SIZE \<le> 2 ^ 64
     \<and> uint (scn_val base) + 2 < 2 ^ 62
     \<and> uint (scn_base a) + uint (scn_delta (lsn_ts_meta a)) + 2 < 2 ^ 62"

lemma tail_block: "uint (lsn_2_block (LSN v) (word_of_int PALF_BLOCK_SIZE)) = uint v div PALF_BLOCK_SIZE"
  by (simp add: lsn_2_block_def uint_div_distrib palf_consts)

lemma tail_offset: "uint (lsn_2_offset (LSN v) (word_of_int PALF_BLOCK_SIZE)) = uint v mod PALF_BLOCK_SIZE"
  by (simp add: lsn_2_offset_def uint_mod_distrib palf_consts)

lemma uint_ucast35 [simp]: "uint (ucast (d :: 35 word) :: 64 word) = uint d"
proof -
  have "uint d < 2 ^ LENGTH(35)" by (rule unsigned_less)
  then show ?thesis by (intro uint_ucast_small) simp
qed

lemma uint_cur_scn:
  "uint (scn_base a) + uint (scn_delta (lsn_ts_meta a)) < 2 ^ 62 \<Longrightarrow>
   uint (cur_scn a) = uint (scn_base a) + uint (scn_delta (lsn_ts_meta a))"
  unfolding cur_scn_def by (subst uint_add_small) simp_all

lemma uint_tmp_next_scn:
  assumes "uint (scn_base a) + uint (scn_delta (lsn_ts_meta a)) < 2 ^ 62"
  shows "uint (tmp_next_scn base a) =
    max (uint (scn_val base)) (uint (scn_base a) + uint (scn_delta (lsn_ts_meta a)) + 1)"
proof -
  have "uint (cur_scn a + 1) = uint (cur_scn a) + 1"
    using assms by (subst uint_add_small) (simp_all add: uint_cur_scn)
  then show ?thesis using assms by (simp add: tmp_next_scn_def uint_max uint_cur_scn)
qed

text \<open>When no base update is asked for, the deltas of the next entry fit their fields.\<close>

lemma uint_LOG_TS: "uint LOG_TS_DELTA_UPPER_BOUND = 2 ^ 35 - 1000"
  by (simp add: alloc_consts)

lemma no_update_deltas:
  assumes "uint (scn_base a) + uint (scn_delta (lsn_ts_meta a)) < 2 ^ 62"
    and "uint (scn_val base) < 2 ^ 62" and "\<not> alloc_need_update_base base a"
  shows "uint (tmp_next_scn base a - scn_base a) + 1 < 2 ^ 35 - 1000"
    and "uint (tmp_next_scn base a - scn_base a) = uint (tmp_next_scn base a) - uint (scn_base a)"
    and "uint (log_id_delta (lsn_ts_meta a)) + 2 < 2 ^ 28 - 1000"
proof -
  let ?n = "tmp_next_scn base a"
  have n: "uint ?n = max (uint (scn_val base)) (uint (scn_base a) + uint (scn_delta (lsn_ts_meta a)) + 1)"
    using assms(1) by (rule uint_tmp_next_scn)
  have ge: "uint (scn_base a) \<le> uint ?n" unfolding n by (rule max.coboundedI2) simp
  have lt: "uint ?n \<le> 2 ^ 62" using assms(1,2) by (simp add: n)
  show d: "uint (?n - scn_base a) = uint ?n - uint (scn_base a)" using ge by (rule uint_sub_small)
  have "uint (?n + 1) = uint ?n + 1" using lt by (subst uint_add_small) simp_all
  then have "uint (?n + 1 - scn_base a) = uint ?n + 1 - uint (scn_base a)"
    using ge by (subst uint_sub_small) simp_all
  then show "uint (?n - scn_base a) + 1 < 2 ^ 35 - 1000"
    using assms(3) d
    by (simp add: alloc_need_update_base_def word_le_def uint_LOG_TS not_le)
  show "uint (log_id_delta (lsn_ts_meta a)) + 2 < 2 ^ 28 - 1000"
    using assms(3) by (simp add: alloc_need_update_base_def alloc_consts not_le)
qed

definition alloc_next ::
  "SCN \<Rightarrow> int \<Rightarrow> LSNAllocator \<Rightarrow> alloc_out \<Rightarrow> alloc_out \<times> LSNTsMeta" where
  \<comment> \<open>what \<open>alloc_try\<close> computes before it looks at the upper bounds\<close>
  "alloc_next base sz a out =
     (let off = end_off a mod PALF_BLOCK_SIZE in
      case alloc_place (is_need_cut (lsn_ts_meta a)) off sz of (r, n0, o0, c0) \<Rightarrow>
      case alloc_fit off sz n0 o0 c0 of (n, p, pl, k, o', c) \<Rightarrow>
        (out \<lparr> is_new_group_log := n, need_gen_padding_entry := p, padding_len := pl,
               out_lsn := LSN (meta_lsn_val (lsn_ts_meta a)),
               out_log_id := cur_log_id a + of_bool n,
               out_scn := SCN (tmp_next_scn base a) \<rparr>,
         \<lparr> is_need_cut = c,
           log_id_delta = word_of_int (uint (log_id_delta (lsn_ts_meta a)) + of_bool n + of_bool p),
           scn_delta = ucast (tmp_next_scn base a - scn_base a + of_bool p),
           meta_lsn_val = word_of_int ((end_off a div PALF_BLOCK_SIZE + k) * PALF_BLOCK_SIZE + o') \<rparr>))"

lemma block_split: "(x div PALF_BLOCK_SIZE) * PALF_BLOCK_SIZE + x mod PALF_BLOCK_SIZE = x"
  by (simp add: mult_div_mod_eq)

lemma block_div: "0 \<le> o' \<Longrightarrow> o' < PALF_BLOCK_SIZE \<Longrightarrow> (q * PALF_BLOCK_SIZE + o') div PALF_BLOCK_SIZE = q"
  by (simp add: palf_consts)

lemma block_mod: "0 \<le> o' \<Longrightarrow> o' < PALF_BLOCK_SIZE \<Longrightarrow> (q * PALF_BLOCK_SIZE + o') mod PALF_BLOCK_SIZE = o'"
  by (simp add: palf_consts)

lemma alloc_fit_global:
  fixes e :: int
  defines "off \<equiv> e mod PALF_BLOCK_SIZE" and "blk \<equiv> e div PALF_BLOCK_SIZE"
  assumes tok: "tail_ok need_cut off" and sz: "size_ok sz"
    and pl: "alloc_place need_cut off sz = (r, n0, o0, c0)"
    and fit: "alloc_fit off sz n0 o0 c0 = (n, p, pad, k, o', c)"
  defines "x \<equiv> (if n then GROUP_HEADER_SER_SIZE else 0) + sz"
  shows "(blk + k) * PALF_BLOCK_SIZE + o' = e + pad + x"
    and "0 \<le> pad" "0 < x" "pad + x < 2 * PALF_BLOCK_SIZE"
    and "(e + pad) div PALF_BLOCK_SIZE = (e + pad + x - 1) div PALF_BLOCK_SIZE"
    and "p \<Longrightarrow> (e + pad) mod PALF_BLOCK_SIZE = 0"
proof -
  let ?B = PALF_BLOCK_SIZE and ?H = GROUP_HEADER_SER_SIZE and ?T = CLOG_FILE_TAIL_PADDING_TRIGGER
  note spec = alloc_fit_spec [OF tok sz pl fit]
  have e: "blk * ?B + off = e" unfolding blk_def off_def by (rule block_split)
  have H: "0 < ?H" "0 < sz" "0 \<le> off" "0 < ?B" "0 < ?T"
    using sz tok by (auto simp: alloc_consts size_ok_def tail_ok_def palf_consts)
  show x: "0 < x" using H by (simp add: x_def)
  have xB: "x < ?B" using sz H by (auto simp: size_ok_def x_def)
  have "(blk + k) * ?B + o' = blk * ?B + (k * ?B + o')" by (simp add: distrib_right)
  also have "\<dots> = e + pad + x" unfolding spec(1) x_def using e by linarith
  finally show "(blk + k) * ?B + o' = e + pad + x" .
  have pad: "if p then off + pad = ?B \<and> ?T \<le> pad else pad = 0 \<and> off + x \<le> ?B"
    using spec(6) by (simp add: x_def add.assoc split: if_splits)
  then show "0 \<le> pad" "pad + x < 2 * ?B" using H xB by (auto split: if_splits)
  define o1 where "o1 = (if p then 0 else off)"
  have "p \<Longrightarrow> e + pad = (blk + 1) * ?B" using pad e by (simp add: distrib_right)
  then have start: "e + pad = (blk + of_bool p) * ?B + o1"
    using pad e by (cases p) (simp_all add: o1_def)
  have o1: "0 \<le> o1" "o1 + x \<le> ?B" using pad H xB by (auto simp: o1_def)
  have "(e + pad + x - 1) div ?B = blk + of_bool p"
    using block_div [of "o1 + x - 1" "blk + of_bool p"] o1 x unfolding start by (simp add: algebra_simps)
  moreover have "(e + pad) div ?B = blk + of_bool p"
    unfolding start using o1 x by (intro block_div) auto
  ultimately show "(e + pad) div ?B = (e + pad + x - 1) div ?B" by simp
  show "p \<Longrightarrow> (e + pad) mod ?B = 0" unfolding start o1_def by simp
qed

text \<open>The truncated fields of the next word hold the exact deltas.\<close>

lemma next_deltas_exact:
  fixes a base and n p :: bool
  assumes "uint (tmp_next_scn base a - scn_base a) + 1 < 2 ^ 35 - 1000"
    and "uint (tmp_next_scn base a - scn_base a) = uint (tmp_next_scn base a) - uint (scn_base a)"
    and "uint (log_id_delta (lsn_ts_meta a)) + 2 < 2 ^ 28 - 1000"
  shows "uint (word_of_int (uint (log_id_delta (lsn_ts_meta a)) + of_bool n + of_bool p) :: 28 word)
      = uint (log_id_delta (lsn_ts_meta a)) + of_bool n + of_bool p"
    and "uint (scn_base a) + uint (ucast (tmp_next_scn base a - scn_base a + of_bool p) :: 35 word)
      = uint (tmp_next_scn base a) + of_bool p"
proof -
  show "uint (word_of_int (uint (log_id_delta (lsn_ts_meta a)) + of_bool n + of_bool p) :: 28 word)
      = uint (log_id_delta (lsn_ts_meta a)) + of_bool n + of_bool p"
    using assms(3) by (intro uint_word_of_int_small) (auto simp: of_bool_def)
  have "uint (tmp_next_scn base a - scn_base a + of_bool p) = uint (tmp_next_scn base a - scn_base a) + of_bool p"
    using assms(1) by (cases p) (simp_all add: uint_add_small)
  then show "uint (scn_base a) + uint (ucast (tmp_next_scn base a - scn_base a + of_bool p) :: 35 word)
      = uint (tmp_next_scn base a) + of_bool p"
    using assms(1,2) by (subst uint_ucast_small) (cases p, simp_all)
qed

lemma alloc_fit_exact:
  assumes tok: "tail_ok need_cut o'" and sz: "size_ok sz"
    and pl: "alloc_place need_cut o' sz = (r, n0, o0, c0)" and fit: "alloc_fit o' sz n0 o0 c0 = (n, p, pad, k, o1, c)"
  defines "joins \<equiv> \<not> need_cut \<and> o' mod LOG_CUT_TRIGGER + sz \<le> LOG_CUT_TRIGGER"
  defines "fin \<equiv> o' + (if joins then 0 else GROUP_HEADER_SER_SIZE) + sz"
  shows "p \<longleftrightarrow> fin \<noteq> PALF_BLOCK_SIZE \<and> PALF_BLOCK_SIZE < fin + CLOG_FILE_TAIL_PADDING_TRIGGER"
    and "n \<longleftrightarrow> p \<or> \<not> joins" and "pad = (if p then PALF_BLOCK_SIZE - o' else 0)"
    and "c \<longleftrightarrow> (if p then 0 else o') mod LOG_CUT_TRIGGER + ((if n then GROUP_HEADER_SER_SIZE else 0) + sz) \<ge> LOG_CUT_TRIGGER
      \<or> (if p then 0 else o') + ((if n then GROUP_HEADER_SER_SIZE else 0) + sz) = PALF_BLOCK_SIZE"
proof -
  have nz: "need_cut \<or> o' mod LOG_CUT_TRIGGER \<noteq> 0 \<and> 0 < o'"
    using tok by (cases "o' = 0") (auto simp: tail_ok_def)
  then have n0: "n0 \<longleftrightarrow> \<not> joins" "o0 = fin"
      "c0 \<longleftrightarrow> o' mod LOG_CUT_TRIGGER + ((if n0 then GROUP_HEADER_SER_SIZE else 0) + sz) \<ge> LOG_CUT_TRIGGER"
    using pl by (auto simp: alloc_place_def Let_def in_cut_mod joins_def fin_def split: if_splits)
  have big: "0 < CLOG_FILE_TAIL_PADDING_TRIGGER" "sz + GROUP_HEADER_SER_SIZE < PALF_BLOCK_SIZE"
    using sz by (simp_all add: palf_consts size_ok_def)
  show p: "p \<longleftrightarrow> fin \<noteq> PALF_BLOCK_SIZE \<and> PALF_BLOCK_SIZE < fin + CLOG_FILE_TAIL_PADDING_TRIGGER"
    using fit n0 big by (auto simp: alloc_fit_def Let_def split: if_splits)
  show n: "n \<longleftrightarrow> p \<or> \<not> joins" and "pad = (if p then PALF_BLOCK_SIZE - o' else 0)"
    using fit n0 by (auto simp: alloc_fit_def Let_def split: if_splits)
  show "c \<longleftrightarrow> (if p then 0 else o') mod LOG_CUT_TRIGGER + ((if n then GROUP_HEADER_SER_SIZE else 0) + sz) \<ge> LOG_CUT_TRIGGER
      \<or> (if p then 0 else o') + ((if n then GROUP_HEADER_SER_SIZE else 0) + sz) = PALF_BLOCK_SIZE"
    using fit n0 big by (auto simp: alloc_fit_def Let_def fin_def split: if_splits)
qed

lemma alloc_next_refines:
  assumes inv: "alloc_inv a" and room: "alloc_room base a" and sz: "size_ok sz"
    and base: "scn_is_valid base" and nb: "\<not> alloc_need_update_base base a"
    and nx: "alloc_next base sz a out = (out', m)"
  shows "alloc_spec (uint (scn_val base)) sz (alloc_abs a) out' (alloc_abs (a \<lparr> lsn_ts_meta := m \<rparr>))"
    and "alloc_inv (a \<lparr> lsn_ts_meta := m \<rparr>)"
    and "tail_grant (uint (scn_val base)) sz (alloc_abs a) = (out', alloc_abs (a \<lparr> lsn_ts_meta := m \<rparr>))"
proof -
  let ?B = PALF_BLOCK_SIZE and ?n = "tmp_next_scn base a"
  let ?off = "end_off a mod ?B" and ?blk = "end_off a div ?B"
  obtain r n0 o0 c0 where pl: "alloc_place (is_need_cut (lsn_ts_meta a)) ?off sz = (r, n0, o0, c0)"
    by (metis prod_cases4)
  obtain n p pad k o' c where fit: "alloc_fit ?off sz n0 o0 c0 = (n, p, pad, k, o', c)"
    by (metis prod_cases6)
  have tok: "tail_ok (is_need_cut (lsn_ts_meta a)) ?off" and ini: "is_inited a"
    and cs: "uint (scn_base a) + uint (scn_delta (lsn_ts_meta a)) < 2 ^ 62"
    using inv by (auto simp: alloc_inv_def)
  note spec = alloc_fit_spec [OF tok sz pl fit] and glob = alloc_fit_global [OF tok sz pl fit]
  have bs: "uint (scn_val base) < 2 ^ 62" using uint_scn_small [OF base] by simp
  note delta = next_deltas_exact [OF no_update_deltas [OF cs bs nb]]
  note n = uint_tmp_next_scn [OF cs, of base]
  have nlt: "uint ?n + 1 < 2 ^ 62" using room bs by (auto simp: n alloc_room_def)
  note nx0 = nx [unfolded alloc_next_def Let_def pl fit prod.case prod.inject]
  note out' = nx0 [THEN conjunct1, symmetric] and m = nx0 [THEN conjunct2, symmetric]
  have "end_off a + 2 * ?B \<le> 2 ^ 64" "0 \<le> end_off a"
    using room by (simp_all add: alloc_room_def end_off_def)
  then have e: "uint (meta_lsn_val m) = end_off a + pad + ((if n then GROUP_HEADER_SER_SIZE else 0) + sz)"
    unfolding m LSNTsMeta.simps glob(1)
    using glob(2-4) by (intro uint_word_of_int_small) auto
  have i: "uint (log_id_delta m) = uint (log_id_delta (lsn_ts_meta a)) + of_bool n + of_bool p"
    and d: "uint (scn_base a) + uint (scn_delta m) = uint ?n + of_bool p"
    unfolding m LSNTsMeta.simps by (rule delta)+
  have joins: "n \<or> ?off mod LOG_CUT_TRIGGER + sz \<le> LOG_CUT_TRIGGER" using spec(5) by blast
  have v: "scn_is_valid (SCN ?n)" using nlt by (simp add: scn_valid_uint)
  show "alloc_spec (uint (scn_val base)) sz (alloc_abs a) out' (alloc_abs (a \<lparr> lsn_ts_meta := m \<rparr>))"
    unfolding alloc_spec_def
    using spec(4,6) joins glob(5,6) v
    by (simp add: alloc_abs_def end_off_def out' e [unfolded end_off_def] d n i cur_log_id_def)
  have "0 \<le> o'" "o' < ?B" using spec(2) by (auto simp: tail_ok_def palf_consts)
  then have "end_off (a \<lparr> lsn_ts_meta := m \<rparr>) mod ?B = o'"
    using block_mod [of o' "?blk + k"] unfolding glob(1) by (simp add: end_off_def e)
  then show "alloc_inv (a \<lparr> lsn_ts_meta := m \<rparr>)"
    using spec(2) ini d nlt by (simp add: alloc_inv_def m)
  have w: "word_of_int (max (uint (scn_val base)) (uint (scn_base a) + uint (scn_delta (lsn_ts_meta a)) + 1)) = ?n"
    by (simp add: n [symmetric])
  note ex = alloc_fit_exact [OF tok sz pl fit]
  have c: "is_need_cut m = c" by (simp add: m)
  have t: "tail_off (alloc_abs a) = end_off a" "tail_cut (alloc_abs a) = is_need_cut (lsn_ts_meta a)"
    "tail_scn (alloc_abs a) = uint (scn_base a) + uint (scn_delta (lsn_ts_meta a))"
    by (simp_all add: alloc_abs_def)
  show "tail_grant (uint (scn_val base)) sz (alloc_abs a) = (out', alloc_abs (a \<lparr> lsn_ts_meta := m \<rparr>))"
    unfolding tail_grant_def Let_def t ex(1) [symmetric] ex(2) [symmetric] ex(3) [symmetric] ex(4) [symmetric] w
    by (simp add: alloc_abs_def out' c end_off_def e [unfolded end_off_def] i d n cur_log_id_def)
qed

lemma tmp_next_scn_converts:
  assumes "alloc_room base a"
  shows "convert_for_logservice (tmp_next_scn base a) x = (OB_SUCCESS, SCN (tmp_next_scn base a))"
proof -
  have cs: "uint (scn_base a) + uint (scn_delta (lsn_ts_meta a)) < 2 ^ 62"
    using assms by (simp add: alloc_room_def)
  have "uint (tmp_next_scn base a) < 4611686018427387904"
    using assms by (simp add: uint_tmp_next_scn [OF cs] alloc_room_def)
  then show ?thesis
    using scn_valid_le_MAX [of "SCN (tmp_next_scn base a)"]
    by (simp add: convert_for_logservice_def scn_valid_uint not_less)
qed

text \<open>The test against the upper bounds and the conversion of the SCN add nothing to a grant.\<close>

lemma alloc_try_next:
  assumes room: "alloc_room base a" and nx: "alloc_next base sz a out = (out', m)"
  shows "alloc_try base sz ub lb a out =
    (if tail_id (alloc_abs a) + of_bool (is_new_group_log out') + of_bool (need_gen_padding_entry out') > ub
        \<or> lb < LSN (meta_lsn_val m)
     then (OB_EAGAIN, out \<lparr> is_new_group_log := is_new_group_log out',
             need_gen_padding_entry := need_gen_padding_entry out', padding_len := padding_len out' \<rparr>, a)
     else (OB_SUCCESS, out', a \<lparr> lsn_ts_meta := m \<rparr>))"
proof -
  note conv = tmp_next_scn_converts [OF room]
  let ?off = "end_off a mod PALF_BLOCK_SIZE"
  obtain r n0 o0 c0 where pl: "alloc_place (is_need_cut (lsn_ts_meta a)) ?off sz = (r, n0, o0, c0)"
    by (metis prod_cases4)
  obtain n p pad k o' c where fit: "alloc_fit ?off sz n0 o0 c0 = (n, p, pad, k, o', c)"
    by (metis prod_cases6)
  note nx0 = nx [unfolded alloc_next_def Let_def pl fit prod.case prod.inject]
  note nx' = nx0 [THEN conjunct1, symmetric] nx0 [THEN conjunct2, symmetric]
  show ?thesis
    unfolding alloc_try_def Let_def tail_block tail_offset end_off_def [symmetric] pl fit prod.case
    by (simp add: nx' conv alloc_abs_def)
qed

lemma alloc_update_base_props:
  assumes inv: "alloc_inv a" and room: "alloc_room base a" and base: "scn_is_valid base"
  shows "alloc_abs (alloc_update_base base a) =
      tail_raise (uint (scn_val base)) (alloc_abs a)"
    and "alloc_inv (alloc_update_base base a)" and "alloc_room base (alloc_update_base base a)"
    and "\<not> alloc_need_update_base base (alloc_update_base base a)"
proof -
  let ?a = "alloc_update_base base a" and ?b = "uint (scn_val base)"
  have cs: "uint (scn_base a) + uint (scn_delta (lsn_ts_meta a)) < 2 ^ 62"
    using inv by (simp add: alloc_inv_def)
  have sb: "uint (scn_base ?a) = max ?b (uint (scn_base a) + uint (scn_delta (lsn_ts_meta a)))"
    by (simp add: alloc_update_base_def uint_max uint_cur_scn [OF cs])
  have sd: "scn_delta (lsn_ts_meta ?a) = 0" "log_id_delta (lsn_ts_meta ?a) = 0"
    by (simp_all add: alloc_update_base_def)
  show "alloc_abs ?a = tail_raise ?b (alloc_abs a)"
    using sb by (simp add: tail_raise_def alloc_abs_def end_off_def cur_log_id_def alloc_update_base_def)
  show inv': "alloc_inv ?a"
    using inv uint_scn_small [OF base]
    by (simp add: alloc_inv_def sb sd) (simp add: alloc_update_base_def end_off_def)
  show "alloc_room base ?a"
    using room by (simp add: alloc_room_def sb sd) (simp add: alloc_update_base_def end_off_def)
  have cs': "uint (scn_base ?a) + uint (scn_delta (lsn_ts_meta ?a)) < 2 ^ 62"
    using inv' by (simp add: alloc_inv_def)
  have n: "uint (tmp_next_scn base ?a) = uint (scn_base ?a) + 1"
    by (simp add: uint_tmp_next_scn [OF cs'] sd sb)
  have "uint (tmp_next_scn base ?a + 1) = uint (scn_base ?a) + 2"
    using cs' sd by (subst uint_add_small) (simp_all add: n)
  then have "uint (tmp_next_scn base ?a + 1 - scn_base ?a) = 2"
    by (subst uint_sub_small) simp_all
  then show "\<not> alloc_need_update_base base ?a"
    by (simp add: alloc_need_update_base_def word_le_def uint_LOG_TS sd LOG_ID_DELTA_UPPER_BOUND_def)
qed

lemma alloc_spec_raised:
  "alloc_spec b sz (tail_raise b t) g t' \<Longrightarrow> alloc_spec b sz t g t'"
  by (auto simp: alloc_spec_def tail_raise_def)

text \<open>At most one base update is needed, and then the iteration decides.\<close>

definition tail_before :: "SCN \<Rightarrow> LSNAllocator \<Rightarrow> log_tail" where
  "tail_before base a = (if alloc_need_update_base base a then tail_raise (uint (scn_val base)) (alloc_abs a) else alloc_abs a)"

lemma tail_before_simps:
  "tail_off (tail_before base a) = tail_off (alloc_abs a)" "tail_id (tail_before base a) = tail_id (alloc_abs a)"
  "tail_cut (tail_before base a) = tail_cut (alloc_abs a)" "tail_scn (alloc_abs a) \<le> tail_scn (tail_before base a)"
  by (simp_all add: tail_before_def tail_raise_def)

lemma alloc_loop_once:
  assumes inv: "alloc_inv a" and room: "alloc_room base a" and base: "scn_is_valid base"
  obtains a0 out0 where "alloc_loop base sz ub lb a out = Some (alloc_try base sz ub lb a0 out0)"
    and "alloc_inv a0" "alloc_room base a0" "\<not> alloc_need_update_base base a0"
    and "alloc_abs a0 = tail_before base a"
    and "out_lsn out0 = out_lsn out" "out_log_id out0 = out_log_id out" "out_scn out0 = out_scn out"
proof (cases "alloc_need_update_base base a")
  case True
  note u = alloc_update_base_props [OF inv room base]
  show ?thesis
    using True u
    by (intro that [of "alloc_update_base base a"
          "out \<lparr> is_new_group_log := False, need_gen_padding_entry := False, padding_len := 0 \<rparr>"])
      (simp_all add: alloc_loop.simps tail_before_def)
next
  case False
  with inv room show ?thesis by (intro that [of a out]) (simp_all add: alloc_loop.simps tail_before_def)
qed

text \<open>What a call leaves in the out parameters when it refuses the grant \<open>g\<close>.\<close>

definition out_refused :: "alloc_out \<Rightarrow> alloc_out \<Rightarrow> alloc_out" where
  "out_refused g out = out \<lparr> is_new_group_log := is_new_group_log g,
     need_gen_padding_entry := need_gen_padding_entry g, padding_len := padding_len g \<rparr>"

lemma alloc_lsn_scn_outcome:
  assumes inv: "alloc_inv a" and room: "alloc_room base a" and base: "scn_is_valid base"
    and args: "size_ok sz" "0 < ub" "lsn_is_valid lb"
  obtains g t' a' where "tail_grant (uint (scn_val base)) sz (tail_before base a) = (g, t')"
      and "alloc_spec (uint (scn_val base)) sz (alloc_abs a) g t'" and "alloc_inv a'"
      and "if tail_id t' \<le> ub \<and> tail_off t' \<le> uint (lsn_val lb)
           then alloc_lsn_scn base sz ub lb a out = Some (OB_SUCCESS, g, a') \<and> alloc_abs a' = t'
           else alloc_lsn_scn base sz ub lb a out = Some (OB_EAGAIN, out_refused g out, a') \<and> alloc_abs a' = tail_before base a"
proof -
  obtain a0 out0 where loop: "alloc_loop base sz ub lb a out = Some (alloc_try base sz ub lb a0 out0)"
    and a0: "alloc_inv a0" "alloc_room base a0" "\<not> alloc_need_update_base base a0"
    and abs: "alloc_abs a0 = tail_before base a"
    and out0: "out_lsn out0 = out_lsn out" "out_log_id out0 = out_log_id out" "out_scn out0 = out_scn out"
    using alloc_loop_once [OF inv room base] by blast
  have call: "alloc_lsn_scn base sz ub lb a out = Some (alloc_try base sz ub lb a0 out0)"
    using loop inv base args by (simp add: alloc_lsn_scn_def alloc_inv_def size_ok_def)
  obtain g m where nx: "alloc_next base sz a0 out0 = (g, m)" by fastforce
  let ?a' = "a0 \<lparr> lsn_ts_meta := m \<rparr>"
  note ref = alloc_next_refines [OF a0(1,2) args(1) base a0(3) nx]
  have spec: "alloc_spec (uint (scn_val base)) sz (alloc_abs a) g (alloc_abs ?a')"
    using ref(1) by (auto simp: abs tail_before_def intro: alloc_spec_raised split: if_splits)
  have id: "tail_id (alloc_abs a0) + of_bool (is_new_group_log g) + of_bool (need_gen_padding_entry g)
      = tail_id (alloc_abs ?a')"
    using ref(1) by (simp add: alloc_spec_def)
  have off: "lb < LSN (meta_lsn_val m) \<longleftrightarrow> uint (lsn_val lb) < tail_off (alloc_abs ?a')"
    by (simp add: lsn_less_iff word_less_def alloc_abs_def end_off_def)
  have refused: "out_refused g out0 = out_refused g out" using out0 by (simp add: out_refused_def)
  note tr = alloc_try_next [OF a0(2) nx, of ub lb, unfolded id off]
  show ?thesis
    using call tr spec ref(2) ref(3) [unfolded abs] a0(1) abs
    by (intro that [of g "alloc_abs ?a'"
          "if tail_id (alloc_abs ?a') \<le> ub \<and> tail_off (alloc_abs ?a') \<le> uint (lsn_val lb) then ?a' else a0"])
      (auto simp: refused [unfolded out_refused_def] out_refused_def)
qed

lemma alloc_call_props:
  assumes inv: "alloc_inv a" and room: "alloc_room base a" and sz: "size_ok sz"
    and call: "alloc_lsn_scn base sz ub lb a out = Some (r, out', a')"
  shows "alloc_inv a'"
    and "r = OB_SUCCESS \<Longrightarrow> alloc_spec (uint (scn_val base)) sz (alloc_abs a) out' (alloc_abs a')"
    and "r \<noteq> OB_SUCCESS \<Longrightarrow> tail_off (alloc_abs a') = tail_off (alloc_abs a)
           \<and> tail_scn (alloc_abs a) \<le> tail_scn (alloc_abs a')"
proof -
  have "alloc_inv a' \<and> (if r = OB_SUCCESS then alloc_spec (uint (scn_val base)) sz (alloc_abs a) out' (alloc_abs a')
    else tail_off (alloc_abs a') = tail_off (alloc_abs a) \<and> tail_scn (alloc_abs a) \<le> tail_scn (alloc_abs a'))"
  proof (cases "scn_is_valid base \<and> 0 < ub \<and> lsn_is_valid lb")
    case True
    then have args: "scn_is_valid base" "size_ok sz" "0 < ub" "lsn_is_valid lb" using sz by auto
    show ?thesis using inv room args
      by (rule alloc_lsn_scn_outcome [where out = out]) (use call in \<open>auto simp: tail_before_simps split: if_splits\<close>)
  next
    case False
    with call inv show ?thesis by (auto simp: alloc_lsn_scn_def alloc_inv_def split: if_splits)
  qed
  then show "alloc_inv a'"
    and "r = OB_SUCCESS \<Longrightarrow> alloc_spec (uint (scn_val base)) sz (alloc_abs a) out' (alloc_abs a')"
    and "r \<noteq> OB_SUCCESS \<Longrightarrow> tail_off (alloc_abs a') = tail_off (alloc_abs a)
           \<and> tail_scn (alloc_abs a) \<le> tail_scn (alloc_abs a')"
    by (simp_all split: if_splits)
qed

text \<open>
  C1. Every call of \<^verbatim>\<open>alloc_lsn_scn\<close> on a well-formed allocator returns, whatever the size of
  the deltas (at most one base update is needed), and never with the code for an unexpected
  state. It refines the function \<open>tail_grant\<close> on the abstract tail: if the new tail lies within both
  upper bounds the call succeeds with exactly the LSN, log id, SCN, group and padding of that grant
  and leaves exactly that tail; otherwise it answers \<^verbatim>\<open>OB_EAGAIN\<close>, reports group and padding of the
  grant it refused and changes nothing. A base update, when the deltas call for one, raises the SCN of
  the tail to \<open>base\<close> beforehand, also when the request is then refused; the end of the log, the log
  id and the open group stay. Either way the grant has the properties \<open>alloc_spec\<close> that clients rely on.
\<close>

theorem alloc_lsn_scn_refines:
  assumes "alloc_inv a" "alloc_room base a" "scn_is_valid base"
    and "size_ok sz" "0 < ub" "lsn_is_valid lb"
  shows "\<exists>g t t' a'.
    t = (if alloc_need_update_base base a then tail_raise (uint (scn_val base)) (alloc_abs a) else alloc_abs a)
    \<and> tail_grant (uint (scn_val base)) sz t = (g, t') \<and> alloc_spec (uint (scn_val base)) sz (alloc_abs a) g t'
    \<and> alloc_inv a'
    \<and> (if tail_id t' \<le> ub \<and> tail_off t' \<le> uint (lsn_val lb)
       then alloc_lsn_scn base sz ub lb a out = Some (OB_SUCCESS, g, a') \<and> alloc_abs a' = t'
       else alloc_lsn_scn base sz ub lb a out = Some (OB_EAGAIN, out \<lparr> is_new_group_log := is_new_group_log g,
              need_gen_padding_entry := need_gen_padding_entry g, padding_len := padding_len g \<rparr>, a')
            \<and> alloc_abs a' = t)"
  using assms by (rule alloc_lsn_scn_outcome [where out = out]) (auto simp: tail_before_def out_refused_def)

definition alloc_example :: LSNAllocator where
  "alloc_example = snd (alloc_init 0 (SCN 1000) (LSN 0) alloc_reset)"

definition out_example :: alloc_out where
  "out_example = \<lparr> out_lsn = LSN 0, out_log_id = 0, out_scn = SCN 0, is_new_group_log = False,
     need_gen_padding_entry = False, padding_len = 0 \<rparr>"

text \<open>One request that is granted, and one whose base is far ahead and which is refused.\<close>

theorem alloc_lsn_scn_refines_witness:
  "(\<exists>a'. alloc_lsn_scn (SCN 2000) 100 10 (LSN 100000) alloc_example out_example
       = Some (OB_SUCCESS, \<lparr> out_lsn = LSN 0, out_log_id = 1, out_scn = SCN 2000, is_new_group_log = True,
           need_gen_padding_entry = False, padding_len = 0 \<rparr>, a')
     \<and> alloc_abs a' = \<lparr> tail_off = 148, tail_id = 1, tail_scn = 2000, tail_cut = False \<rparr>)
   \<and> (\<exists>out' a'. alloc_lsn_scn (SCN (2 ^ 40)) 100 10 (LSN 1) alloc_example out_example = Some (OB_EAGAIN, out', a')
     \<and> alloc_abs a' = \<lparr> tail_off = 0, tail_id = 0, tail_scn = 2 ^ 40, tail_cut = True \<rparr>)"
proof
  have inv: "alloc_inv alloc_example" by code_simp
  have v: "size_ok 100" "0 < (10::int)" by code_simp+
  have 1: "alloc_room (SCN 2000) alloc_example" "scn_is_valid (SCN 2000)" "lsn_is_valid (LSN 100000)"
    "\<not> alloc_need_update_base (SCN 2000) alloc_example" by code_simp+
  have g1: "tail_grant (uint (scn_val (SCN 2000))) 100 (alloc_abs alloc_example)
    = (\<lparr> out_lsn = LSN 0, out_log_id = 1, out_scn = SCN 2000, is_new_group_log = True,
           need_gen_padding_entry = False, padding_len = 0 \<rparr>,
       \<lparr> tail_off = 148, tail_id = 1, tail_scn = 2000, tail_cut = False \<rparr>)" by code_simp
  show "\<exists>a'. alloc_lsn_scn (SCN 2000) 100 10 (LSN 100000) alloc_example out_example
       = Some (OB_SUCCESS, \<lparr> out_lsn = LSN 0, out_log_id = 1, out_scn = SCN 2000, is_new_group_log = True,
           need_gen_padding_entry = False, padding_len = 0 \<rparr>, a')
     \<and> alloc_abs a' = \<lparr> tail_off = 148, tail_id = 1, tail_scn = 2000, tail_cut = False \<rparr>"
    using alloc_lsn_scn_refines [OF inv 1(1,2) v 1(3), of out_example] 1(4) g1 by auto
  have 2: "alloc_room (SCN (2 ^ 40)) alloc_example" "scn_is_valid (SCN (2 ^ 40))" "lsn_is_valid (LSN 1)"
    "alloc_need_update_base (SCN (2 ^ 40)) alloc_example" by code_simp+
  have g2: "tail_raise (uint (scn_val (SCN (2 ^ 40)))) (alloc_abs alloc_example)
      = \<lparr> tail_off = 0, tail_id = 0, tail_scn = 2 ^ 40, tail_cut = True \<rparr>"
    "tail_off (snd (tail_grant (uint (scn_val (SCN (2 ^ 40)))) 100 \<lparr> tail_off = 0, tail_id = 0, tail_scn = 2 ^ 40, tail_cut = True \<rparr>)) = 148"
    by code_simp+
  show "\<exists>out' a'. alloc_lsn_scn (SCN (2 ^ 40)) 100 10 (LSN 1) alloc_example out_example = Some (OB_EAGAIN, out', a')
     \<and> alloc_abs a' = \<lparr> tail_off = 0, tail_id = 0, tail_scn = 2 ^ 40, tail_cut = True \<rparr>"
    using alloc_lsn_scn_refines [OF inv 2(1,2) v 2(3), of out_example] 2(4) g2 by auto
qed

subsection \<open>The invariant under every operation\<close>

lemma uint_delta28: "0 \<le> d \<Longrightarrow> d < LOG_ID_DELTA_UPPER_BOUND \<Longrightarrow> uint (word_of_int d :: 28 word) = d"
  by (intro uint_word_of_int_small) (simp_all add: alloc_consts)

lemma alloc_freeze_props:
  assumes "alloc_inv a"
  shows "try_freeze l i a = (OB_SUCCESS, LSN (meta_lsn_val (lsn_ts_meta a)), cur_log_id a,
      a \<lparr> lsn_ts_meta := (lsn_ts_meta a) \<lparr> is_need_cut := True \<rparr> \<rparr>)"
    and "snd (try_freeze_by_time l i a) = snd (try_freeze l i a)"
    and "alloc_inv (a \<lparr> lsn_ts_meta := (lsn_ts_meta a) \<lparr> is_need_cut := True \<rparr> \<rparr>)"
  using assms
  by (auto simp: try_freeze_def try_freeze_by_time_def alloc_inv_def Let_def tail_ok_def end_off_def)

lemma inc_update_scn_base_props:
  assumes inv: "alloc_inv a" and scn: "scn_is_valid s"
  shows "alloc_inv (snd (inc_update_scn_base s a))"
    and "alloc_abs (snd (inc_update_scn_base s a)) =
      (if tail_scn (alloc_abs a) > uint (scn_val s) then alloc_abs a
       else (alloc_abs a) \<lparr> tail_scn := uint (scn_val s), tail_cut := True \<rparr>)"
proof -
  have cs: "uint (scn_base a) + uint (scn_delta (lsn_ts_meta a)) < 2 ^ 62" and ini: "is_inited a"
    using inv by (simp_all add: alloc_inv_def)
  have gt: "cur_scn a > scn_val s \<longleftrightarrow> tail_scn (alloc_abs a) > uint (scn_val s)"
    by (simp add: word_less_def uint_cur_scn [OF cs] alloc_abs_def)
  show "alloc_inv (snd (inc_update_scn_base s a))"
    using inv scn uint_scn_small [OF scn]
    by (auto simp: inc_update_scn_base_def alloc_inv_def tail_ok_def end_off_def)
  show "alloc_abs (snd (inc_update_scn_base s a)) =
      (if tail_scn (alloc_abs a) > uint (scn_val s) then alloc_abs a
       else (alloc_abs a) \<lparr> tail_scn := uint (scn_val s), tail_cut := True \<rparr>)"
    using ini scn by (simp add: inc_update_scn_base_def gt) (simp add: alloc_abs_def end_off_def cur_log_id_def)
qed

text \<open>When neither bound is reached, the deltas against the bases are exact.\<close>

lemma inc_update_deltas:
  assumes inv: "alloc_inv a" and scn: "scn_is_valid s" and id: "cur_log_id a \<le> log_id"
    and small: "log_id - log_id_base a < LOG_ID_DELTA_UPPER_BOUND"
      "scn_val s - scn_base a < LOG_TS_DELTA_UPPER_BOUND"
  shows "log_id_base a + uint (word_of_int (log_id - log_id_base a) :: 28 word) = log_id"
    and "uint (scn_base a) + uint (ucast (scn_val s - scn_base a) :: 35 word) = uint (scn_val s)"
proof -
  have "0 \<le> uint (log_id_delta (lsn_ts_meta a))" by simp
  then have "0 \<le> log_id - log_id_base a" using id unfolding cur_log_id_def by linarith
  with small(1) show "log_id_base a + uint (word_of_int (log_id - log_id_base a) :: 28 word) = log_id"
    by (subst uint_delta28) simp_all
  have b: "uint (scn_base a) < 2 ^ 62"
    using inv uint_nonnegative [of "scn_delta (lsn_ts_meta a)"] unfolding alloc_inv_def by linarith
  have d: "uint (scn_val s - scn_base a) < 2 ^ 35 - 1000"
    using small(2) by (simp add: word_less_def uint_LOG_TS)
  have le: "uint (scn_base a) \<le> uint (scn_val s)"
  proof (rule ccontr)
    assume "\<not> ?thesis"
    then have "uint (scn_val s - scn_base a) = uint (scn_val s) - uint (scn_base a) + 2 ^ LENGTH(64)"
      by (simp add: uint_sub_if')
    with d b uint_nonnegative [of "scn_val s"] show False by simp
  qed
  then have "uint (scn_val s - scn_base a) = uint (scn_val s) - uint (scn_base a)" by (rule uint_sub_small)
  with d show "uint (scn_base a) + uint (ucast (scn_val s - scn_base a) :: 35 word) = uint (scn_val s)"
    by (subst uint_ucast_small) simp_all
qed

lemma inc_update_last_log_info_props:
  assumes inv: "alloc_inv a" and ok: "scn_is_valid s" "lsn_is_valid l" "log_id \<noteq> OB_INVALID_LOG_ID"
    and l: "tail_ok True (uint (lsn_val l) mod PALF_BLOCK_SIZE)"
  shows "alloc_inv (snd (inc_update_last_log_info l log_id s a))"
    and "alloc_abs (snd (inc_update_last_log_info l log_id s a)) =
      (if log_id < tail_id (alloc_abs a) \<or> uint (lsn_val l) < tail_off (alloc_abs a) then alloc_abs a
       else \<lparr> tail_off = uint (lsn_val l), tail_id = log_id, tail_scn = uint (scn_val s), tail_cut = True \<rparr>)"
proof -
  let ?a' = "snd (inc_update_last_log_info l log_id s a)"
  have ini: "is_inited a" using inv by (simp add: alloc_inv_def)
  have old: "log_id < cur_log_id a \<or> lsn_val l < meta_lsn_val (lsn_ts_meta a) \<longleftrightarrow>
      log_id < tail_id (alloc_abs a) \<or> uint (lsn_val l) < tail_off (alloc_abs a)"
    by (simp add: alloc_abs_def end_off_def word_less_def)
  have s: "uint (scn_val s) < 2 ^ 62" using uint_scn_small [OF ok(1)] by simp
  have "alloc_inv ?a' \<and> alloc_abs ?a' =
      \<lparr> tail_off = uint (lsn_val l), tail_id = log_id, tail_scn = uint (scn_val s), tail_cut = True \<rparr>"
    if new: "\<not> (log_id < cur_log_id a \<or> lsn_val l < meta_lsn_val (lsn_ts_meta a))"
  proof (cases "log_id - log_id_base a \<ge> LOG_ID_DELTA_UPPER_BOUND
            \<or> scn_val s - scn_base a \<ge> LOG_TS_DELTA_UPPER_BOUND")
    case True
    with new ini ok l s show ?thesis
      by (simp add: inc_update_last_log_info_def alloc_inv_def alloc_abs_def end_off_def cur_log_id_def)
  next
    case False
    with new have "cur_log_id a \<le> log_id" "log_id - log_id_base a < LOG_ID_DELTA_UPPER_BOUND"
      "scn_val s - scn_base a < LOG_TS_DELTA_UPPER_BOUND" by (simp_all add: not_le)
    note d = inc_update_deltas [OF inv ok(1) this]
    from False new ini ok l s show ?thesis
      by (simp add: inc_update_last_log_info_def alloc_inv_def alloc_abs_def end_off_def)
        (simp add: cur_log_id_def d [simplified])
  qed
  then show "alloc_inv ?a'" "alloc_abs ?a' =
      (if log_id < tail_id (alloc_abs a) \<or> uint (lsn_val l) < tail_off (alloc_abs a) then alloc_abs a
       else \<lparr> tail_off = uint (lsn_val l), tail_id = log_id, tail_scn = uint (scn_val s), tail_cut = True \<rparr>)"
    using old inv ini ok by (auto simp: inc_update_last_log_info_def)
qed

text \<open>
  C3. The operations that set the tail of the log keep the allocator well formed and do exactly
  what their names say on the abstract tail, although they store deltas of 28 and 35 bits:
  \<^verbatim>\<open>init\<close> and \<^verbatim>\<open>truncate\<close> move the tail to the given position, \<^verbatim>\<open>inc_update_last_log_info\<close>
  does so only forwards in log id and LSN, \<^verbatim>\<open>inc_update_scn_base\<close> only raises the SCN, and all of
  them close the current group log.
\<close>

theorem alloc_setters_exact:
  assumes "scn_is_valid s" "lsn_is_valid l" "log_id \<noteq> OB_INVALID_LOG_ID"
    and "tail_ok True (uint (lsn_val l) mod PALF_BLOCK_SIZE)" "alloc_inv a" "\<not> is_inited a0"
  defines "t \<equiv> \<lparr> tail_off = uint (lsn_val l), tail_id = log_id, tail_scn = uint (scn_val s), tail_cut = True \<rparr>"
  shows "(\<exists>a'. alloc_init log_id s l a0 = (OB_SUCCESS, a') \<and> alloc_inv a' \<and> alloc_abs a' = t)
   \<and> (\<exists>a'. alloc_truncate l log_id s a = (OB_SUCCESS, a') \<and> alloc_inv a' \<and> alloc_abs a' = t)
   \<and> (\<exists>a'. inc_update_last_log_info l log_id s a = (OB_SUCCESS, a') \<and> alloc_inv a' \<and>
         alloc_abs a' = (if log_id < tail_id (alloc_abs a) \<or> uint (lsn_val l) < tail_off (alloc_abs a)
                         then alloc_abs a else t))
   \<and> (\<exists>a'. inc_update_scn_base s a = (OB_SUCCESS, a') \<and> alloc_inv a' \<and>
         alloc_abs a' = (if tail_scn (alloc_abs a) > uint (scn_val s) then alloc_abs a
                         else (alloc_abs a) \<lparr> tail_scn := uint (scn_val s), tail_cut := True \<rparr>))"
proof (intro conjI)
  have s: "uint (scn_val s) < 2 ^ 62" using uint_scn_small [OF assms(1)] by simp
  have ini: "is_inited a" using assms(5) by (simp add: alloc_inv_def)
  note set_defs = alloc_inv_def alloc_abs_def end_off_def cur_log_id_def t_def
  show "\<exists>a'. alloc_init log_id s l a0 = (OB_SUCCESS, a') \<and> alloc_inv a' \<and> alloc_abs a' = t"
    using assms(1-4,6) s by (simp add: alloc_init_def set_defs)
  show "\<exists>a'. alloc_truncate l log_id s a = (OB_SUCCESS, a') \<and> alloc_inv a' \<and> alloc_abs a' = t"
    using assms(1-4) ini s by (simp add: alloc_truncate_def set_defs)
  have "fst (inc_update_last_log_info l log_id s a) = OB_SUCCESS"
    using assms(1-3) ini by (simp add: inc_update_last_log_info_def)
  then show "\<exists>a'. inc_update_last_log_info l log_id s a = (OB_SUCCESS, a') \<and> alloc_inv a' \<and>
         alloc_abs a' = (if log_id < tail_id (alloc_abs a) \<or> uint (lsn_val l) < tail_off (alloc_abs a)
                         then alloc_abs a else t)"
    using inc_update_last_log_info_props [OF assms(5,1-4)]
    by (cases "inc_update_last_log_info l log_id s a") (simp add: t_def)
  have "fst (inc_update_scn_base s a) = OB_SUCCESS"
    using assms(1) ini by (simp add: inc_update_scn_base_def)
  then show "\<exists>a'. inc_update_scn_base s a = (OB_SUCCESS, a') \<and> alloc_inv a' \<and>
         alloc_abs a' = (if tail_scn (alloc_abs a) > uint (scn_val s) then alloc_abs a
                         else (alloc_abs a) \<lparr> tail_scn := uint (scn_val s), tail_cut := True \<rparr>)"
    using inc_update_scn_base_props [OF assms(5,1)] by (cases "inc_update_scn_base s a") simp
qed

theorem alloc_setters_witness:
  "\<exists>a'. inc_update_last_log_info (LSN 70000000) 400000000 (SCN 99000000000000) alloc_example = (OB_SUCCESS, a')
     \<and> alloc_inv a' \<and> tail_id (alloc_abs a') = 400000000"
proof -
  have 1: "scn_is_valid (SCN 99000000000000)" "lsn_is_valid (LSN 70000000)"
    "tail_ok True (uint (lsn_val (LSN 70000000)) mod PALF_BLOCK_SIZE)" "alloc_inv alloc_example"
    "\<not> is_inited alloc_reset" by code_simp+
  have 2: "(400000000::int) \<noteq> OB_INVALID_LOG_ID" by (simp add: palf_consts)
  have 3: "\<not> (400000000 < tail_id (alloc_abs alloc_example))"
    "\<not> (uint (lsn_val (LSN 70000000)) < tail_off (alloc_abs alloc_example))" by code_simp+
  show ?thesis using alloc_setters_exact [OF 1(1,2) 2 1(3,4,5)] 3 by auto
qed

text \<open>
  C4. A freeze closes the group: \<^verbatim>\<open>try_freeze\<close> and \<^verbatim>\<open>try_freeze_by_time\<close> return the end of the
  log and the last log id, leave both alone, and the next granted entry starts a new group log
  at that very LSN (behind a padding entry, if one is needed) with the next log id; freezing
  twice changes nothing, and \<^verbatim>\<open>try_freeze_by_time\<close> then reports \<^verbatim>\<open>OB_STATE_NOT_MATCH\<close>.
\<close>

theorem freeze_closes_group:
  assumes "alloc_inv a" "alloc_room base a" "try_freeze l i a = (r, last_lsn, last_log_id, a1)"
    and "alloc_lsn_scn base sz ub lb a1 out = Some (OB_SUCCESS, out', a2)" "size_ok sz"
  shows "r = OB_SUCCESS \<and> uint (lsn_val last_lsn) = tail_off (alloc_abs a) \<and> last_log_id = tail_id (alloc_abs a)
    \<and> is_new_group_log out' \<and> out_lsn out' = last_lsn \<and> out_log_id out' = last_log_id + 1
    \<and> try_freeze l i a1 = (OB_SUCCESS, last_lsn, last_log_id, a1)
    \<and> try_freeze_by_time l i a1 = (OB_STATE_NOT_MATCH, last_lsn, last_log_id, a1)
    \<and> try_freeze_by_time l i a = (if is_need_cut (lsn_ts_meta a) then OB_STATE_NOT_MATCH else OB_SUCCESS, last_lsn, last_log_id, a1)"
proof -
  note f = alloc_freeze_props [OF assms(1)]
  have a1: "r = OB_SUCCESS" "last_lsn = LSN (meta_lsn_val (lsn_ts_meta a))" "last_log_id = cur_log_id a"
    "a1 = a \<lparr> lsn_ts_meta := (lsn_ts_meta a) \<lparr> is_need_cut := True \<rparr> \<rparr>"
    using assms(3) f(1) by simp_all
  have inv: "alloc_inv a1" and ini: "is_inited a1" using f(3) by (simp_all add: a1 alloc_inv_def)
  have room: "alloc_room base a1" using assms(2) by (simp add: a1 alloc_room_def end_off_def)
  have spec: "alloc_spec (uint (scn_val base)) sz (alloc_abs a1) out' (alloc_abs a2)"
    by (rule alloc_call_props(2) [OF inv room assms(5,4)]) simp
  have "lsn_val (out_lsn out') = meta_lsn_val (lsn_ts_meta a)"
    using spec by (simp add: alloc_spec_def alloc_abs_def end_off_def a1 word_uint_eq_iff)
  then have lsn: "out_lsn out' = last_lsn" by (simp add: a1 LSN.expand)
  have new: "is_new_group_log out'" "out_log_id out' = last_log_id + 1"
    using spec by (simp_all add: alloc_spec_def alloc_abs_def a1 cur_log_id_def)
  have "try_freeze l i a1 = (OB_SUCCESS, last_lsn, last_log_id, a1)"
    "try_freeze_by_time l i a1 = (OB_STATE_NOT_MATCH, last_lsn, last_log_id, a1)"
    using ini by (simp_all add: try_freeze_def try_freeze_by_time_def a1 cur_log_id_def Let_def)
  moreover have "fst (try_freeze_by_time l i a) = (if is_need_cut (lsn_ts_meta a) then OB_STATE_NOT_MATCH else OB_SUCCESS)"
    using assms(1) by (simp add: try_freeze_by_time_def alloc_inv_def Let_def)
  moreover have "snd (try_freeze_by_time l i a) = (last_lsn, last_log_id, a1)"
    using f(2) assms(3) by simp
  ultimately show ?thesis
    using lsn new by (simp add: a1 alloc_abs_def end_off_def prod_eq_iff)
qed

definition alloc_open_example :: LSNAllocator where
  "alloc_open_example = snd (snd (alloc_try (SCN 2000) 100 10 (LSN 100000) alloc_example out_example))"

theorem freeze_closes_group_witness:
  "\<not> is_need_cut (lsn_ts_meta alloc_open_example)
   \<and> (\<exists>out' a2. alloc_lsn_scn (SCN 2000) 100 10 (LSN 100000) (snd (snd (snd (try_freeze (LSN 0) 0 alloc_open_example)))) out_example
     = Some (OB_SUCCESS, out', a2) \<and> is_new_group_log out' \<and> out_lsn out' = LSN 148 \<and> out_log_id out' = 2)"
proof
  let ?a1 = "snd (snd (snd (try_freeze (LSN 0) 0 alloc_open_example)))"
  show "\<not> is_need_cut (lsn_ts_meta alloc_open_example)" by code_simp
  have f: "try_freeze (LSN 0) 0 alloc_open_example = (OB_SUCCESS, LSN 148, 1, ?a1)" by code_simp
  have pre: "alloc_inv alloc_open_example" "alloc_room (SCN 2000) alloc_open_example" "size_ok 100" by code_simp+
  have ok: "\<not> alloc_need_update_base (SCN 2000) ?a1"
    "fst (alloc_try (SCN 2000) 100 10 (LSN 100000) ?a1 out_example) = OB_SUCCESS" "is_inited ?a1"
    "scn_is_valid (SCN 2000)" "lsn_is_valid (LSN 100000)" by code_simp+
  obtain out' a2 where c: "alloc_lsn_scn (SCN 2000) 100 10 (LSN 100000) ?a1 out_example = Some (OB_SUCCESS, out', a2)"
    using ok by (cases "alloc_try (SCN 2000) 100 10 (LSN 100000) ?a1 out_example")
      (simp add: alloc_lsn_scn_def alloc_loop.simps)
  show "\<exists>out' a2. alloc_lsn_scn (SCN 2000) 100 10 (LSN 100000) ?a1 out_example
     = Some (OB_SUCCESS, out', a2) \<and> is_new_group_log out' \<and> out_lsn out' = LSN 148 \<and> out_log_id out' = 2"
    using freeze_closes_group [OF pre(1,2) f c pre(3)] c by auto
qed

text \<open>
  C24. The branch the code marks as unexpected (an open group log that ends on a 2MB boundary)
  loses its error: the iteration goes on, the later conversion of the SCN overwrites the return
  code, and the call reports success after moving the end of the log back to the start of the
  block. No well-formed allocator is in that state.
\<close>

theorem alloc_unexpected_code_lost:
  assumes "is_inited a" "\<not> is_need_cut (lsn_ts_meta a)"
    and "0 < end_off a mod PALF_BLOCK_SIZE" "end_off a mod PALF_BLOCK_SIZE mod LOG_CUT_TRIGGER = 0"
    and "\<not> alloc_need_update_base base a" "alloc_room base a" "0 < sz" "scn_is_valid base"
    and "0 < ub" "cur_log_id a \<le> ub" "lsn_is_valid lb" "end_off a \<le> uint (lsn_val lb)"
  shows "(\<exists>out' a'. alloc_lsn_scn base sz ub lb a out = Some (OB_SUCCESS, out', a')
      \<and> end_off a' = end_off a - end_off a mod PALF_BLOCK_SIZE) \<and> \<not> alloc_inv a"
proof
  show "\<not> alloc_inv a" using assms(2,4) by (simp add: alloc_inv_def tail_ok_def)
  let ?B = PALF_BLOCK_SIZE
  note conv = tmp_next_scn_converts [OF assms(6)]
  have pl: "alloc_place False (end_off a mod ?B) sz = (OB_ERR_UNEXPECTED, False, 0, False)"
    using assms(3,4) by (simp add: alloc_place_def in_cut_mod)
  have fit: "alloc_fit (end_off a mod ?B) sz False 0 False = (False, False, 0, 0, 0, False)"
    by (simp add: alloc_fit_def palf_consts)
  have bk: "(end_off a div ?B) * ?B = end_off a - end_off a mod ?B" by (simp add: minus_mod_eq_div_mult)
  have pos: "0 \<le> (end_off a div ?B) * ?B" by (simp add: end_off_def palf_consts pos_imp_zdiv_nonneg_iff)
  have "end_off a < 2 ^ LENGTH(64)" unfolding end_off_def by (rule unsigned_less)
  with pos bk assms(3) have u: "uint (word_of_int ((end_off a div ?B) * ?B) :: 64 word) = (end_off a div ?B) * ?B"
    by (intro uint_word_of_int_small) simp_all
  have bound: "\<not> lb < LSN (word_of_int ((end_off a div ?B) * ?B))"
    unfolding lsn_less_iff word_less_def LSN.sel u using assms(3,12) bk by linarith
  obtain out' a' where t: "alloc_try base sz ub lb a out = (OB_SUCCESS, out', a')"
    and a': "lsn_ts_meta a' = (lsn_ts_meta a') \<lparr> meta_lsn_val := word_of_int ((end_off a div ?B) * ?B) \<rparr>"
    unfolding alloc_try_def Let_def tail_block tail_offset end_off_def [symmetric]
    using assms(2,10) bound by (simp add: pl fit conv)
  have "meta_lsn_val (lsn_ts_meta a') = word_of_int ((end_off a div ?B) * ?B)"
    by (subst a') simp
  then have "end_off a' = end_off a - end_off a mod ?B" unfolding end_off_def [of a'] using u bk by simp
  moreover have "alloc_lsn_scn base sz ub lb a out = Some (OB_SUCCESS, out', a')"
    using t assms by (simp add: alloc_lsn_scn_def alloc_loop.simps)
  ultimately show "\<exists>out' a'. alloc_lsn_scn base sz ub lb a out = Some (OB_SUCCESS, out', a')
      \<and> end_off a' = end_off a - end_off a mod ?B" by blast
qed

theorem alloc_unexpected_code_lost_witness:
  "\<exists>out' a'. alloc_lsn_scn (SCN 2000) 100 10 (LSN 100000000)
      (alloc_example \<lparr> lsn_ts_meta := \<lparr> is_need_cut = False, log_id_delta = 0, scn_delta = 0, meta_lsn_val = 2097152 \<rparr> \<rparr>)
      out_example = Some (OB_SUCCESS, out', a') \<and> end_off a' = 0"
proof -
  let ?a = "alloc_example \<lparr> lsn_ts_meta := \<lparr> is_need_cut = False, log_id_delta = 0, scn_delta = 0, meta_lsn_val = 2097152 \<rparr> \<rparr>"
  have 1: "is_inited ?a" "\<not> is_need_cut (lsn_ts_meta ?a)" by code_simp+
  have 2: "0 < end_off ?a mod PALF_BLOCK_SIZE" "end_off ?a mod PALF_BLOCK_SIZE mod LOG_CUT_TRIGGER = 0" by code_simp+
  have 3: "\<not> alloc_need_update_base (SCN 2000) ?a" "alloc_room (SCN 2000) ?a" by code_simp+
  have 4: "(0::int) < 100" "scn_is_valid (SCN 2000)" "(0::int) < 10" "cur_log_id ?a \<le> 10" by code_simp+
  have 5: "lsn_is_valid (LSN 100000000)" "end_off ?a \<le> uint (lsn_val (LSN 100000000))" by code_simp+
  have 6: "end_off ?a - end_off ?a mod PALF_BLOCK_SIZE = 0" by code_simp
  show ?thesis using alloc_unexpected_code_lost [OF 1 2 3 4 5, of out_example] unfolding 6 by blast
qed

subsection \<open>Histories of allocations\<close>

text \<open>
  The interface the rest of the log service relies on: a source of extents. A step either is
  silent or hands out an element; the element occupies the bytes from the old end of the log
  to the new one, and its stamp lies above the clock before and not above the clock behind.
\<close>

inductive history :: "('s \<Rightarrow> 'e option \<Rightarrow> 's \<Rightarrow> bool) \<Rightarrow> 's \<Rightarrow> 'e list \<Rightarrow> 's \<Rightarrow> bool"
  for step :: "'s \<Rightarrow> 'e option \<Rightarrow> 's \<Rightarrow> bool"
where
  stop: "history step s [] s"
| silent: "step s None s' \<Longrightarrow> history step s' es t \<Longrightarrow> history step s es t"
| handed: "step s (Some e) s' \<Longrightarrow> history step s' es t \<Longrightarrow> history step s (e # es) t"

locale extent_source =
  fixes step :: "'s \<Rightarrow> 'e option \<Rightarrow> 's \<Rightarrow> bool"
    and good :: "'s \<Rightarrow> bool"
    and top :: "'s \<Rightarrow> int" and clock :: "'s \<Rightarrow> int"
    and lo :: "'e \<Rightarrow> int" and hi :: "'e \<Rightarrow> int" and stamp :: "'e \<Rightarrow> int"
  assumes keeps: "good s \<Longrightarrow> step s ev s' \<Longrightarrow> good s'"
    and silent_step: "good s \<Longrightarrow> step s None s' \<Longrightarrow> top s' = top s \<and> clock s \<le> clock s'"
    and extent: "good s \<Longrightarrow> step s (Some e) s' \<Longrightarrow> lo e = top s \<and> lo e < hi e \<and> hi e = top s'"
    and stamped: "good s \<Longrightarrow> step s (Some e) s' \<Longrightarrow> clock s < stamp e \<and> stamp e \<le> clock s'"
begin

lemma history_good: "history step s es t \<Longrightarrow> good s \<Longrightarrow> good t"
  by (induction rule: history.induct) (auto intro: keeps)

lemma history_bounds:
  "history step s es t \<Longrightarrow> good s \<Longrightarrow>
    top s \<le> top t \<and> clock s \<le> clock t \<and>
    (\<forall>e \<in> set es. top s \<le> lo e \<and> lo e < hi e \<and> hi e \<le> top t \<and> clock s < stamp e \<and> stamp e \<le> clock t)"
proof (induction rule: history.induct)
  case (silent s s' es t)
  then show ?case using silent_step [of s s'] keeps [of s None s'] by force
next
  case (handed s e s' es t)
  then show ?case using extent [of s e s'] stamped [of s e s'] keeps [of s "Some e" s'] by force
qed simp

lemma history_sorted:
  "history step s es t \<Longrightarrow> good s \<Longrightarrow> sorted_wrt (\<lambda>e f. hi e \<le> lo f \<and> stamp e < stamp f) es"
proof (induction rule: history.induct)
  case (silent s s' es t)
  then show ?case using keeps by blast
next
  case (handed s e s' es t)
  then have g: "good s'" using keeps by blast
  with handed history_bounds [of s' es t] extent [of s e s'] stamped [of s e s']
  show ?case by auto
qed simp

lemma history_tiles:
  "history step s es t \<Longrightarrow> good s \<Longrightarrow> (\<Union>e \<in> set es. {lo e..<hi e}) = {top s..<top t}"
proof (induction rule: history.induct)
  case (silent s s' es t)
  then show ?case using silent_step [of s s'] keeps [of s None s'] by simp
next
  case (handed s e s' es t)
  then have g: "good s'" using keeps by blast
  have "top s' \<le> top t" using history_bounds [OF handed.hyps(2) g] by simp
  with handed g extent [of s e s'] show ?case by (auto simp: ivl_disj_un_two(3))
qed simp

end

text \<open>
  The operations a leader mixes on its allocator: grants and refused requests, freezes, and
  raising the SCN base. An event carries the size asked for and what was granted.
\<close>

type_synonym alloc_event = "int \<times> alloc_out"

inductive alloc_step :: "LSNAllocator \<Rightarrow> alloc_event option \<Rightarrow> LSNAllocator \<Rightarrow> bool" where
  grant: "alloc_lsn_scn base sz ub lb a out = Some (OB_SUCCESS, out', a') \<Longrightarrow>
    alloc_room base a \<Longrightarrow> size_ok sz \<Longrightarrow> alloc_step a (Some (sz, out')) a'"
| refuse: "alloc_lsn_scn base sz ub lb a out = Some (r, out', a') \<Longrightarrow> r \<noteq> OB_SUCCESS \<Longrightarrow>
    alloc_room base a \<Longrightarrow> size_ok sz \<Longrightarrow> alloc_step a None a'"
| freeze: "try_freeze l i a = (r, l', i', a') \<Longrightarrow> alloc_step a None a'"
| freeze_by_time: "try_freeze_by_time l i a = (r, l', i', a') \<Longrightarrow> alloc_step a None a'"
| raise_scn: "inc_update_scn_base s a = (r, a') \<Longrightarrow> alloc_step a None a'"

inductive_cases alloc_step_someE: "alloc_step a (Some ev) a'"

definition ev_lo :: "alloc_event \<Rightarrow> int" where "ev_lo ev = uint (lsn_val (out_lsn (snd ev)))"

definition ev_hi :: "alloc_event \<Rightarrow> int" where
  "ev_hi ev = ev_lo ev + padding_len (snd ev)
     + (if is_new_group_log (snd ev) then GROUP_HEADER_SER_SIZE else 0) + fst ev"

definition ev_scn :: "alloc_event \<Rightarrow> int" where "ev_scn ev = uint (scn_val (out_scn (snd ev)))"

lemma alloc_silent:
  assumes inv: "alloc_inv a" and step: "alloc_step a None a'"
  shows "alloc_inv a' \<and> end_off a' = end_off a \<and> tail_scn (alloc_abs a) \<le> tail_scn (alloc_abs a')"
  using step
proof cases
  case (refuse base sz ub lb out r out')
  then show ?thesis
    using alloc_call_props [OF inv] by (metis alloc_abs_def log_tail.select_convs(1))
next
  case (freeze l i r l' i')
  then show ?thesis using alloc_freeze_props [OF inv] by (auto simp: end_off_def alloc_abs_def)
next
  case (freeze_by_time l i r l' i')
  then have "a' = snd (snd (snd (try_freeze l i a)))"
    using alloc_freeze_props(2) [OF inv, of l i] by (metis snd_conv)
  then show ?thesis using alloc_freeze_props [OF inv] by (simp add: end_off_def alloc_abs_def)
next
  case (raise_scn s r)
  show ?thesis
  proof (cases "scn_is_valid s")
    case True
    have a': "a' = snd (inc_update_scn_base s a)" using raise_scn by simp
    have "end_off a' = end_off a" by (auto simp: a' inc_update_scn_base_def end_off_def)
    then show ?thesis using inc_update_scn_base_props [OF inv True] by (simp add: a')
  next
    case False
    with raise_scn inv show ?thesis by (simp add: inc_update_scn_base_def alloc_inv_def)
  qed
qed

interpretation tail: extent_source alloc_step alloc_inv end_off "\<lambda>a. tail_scn (alloc_abs a)" ev_lo ev_hi ev_scn
proof unfold_locales
  fix a ev a' assume inv: "alloc_inv a" and step: "alloc_step a ev a'"
  then show "alloc_inv a'"
    by (cases ev) (auto simp: alloc_silent elim!: alloc_step_someE intro: alloc_call_props(1) [OF inv])
next
  fix a a' assume "alloc_inv a" "alloc_step a None a'"
  then show "end_off a' = end_off a \<and> tail_scn (alloc_abs a) \<le> tail_scn (alloc_abs a')"
    using alloc_silent by blast
next
  fix a e a' assume inv: "alloc_inv a" and step: "alloc_step a (Some e) a'"
  then obtain sz out' base where e: "e = (sz, out')" and sz: "size_ok sz"
    and spec: "alloc_spec (uint (scn_val base)) sz (alloc_abs a) out' (alloc_abs a')"
    by (auto elim!: alloc_step_someE dest: alloc_call_props(2) [OF inv])
  have pos: "0 \<le> padding_len out'" "0 < sz"
    using spec sz by (auto simp: alloc_spec_def size_ok_def palf_consts split: if_splits)
  have H: "0 < GROUP_HEADER_SER_SIZE" by (simp add: alloc_consts)
  show "ev_lo e = end_off a \<and> ev_lo e < ev_hi e \<and> ev_hi e = end_off a'"
    using spec pos H by (simp add: e ev_lo_def ev_hi_def alloc_spec_def alloc_abs_def)
  show "tail_scn (alloc_abs a) < ev_scn e \<and> ev_scn e \<le> tail_scn (alloc_abs a')"
    using spec by (simp add: e ev_scn_def alloc_spec_def)
qed

text \<open>
  C2. Over any history of grants, refusals, freezes and SCN raises, the granted entries with
  their headers and paddings tile the log: they are pairwise disjoint, in order, and together
  cover every byte from the first to the last end of the log, and their SCNs are strictly
  increasing in the same order.
\<close>

theorem alloc_history_tiles_log:
  assumes "alloc_inv a" "history alloc_step a es a'"
  shows "alloc_inv a'
    \<and> sorted_wrt (\<lambda>e f. ev_hi e \<le> ev_lo f \<and> ev_scn e < ev_scn f) es
    \<and> (\<Union>e \<in> set es. {ev_lo e..<ev_hi e}) = {end_off a..<end_off a'}"
  using tail.history_good [OF assms(2,1)] tail.history_sorted [OF assms(2,1)]
    tail.history_tiles [OF assms(2,1)] by blast

lemma alloc_call_now:
  assumes "is_inited a" "size_ok sz" "scn_is_valid base" "0 < ub" "lsn_is_valid lb"
    and "\<not> alloc_need_update_base base a" "fst (alloc_try base sz ub lb a out) = OB_SUCCESS" "alloc_room base a"
  defines "t \<equiv> snd (alloc_try base sz ub lb a out)"
  shows "alloc_step a (Some (sz, fst t)) (snd t)"
proof (rule alloc_step.grant)
  show "alloc_lsn_scn base sz ub lb a out = Some (OB_SUCCESS, fst t, snd t)"
    using assms by (simp add: alloc_lsn_scn_def alloc_loop.simps size_ok_def prod_eq_iff)
qed fact+

theorem alloc_history_tiles_log_witness:
  "\<exists>e f a'. history alloc_step alloc_example [e, f] a' \<and> ev_hi e \<le> ev_lo f \<and> ev_scn e < ev_scn f"
proof -
  define t1 where "t1 = snd (alloc_try (SCN 2000) 100 10 (LSN 100000) alloc_example out_example)"
  define t2 where "t2 = snd (alloc_try (SCN 2000) 700 10 (LSN 100000) (snd t1) out_example)"
  have args: "size_ok 100" "size_ok 700" "scn_is_valid (SCN 2000)" "lsn_is_valid (LSN 100000)" "0 < (10::int)"
    by code_simp+
  have 1: "alloc_step alloc_example (Some (100, fst t1)) (snd t1)"
    unfolding t1_def by (rule alloc_call_now) (fact args | code_simp)+
  have 2: "alloc_step (snd t1) (Some (700, fst t2)) (snd t2)"
    unfolding t2_def by (rule alloc_call_now) (fact args | (unfold t1_def, code_simp) | code_simp)+
  have h: "history alloc_step alloc_example [(100, fst t1), (700, fst t2)] (snd t2)"
    using 1 2 by (auto intro: history.intros)
  have inv: "alloc_inv alloc_example" by code_simp
  from alloc_history_tiles_log [OF inv h]
  have "ev_hi (100, fst t1) \<le> ev_lo (700, fst t2) \<and> ev_scn (100, fst t1) < ev_scn (700, fst t2)" by simp
  with h show ?thesis by blast
qed

end
