(* ===== verification/Ob_Crc.thy ===== *)
theory Ob_Crc
  imports Ob_Crc_Tables
begin

section \<open>Checksums: \<^verbatim>\<open>oblib/lib/checksum\<close>\<close>

text \<open>
  \<^verbatim>\<open>ob_crc64\<close> is a CRC-32C over bytes with three implementations behind a function pointer:
  the CPU instruction, a table per byte, and eight tables per eight bytes. Modelled are the three. The instruction is
  modelled by its definition, the reflected division by the CRC-32C polynomial of the low
  32 bits of the register and the operand; the address of the buffer, on which the
  instruction loop aligns itself, is an argument. The two routines for the polynomial
  \<^verbatim>\<open>0xD800000000000000\<close> (\<^verbatim>\<open>s_crc64_table\<close>) are not reached by \<^verbatim>\<open>ob_crc64\<close> and are not modelled.
\<close>

subsection \<open>The CPU instruction\<close>

definition crc32_u8 :: "64 word \<Rightarrow> byte \<Rightarrow> 64 word" where
  "crc32_u8 crc x = crc_iter 1 (take_bit 32 crc XOR zext8 x)"

definition crc32_u64 :: "64 word \<Rightarrow> 64 word \<Rightarrow> 64 word" where
  "crc32_u64 crc v = crc_iter 8 (take_bit 32 crc XOR v)"

fun crc_align_loop :: "nat \<Rightarrow> 64 word \<Rightarrow> byte list \<Rightarrow> 64 word \<times> byte list" where
  "crc_align_loop addr crc [] = (crc, [])"
| "crc_align_loop addr crc (x # xs) =
     (if addr mod 8 \<noteq> 0 then crc_align_loop (addr + 1) (crc32_u8 crc x) xs else (crc, x # xs))"

definition crc32_sse42_quadword :: "64 word \<times> byte list \<Rightarrow> 64 word \<times> byte list" where
  "crc32_sse42_quadword s = (crc32_u64 (fst s) (le_word (take 8 (snd s))), drop 8 (snd s))"

function crc_quad4_loop :: "64 word \<times> byte list \<Rightarrow> 64 word \<times> byte list" where
  "crc_quad4_loop s =
     (if length (snd s) \<ge> 32
      then crc_quad4_loop (crc32_sse42_quadword (crc32_sse42_quadword
             (crc32_sse42_quadword (crc32_sse42_quadword s))))
      else s)"
  by pat_completeness auto
termination
  by (relation "measure (length \<circ> snd)") (auto simp: crc32_sse42_quadword_def)

function crc_quad_loop :: "64 word \<times> byte list \<Rightarrow> 64 word \<times> byte list" where
  "crc_quad_loop s =
     (if length (snd s) \<ge> 8 then crc_quad_loop (crc32_sse42_quadword s) else s)"
  by pat_completeness auto
termination
  by (relation "measure (length \<circ> snd)") (auto simp: crc32_sse42_quadword_def)

declare crc_quad4_loop.simps [simp del] crc_quad_loop.simps [simp del]

fun crc_byte_loop :: "64 word \<Rightarrow> byte list \<Rightarrow> 64 word" where
  "crc_byte_loop crc [] = crc"
| "crc_byte_loop crc (x # xs) = crc_byte_loop (crc32_u8 crc x) xs"

definition crc64_sse42 :: "nat \<Rightarrow> 64 word \<Rightarrow> cbuf \<Rightarrow> int \<Rightarrow> 64 word" where
  "crc64_sse42 addr uCRC64 buf len =
     (case buf of
        None \<Rightarrow> uCRC64
      | Some b \<Rightarrow>
          if len > 0
          then (case crc_quad_loop (crc_quad4_loop (crc_align_loop addr uCRC64 (take (nat len) b))) of
                  (crc, rest) \<Rightarrow> crc_byte_loop crc rest)
          else uCRC64)"

subsection \<open>The table-driven routines\<close>

fun crc_manual_loop :: "64 word \<Rightarrow> byte list \<Rightarrow> 64 word" where
  "crc_manual_loop crc [] = crc"
| "crc_manual_loop crc (x # xs) =
     crc_manual_loop (crc32tab ! unat ((crc XOR scast x) AND 0xff) XOR drop_bit 8 crc) xs"

definition crc64_sse42_manually :: "64 word \<Rightarrow> byte list \<Rightarrow> int \<Rightarrow> 64 word" where
  "crc64_sse42_manually crc buf len = crc_manual_loop crc (take (nat len) buf)"

definition crc_slice8 :: "64 word \<Rightarrow> byte list \<Rightarrow> 64 word" where
  "crc_slice8 localCrc bs =
     (let c0 = scast (bs ! 0) XOR localCrc; l1 = drop_bit 8 localCrc;
          c1 = scast (bs ! 1) XOR l1; l2 = drop_bit 8 l1;
          c2 = scast (bs ! 2) XOR l2; l3 = drop_bit 8 l2;
          c3 = scast (bs ! 3) XOR l3;
          l = (T8_7 ! unat (c0 AND 0xff) XOR T8_6 ! unat (c1 AND 0xff))
              XOR (T8_5 ! unat (c2 AND 0xff) XOR T8_4 ! unat (c3 AND 0xff));
          d3 = T8_3 ! unat (scast (bs ! 4) AND (0xff :: 64 word));
          d2 = T8_2 ! unat (scast (bs ! 5) AND (0xff :: 64 word));
          d1 = T8_1 ! unat (scast (bs ! 6) AND (0xff :: 64 word));
          d0 = T8_0 ! unat (scast (bs ! 7) AND (0xff :: 64 word))
      in l XOR ((d3 XOR d2) XOR (d1 XOR d0)))"

fun crc_slice_tail :: "64 word \<Rightarrow> byte list \<Rightarrow> 64 word" where
  "crc_slice_tail localCrc [] = localCrc"
| "crc_slice_tail localCrc (x # xs) =
     crc_slice_tail (drop_bit 8 localCrc XOR T8_0 ! unat ((localCrc XOR scast x) AND 0xff)) xs"

function crc_slice_loop :: "64 word \<Rightarrow> byte list \<Rightarrow> 64 word" where
  "crc_slice_loop localCrc bs =
     (if length bs > 7 then crc_slice_loop (crc_slice8 localCrc bs) (drop 8 bs)
      else crc_slice_tail localCrc bs)"
  by pat_completeness auto
termination
  by (relation "measure (length \<circ> snd)") auto

declare crc_slice_loop.simps [simp del]

definition fast_crc64_sse42_manually :: "64 word \<Rightarrow> byte list \<Rightarrow> int \<Rightarrow> 64 word" where
  "fast_crc64_sse42_manually crc buf len = take_bit 32 (crc_slice_loop crc (take (nat len) buf))"

text \<open>\<^verbatim>\<open>ob_crc64\<close> calls through a pointer that the first call sets from the CPU's features.\<close>

definition ob_crc64 :: "bool \<Rightarrow> nat \<Rightarrow> 64 word \<Rightarrow> byte list \<Rightarrow> 64 word" where
  "ob_crc64 has_sse42 addr uCRC64 b =
     (if has_sse42 then crc64_sse42 addr uCRC64 (Some b) (int (length b))
      else fast_crc64_sse42_manually uCRC64 b (int (length b)))"

subsection \<open>The reference: byte by byte\<close>

text \<open>All three compute the fold of one byte step over the data.\<close>

definition crc_ref :: "64 word \<Rightarrow> byte list \<Rightarrow> 64 word" where
  "crc_ref crc bs = foldl (\<lambda>c x. crc_step8 (c XOR zext8 x)) crc bs"

lemma crc_ref_simps [simp]:
  "crc_ref c [] = c" "crc_ref c (x # xs) = crc_ref (crc_step8 (c XOR zext8 x)) xs"
  "crc_ref c (xs @ ys) = crc_ref (crc_ref c xs) ys"
  by (simp_all add: crc_ref_def)

abbreviation crc32_ok :: "64 word \<Rightarrow> bool" where
  "crc32_ok c \<equiv> take_bit 32 c = c"

lemma bit_crc32_ok: "crc32_ok c \<Longrightarrow> bit c n \<Longrightarrow> n < 32"
  by (metis bit_take_bit_iff)

lemma bit_poly: "bit (0x82f63b78 :: 64 word) n \<Longrightarrow> n < 32"
proof -
  have "take_bit 32 (0x82f63b78 :: 64 word) = 0x82f63b78" by (simp add: take_bit_eq_mod)
  then show "bit (0x82f63b78 :: 64 word) n \<Longrightarrow> n < 32" by (rule bit_crc32_ok)
qed

lemma crc32_okI: "(\<And>n. bit c n \<Longrightarrow> n < 32) \<Longrightarrow> crc32_ok c"
  by (rule bit_word_eqI) (auto simp: bit_take_bit_iff)

lemma crc32_ok_bit: "crc32_ok c \<Longrightarrow> crc32_ok (crc_bit c)"
proof (rule crc32_okI)
  fix n assume c: "crc32_ok c" and b: "bit (crc_bit c) n"
  from b have "bit (0x82f63b78 :: 64 word) n \<or> bit c (1 + n)"
    unfolding crc_bit_def by (cases "bit c 0") (simp_all only: if_True if_False bit_xor_iff bit_drop_bit_eq comp_apply, auto)
  then show "n < 32" using bit_poly bit_crc32_ok [OF c, of "1 + n"] by auto
qed

lemma crc32_ok_step [intro]: "crc32_ok c \<Longrightarrow> crc32_ok (crc_step8 (c XOR zext8 x))"
proof -
  assume "crc32_ok c"
  then have "crc32_ok (c XOR zext8 x)"
    by (intro crc32_okI) (auto simp: bit_xor_iff bit_zext8 dest: bit_crc32_ok)
  then show ?thesis by (simp add: crc_step8_def crc32_ok_bit)
qed

lemma crc32_ok_ref [intro]: "crc32_ok c \<Longrightarrow> crc32_ok (crc_ref c bs)"
  by (induction bs arbitrary: c) auto

text \<open>A step over a register whose low byte is clear shifts it.\<close>

lemma crc_bit_drop: "\<not> bit c k \<Longrightarrow> crc_bit (drop_bit k c) = drop_bit (k + 1) c"
  by (simp add: crc_bit_def bit_drop_bit_eq drop_bit_drop_bit add.commute del: bit_0)

lemma crc_step8_shift:
  assumes "\<And>n. n < 8 \<Longrightarrow> \<not> bit c n"
  shows "crc_step8 c = drop_bit 8 c"
proof -
  note d = crc_bit_drop [OF assms]
  have "crc_step8 c = crc_bit (crc_bit (crc_bit (crc_bit (crc_bit (crc_bit (crc_bit (crc_bit (drop_bit 0 c))))))))"
    by (simp only: crc_step8_def drop_bit_0 id_apply)
  also have "\<dots> = drop_bit (0 + 1 + 1 + 1 + 1 + 1 + 1 + 1 + 1) c"
    by (subst d, simp)+ (rule refl)
  also have "0 + 1 + 1 + 1 + 1 + 1 + 1 + 1 + 1 = (8 :: nat)" by simp
  finally show ?thesis .
qed

lemma low_byte_split: "(c :: 64 word) = (c AND 0xff) XOR push_bit 8 (drop_bit 8 c)"
proof (rule bit_word_eqI)
  fix n
  have "bit (0xff :: 64 word) n \<longleftrightarrow> n < 8" using bit_ff [of n, where 'a = 64] by auto
  then show "bit c n = bit ((c AND 0xff) XOR push_bit 8 (drop_bit 8 c)) n"
    by (auto simp: bit_and_iff bit_xor_iff bit_push_bit_iff bit_drop_bit_eq dest: bit_imp_le_length)
qed

lemma drop_push8: "drop_bit 8 (push_bit 8 (drop_bit 8 c)) = drop_bit 8 (c :: 64 word)"
proof (rule bit_word_eqI)
  fix n
  show "bit (drop_bit 8 (push_bit 8 (drop_bit 8 c))) n = bit (drop_bit 8 c) n"
    using bit_imp_le_length [of c "8 + n"] by (auto simp: bit_push_bit_iff bit_drop_bit_eq)
qed

lemma crc_step8_split: "crc_step8 c = crc_step8 (c AND 0xff) XOR drop_bit 8 c"
proof -
  have "crc_step8 (push_bit 8 (drop_bit 8 c)) = drop_bit 8 c"
    by (subst crc_step8_shift) (auto simp: bit_push_bit_iff drop_push8)
  then show ?thesis using crc_step8_linear [of "c AND 0xff" "push_bit 8 (drop_bit 8 c)"]
    unfolding low_byte_split [symmetric] by simp
qed

lemma and_ff_bit: "bit (w AND (0xff :: 64 word)) n \<longleftrightarrow> n < 8 \<and> bit w n"
  using bit_ff [of n, where 'a = 64] by (auto simp: bit_and_iff dest: bit_imp_le_length)

lemma unat_and_ff: "unat (w AND (0xff :: 64 word)) < 256"
proof -
  have "drop_bit 8 (w AND 0xff) = 0"
    by (rule bit_word_eqI) (simp add: bit_drop_bit_eq and_ff_bit)
  then show ?thesis using drop_bit_0_iff [of 8 "w AND 0xff"] by simp
qed

lemma lookup_byte:
  assumes "\<And>n. n < 256 \<Longrightarrow> tab ! n = crc_iter k (of_nat n)"
  shows "tab ! unat (w AND (0xff :: 64 word)) = crc_iter k (w AND 0xff)"
  using assms [OF unat_and_ff [of w]] by simp

lemma lookup_zext:
  assumes "\<And>n. n < 256 \<Longrightarrow> tab ! n = crc_iter k (of_nat n)"
  shows "tab ! unat (zext8 b :: 64 word) = crc_iter k (zext8 b)"
  unfolding zext8_def using assms by (rule lookup_byte)

lemma sext_and_ff: "(c XOR scast (x :: byte)) AND (0xff :: 64 word) = (c XOR zext8 x) AND 0xff"
  by (rule bit_word_eqI) (auto simp: and_ff_bit bit_xor_iff bit_zext8 bit_signed_iff)

lemma drop8_xor_zext8: "drop_bit 8 (c XOR zext8 x) = drop_bit 8 (c :: 64 word)"
  by (rule bit_word_eqI) (auto simp: bit_drop_bit_eq bit_xor_iff bit_zext8)

lemma crc_iter_Suc: "crc_iter (Suc k) c = crc_iter k (crc_step8 c)"
  by (induction k) simp_all

text \<open>The byte loop of both table routines.\<close>

lemma table_step:
  "crc_step8 (c XOR zext8 x) = crc_iter 1 ((c XOR zext8 x) AND 0xff) XOR drop_bit 8 c"
  by (subst crc_step8_split) (simp only: drop8_xor_zext8 crc_iter.simps One_nat_def)

lemma crc_manual_loop_ref: "crc_manual_loop c bs = crc_ref c bs"
  by (induction bs arbitrary: c)
    (simp_all add: sext_and_ff lookup_byte [OF crc32tab_nth] table_step)

lemma crc_slice_tail_ref: "crc_slice_tail c bs = crc_ref c bs"
  by (induction bs arbitrary: c)
    (simp_all add: sext_and_ff lookup_byte [OF T8_0_nth] table_step xor.commute)

text \<open>The bytes of a little-endian word, and a CRC over it as one register.\<close>

lemma le_word_Cons: "le_word (x # xs) = zext8 x XOR push_bit 8 (le_word xs)"
  by (rule bit_word_eqI) (auto simp: bit_or_iff bit_xor_iff bit_zext8 bit_push_bit_iff)

lemma le_word_fits: "length xs < 8 \<Longrightarrow> drop_bit 8 (push_bit 8 (le_word xs)) = le_word xs"
  by (rule bit_word_eqI) (auto simp: bit_drop_bit_eq bit_push_bit_iff bit_le_word)

lemma crc_step8_push: "length xs < 8 \<Longrightarrow> crc_step8 (push_bit 8 (le_word xs)) = le_word xs"
  by (subst crc_step8_shift) (auto simp: bit_push_bit_iff le_word_fits)

lemma crc_iter_le_word: "length bs \<le> 8 \<Longrightarrow> crc_iter (length bs) (c XOR le_word bs) = crc_ref c bs"
proof (induction bs arbitrary: c)
  case (Cons x xs)
  then have "crc_step8 (c XOR le_word (x # xs)) = crc_step8 (c XOR zext8 x) XOR le_word xs"
    unfolding le_word_Cons xor.assoc [symmetric] crc_step8_linear [of "c XOR zext8 x"]
    by (simp add: crc_step8_push)
  with Cons show ?case by (simp add: crc_iter_Suc del: crc_iter.simps le_word.simps)
qed simp

lemma le_word_xor: "length xs = length ys \<Longrightarrow> le_word xs XOR le_word ys = le_word (map2 (XOR) xs ys)"
  by (rule bit_word_eqI) (auto simp: bit_xor_iff bit_le_word)

lemma low8_high: "crc32_ok c \<Longrightarrow> 32 \<le> k \<Longrightarrow> low8 (drop_bit k c) = 0"
  by (rule bit_word_eqI) (auto simp: bit_low8 bit_drop_bit_eq dest: bit_crc32_ok)

lemma xor_le_word8:
  assumes "crc32_ok c"
  shows "c XOR le_word [b0, b1, b2, b3, b4, b5, b6, b7] =
    le_word [b0 XOR low8 c, b1 XOR low8 (drop_bit 8 c), b2 XOR low8 (drop_bit 16 c),
             b3 XOR low8 (drop_bit 24 c), b4, b5, b6, b7]"
proof -
  have "c = le_word [low8 c, low8 (drop_bit 8 c), low8 (drop_bit 16 c), low8 (drop_bit 24 c), 0, 0, 0, 0]"
    using le_word_bytes [of c] low8_high [OF assms]
    by (simp only: upt_8 list.map mult_0_right drop_bit_0 id_apply) simp
  then have "c XOR le_word [b0, b1, b2, b3, b4, b5, b6, b7] =
      le_word [low8 c, low8 (drop_bit 8 c), low8 (drop_bit 16 c), low8 (drop_bit 24 c), 0, 0, 0, 0]
        XOR le_word [b0, b1, b2, b3, b4, b5, b6, b7]" by (rule arg_cong)
  also have "\<dots> = le_word (map2 (XOR)
      [low8 c, low8 (drop_bit 8 c), low8 (drop_bit 16 c), low8 (drop_bit 24 c), 0, 0, 0, 0]
      [b0, b1, b2, b3, b4, b5, b6, b7])" by (rule le_word_xor) simp
  finally show ?thesis by (simp only: zip_Cons_Cons zip_Nil list.map prod.case xor.left_neutral xor.commute)
qed

lemma crc_iter_bytes:
  "length ys < 8 \<Longrightarrow> crc_iter (Suc (length ys)) (le_word (y # ys)) =
     crc_iter (Suc (length ys)) (zext8 y) XOR crc_iter (length ys) (le_word ys)"
  unfolding le_word_Cons crc_iter_linear crc_iter_Suc [of _ "push_bit 8 (le_word ys)"]
  by (simp only: crc_step8_push)

lemma index_byte: "(scast (b :: byte) XOR l) AND (0xff :: 64 word) = zext8 (b XOR low8 l)"
  by (rule bit_word_eqI) (auto simp: and_ff_bit bit_xor_iff bit_zext8 bit_low8 bit_signed_iff)

lemma crc_iter_le8:
  "crc_iter 8 (le_word [y0, y1, y2, y3, y4, y5, y6, y7]) =
     crc_iter 8 (zext8 y0) XOR (crc_iter 7 (zext8 y1) XOR (crc_iter 6 (zext8 y2) XOR
      (crc_iter 5 (zext8 y3) XOR (crc_iter 4 (zext8 y4) XOR (crc_iter 3 (zext8 y5) XOR
      (crc_iter 2 (zext8 y6) XOR crc_iter 1 (zext8 y7)))))))"
  using crc_iter_bytes [of "[y1, y2, y3, y4, y5, y6, y7]" y0] crc_iter_bytes [of "[y2, y3, y4, y5, y6, y7]" y1]
    crc_iter_bytes [of "[y3, y4, y5, y6, y7]" y2] crc_iter_bytes [of "[y4, y5, y6, y7]" y3]
    crc_iter_bytes [of "[y5, y6, y7]" y4] crc_iter_bytes [of "[y6, y7]" y5] crc_iter_bytes [of "[y7]" y6]
    crc_iter_bytes [of "[]" y7]
  by (simp add: numeral_eq_Suc del: crc_iter.simps(2) le_word.simps(2))

lemma crc_slice8_ref:
  assumes "crc32_ok c"
  shows "crc_slice8 c [b0, b1, b2, b3, b4, b5, b6, b7] = crc_ref c [b0, b1, b2, b3, b4, b5, b6, b7]"
proof -
  have "crc_ref c [b0, b1, b2, b3, b4, b5, b6, b7] = crc_iter 8 (c XOR le_word [b0, b1, b2, b3, b4, b5, b6, b7])"
    using crc_iter_le_word [of "[b0, b1, b2, b3, b4, b5, b6, b7]" c]
    by (simp add: numeral_eq_Suc del: crc_iter.simps crc_ref_simps le_word.simps)
  also have "\<dots> = crc_slice8 c [b0, b1, b2, b3, b4, b5, b6, b7]"
    unfolding xor_le_word8 [OF assms] crc_iter_le8
    by (simp add: crc_slice8_def Let_def crc_tables_nth [THEN lookup_zext]
        index_byte zext8_def [symmetric] numeral_eq_Suc xor.assoc drop_bit_drop_bit del: crc_iter.simps)
  finally show ?thesis by simp
qed

lemma take8: "8 \<le> length bs \<Longrightarrow>
  \<exists>b0 b1 b2 b3 b4 b5 b6 b7. bs = [b0, b1, b2, b3, b4, b5, b6, b7] @ drop 8 bs"
  by (auto simp: numeral_eq_Suc Suc_le_length_iff)

lemma crc_slice_loop_ref: "crc32_ok c \<Longrightarrow> crc_slice_loop c bs = crc_ref c bs"
proof (induction c bs rule: crc_slice_loop.induct)
  case (1 c bs)
  show ?case
  proof (cases "7 < length bs")
    case True
    then obtain b0 b1 b2 b3 b4 b5 b6 b7 where bs: "bs = [b0, b1, b2, b3, b4, b5, b6, b7] @ drop 8 bs"
      using take8 [of bs] by auto
    have e: "crc_slice8 c bs = crc_ref c [b0, b1, b2, b3, b4, b5, b6, b7]"
      unfolding crc_slice8_ref [OF "1.prems", symmetric] by (subst bs) (simp add: crc_slice8_def)
    have "crc_slice_loop c bs = crc_ref (crc_slice8 c bs) (drop 8 bs)"
      using "1.IH" [OF True] crc32_ok_ref [OF "1.prems"] True unfolding e
      by (subst crc_slice_loop.simps) (simp add: e del: crc_ref_simps)
    also have "\<dots> = crc_ref c bs" unfolding e by (subst (2) bs) (simp only: crc_ref_simps(3))
    finally show ?thesis .
  next
    case False
    then show ?thesis by (subst crc_slice_loop.simps) (simp add: crc_slice_tail_ref)
  qed
qed

text \<open>The instruction loops.\<close>

lemma crc32_u8_ref: "crc32_ok c \<Longrightarrow> crc32_u8 c x = crc_ref c [x]"
  by (simp add: crc32_u8_def)

lemma crc_byte_loop_ref: "crc32_ok c \<Longrightarrow> crc_byte_loop c bs = crc_ref c bs"
  by (induction bs arbitrary: c) (auto simp: crc32_u8_ref)

lemma crc_align_loop_ref:
  "crc32_ok c \<Longrightarrow> crc_align_loop addr c bs = (c', r) \<Longrightarrow> crc32_ok c' \<and> crc_ref c' r = crc_ref c bs"
  by (induction addr c bs rule: crc_align_loop.induct) (auto simp: crc32_u8_ref split: if_splits)

lemma quadword_ref:
  assumes "crc32_ok (fst s)" "8 \<le> length (snd s)"
  defines "t \<equiv> crc32_sse42_quadword s"
  shows "crc32_ok (fst t)" "crc_ref (fst t) (snd t) = crc_ref (fst s) (snd s)" "length (snd t) = length (snd s) - 8"
proof -
  have f: "fst t = crc_ref (fst s) (take 8 (snd s))"
    using crc_iter_le_word [of "take 8 (snd s)" "fst s"] assms
    by (simp add: t_def crc32_sse42_quadword_def crc32_u64_def min_absorb2)
  then show "crc32_ok (fst t)" using assms by auto
  have "crc_ref (fst t) (snd t) = crc_ref (fst s) (take 8 (snd s) @ drop 8 (snd s))"
    unfolding f by (simp add: t_def crc32_sse42_quadword_def del: append_take_drop_id)
  then show "crc_ref (fst t) (snd t) = crc_ref (fst s) (snd s)" by simp
  show "length (snd t) = length (snd s) - 8" by (simp add: t_def crc32_sse42_quadword_def)
qed

lemma crc_quad_loop_ref:
  "crc32_ok (fst s) \<Longrightarrow> crc32_ok (fst (crc_quad_loop s)) \<and>
     crc_ref (fst (crc_quad_loop s)) (snd (crc_quad_loop s)) = crc_ref (fst s) (snd s)"
proof (induction s rule: crc_quad_loop.induct)
  case (1 s)
  show ?case
  proof (cases "8 \<le> length (snd s)")
    case True
    then have "crc_quad_loop s = crc_quad_loop (crc32_sse42_quadword s)" by (simp add: crc_quad_loop.simps)
    with "1.IH" [OF True] "1.prems" quadword_ref [of s] True show ?thesis by simp
  next
    case False
    then have "crc_quad_loop s = s" by (simp add: crc_quad_loop.simps)
    with "1.prems" show ?thesis by simp
  qed
qed

lemma crc_quad4_loop_ref:
  "crc32_ok (fst s) \<Longrightarrow> crc32_ok (fst (crc_quad4_loop s)) \<and>
     crc_ref (fst (crc_quad4_loop s)) (snd (crc_quad4_loop s)) = crc_ref (fst s) (snd s)"
proof (induction s rule: crc_quad4_loop.induct)
  case (1 s)
  let ?q = crc32_sse42_quadword
  show ?case
  proof (cases "32 \<le> length (snd s)")
    case True
    note q1 = quadword_ref [of s] and q2 = quadword_ref [of "?q s"]
      and q3 = quadword_ref [of "?q (?q s)"] and q4 = quadword_ref [of "?q (?q (?q s))"]
    have "crc32_ok (fst (?q (?q (?q (?q s)))))"
      "crc_ref (fst (?q (?q (?q (?q s))))) (snd (?q (?q (?q (?q s))))) = crc_ref (fst s) (snd s)"
      using True "1.prems" q1 q2 q3 q4 by simp_all
    moreover have "crc_quad4_loop s = crc_quad4_loop (?q (?q (?q (?q s))))"
      using True by (subst crc_quad4_loop.simps) simp
    ultimately show ?thesis using "1.IH" [OF True] by simp
  next
    case False
    then have "crc_quad4_loop s = s" by (simp add: crc_quad4_loop.simps)
    with "1.prems" show ?thesis by simp
  qed
qed

lemma crc64_sse42_ref:
  assumes "crc32_ok c"
  shows "crc64_sse42 addr c (Some b) len = crc_ref c (take (nat len) b)"
proof -
  obtain c1 r1 where a: "crc_align_loop addr c (take (nat len) b) = (c1, r1)" by fastforce
  note al = crc_align_loop_ref [OF assms a]
  let ?s = "crc_quad_loop (crc_quad4_loop (c1, r1))"
  have "crc32_ok (fst ?s) \<and> crc_ref (fst ?s) (snd ?s) = crc_ref c1 r1"
    using crc_quad4_loop_ref [of "(c1, r1)"] crc_quad_loop_ref [of "crc_quad4_loop (c1, r1)"] al by simp
  then show ?thesis
    using al by (auto simp: crc64_sse42_def a crc_byte_loop_ref split: prod.splits)
qed

text \<open>
  C30. The three implementations of \<^verbatim>\<open>ob_crc64\<close> agree: on every buffer, length and alignment,
  for a starting value of 32 bits, the instruction loop with its alignment and 32-byte unrolling, the
  256-entry table and the slicing by eight tables give the same value, the CRC-32C of the bytes
  computed bit by bit, and it is again a 32-bit value.
\<close>

theorem crc_implementations_agree:
  assumes "unat crc < 2 ^ 32"
  shows "crc64_sse42 addr crc (Some buf) len = crc_ref crc (take (nat len) buf)
    \<and> crc64_sse42_manually crc buf len = crc_ref crc (take (nat len) buf)
    \<and> fast_crc64_sse42_manually crc buf len = crc_ref crc (take (nat len) buf)
    \<and> unat (crc_ref crc (take (nat len) buf)) < 2 ^ 32"
proof -
  have ok: "crc32_ok crc" using assms by (rule take_bit_small)
  have "drop_bit 32 (crc_ref crc (take (nat len) buf)) = 0"
    using crc32_ok_ref [OF ok, of "take (nat len) buf"]
    by (intro bit_word_eqI) (auto simp: bit_drop_bit_eq dest: bit_crc32_ok)
  then show ?thesis
    using crc32_ok_ref [OF ok, of "take (nat len) buf"] drop_bit_0_iff [of 32 "crc_ref crc (take (nat len) buf)"]
    by (simp add: crc64_sse42_ref [OF ok] crc64_sse42_manually_def crc_manual_loop_ref
        fast_crc64_sse42_manually_def crc_slice_loop_ref [OF ok])
qed

theorem crc_implementations_agree_witness:
  "crc64_sse42 5 7 (Some [1, 2, 0xf3, 4, 5, 6, 7, 8, 9]) 9 = fast_crc64_sse42_manually 7 [1, 2, 0xf3, 4, 5, 6, 7, 8, 9] 9
   \<and> crc64_sse42_manually 7 [1, 2, 0xf3, 4, 5, 6, 7, 8, 9] 9 = fast_crc64_sse42_manually 7 [1, 2, 0xf3, 4, 5, 6, 7, 8, 9] 9"
  using crc_implementations_agree [of 7 5 "[1, 2, 0xf3, 4, 5, 6, 7, 8, 9]" 9] by simp

lemma ob_crc64_ref: "crc32_ok c \<Longrightarrow> ob_crc64 has_sse42 addr c b = crc_ref c b"
  by (simp add: ob_crc64_def crc64_sse42_ref fast_crc64_sse42_manually_def crc_slice_loop_ref crc32_ok_ref)

text \<open>The bits of the seed above the 32nd play no role once eight bytes follow.\<close>

lemma crc32_low: "crc32_u8 (take_bit 32 c) x = crc32_u8 c x" "crc32_u64 (take_bit 32 c) v = crc32_u64 c v"
  by (simp_all add: crc32_u8_def crc32_u64_def)

lemma quad_low: "crc32_sse42_quadword (take_bit 32 c, bs) = crc32_sse42_quadword (c, bs)"
  by (simp add: crc32_sse42_quadword_def crc32_low)

lemma crc64_sse42_low:
  assumes "8 \<le> length b"
  shows "crc64_sse42 addr (take_bit 32 c) (Some b) (int (length b)) = crc64_sse42 addr c (Some b) (int (length b))"
proof -
  obtain x xs where b: "b = x # xs" using assms by (cases b) auto
  have q: "crc_quad_loop (crc_quad4_loop (take_bit 32 c, b)) = crc_quad_loop (crc_quad4_loop (c, b))"
    using assms crc_quad4_loop.simps [of "(c, b)"] crc_quad4_loop.simps [of "(take_bit 32 c, b)"]
      crc_quad_loop.simps [of "(c, b)"] crc_quad_loop.simps [of "(take_bit 32 c, b)"] by (simp add: quad_low)
  show ?thesis using q by (simp add: crc64_sse42_def b crc32_low)
qed

lemma crc_slice8_low: "crc_slice8 (take_bit 32 c) bs = crc_slice8 c bs"
proof -
  have "low8 (drop_bit k (take_bit 32 c)) = low8 (drop_bit k c)" if "k \<le> 24" for k
    using that by (intro bit_word_eqI) (auto simp: bit_low8 bit_drop_bit_eq bit_take_bit_iff)
  note f = this [of 0, simplified] this [of 8, simplified] this [of 16, simplified] this [of 24, simplified]
  show ?thesis by (simp add: crc_slice8_def Let_def index_byte f)
qed

lemma ob_crc64_low:
  assumes "8 \<le> length b"
  shows "ob_crc64 has_sse42 addr c b = crc_ref (take_bit 32 c) b"
proof -
  have l: "crc_slice_loop (take_bit 32 c) b = crc_slice_loop c b"
  proof -
    have "7 < length b" using assms by simp
    then show ?thesis by (simp only: crc_slice_loop.simps [of c b] crc_slice_loop.simps [of "take_bit 32 c" b] crc_slice8_low if_True)
  qed
  have t: "take (nat (int (length b))) b = b" by simp
  have "ob_crc64 has_sse42 addr c b = ob_crc64 has_sse42 addr (take_bit 32 c) b"
    by (simp only: ob_crc64_def fast_crc64_sse42_manually_def crc64_sse42_low [OF assms] t l)
  also have "\<dots> = crc_ref (take_bit 32 c) b" by (rule ob_crc64_ref) simp
  finally show ?thesis .
qed

end
