(* ===== verification/Ob_Checksum.thy ===== *)
theory Ob_Checksum
  imports Ob_Crc Ob_Codec
begin

section \<open>\<^verbatim>\<open>ObBatchChecksum\<close> and the parity check: \<^verbatim>\<open>ob_crc64.h\<close>, \<^verbatim>\<open>ob_parity_check.cpp\<close>\<close>

text \<open>
  \<^verbatim>\<open>ObBatchChecksum\<close> collects data in a buffer of 64 bytes and folds a full buffer into its
  base with \<^verbatim>\<open>ob_crc64\<close>. The choice of the CRC routine (\<open>hw\<close>) and the address of the buffer
  member (\<open>addr\<close>) are arguments. \<^verbatim>\<open>parity_check\<close> folds a word to one byte and looks its
  parity up. Shown are the equivalence of any split into fills with one CRC over the whole data,
  the round trip of the serialized state in its frame of version and length, and that the parity check counts the one bits.
\<close>

definition BUFFER_SIZE :: nat where "BUFFER_SIZE = 64"

record ObBatchChecksum =
  batch_buffer :: "byte list"
  batch_pos :: nat
  batch_base :: "64 word"

definition batch_reset :: "ObBatchChecksum \<Rightarrow> ObBatchChecksum" where
  "batch_reset s = s \<lparr> batch_pos := 0, batch_base := 0 \<rparr>"

definition batch_set_base :: "64 word \<Rightarrow> ObBatchChecksum \<Rightarrow> ObBatchChecksum" where
  "batch_set_base base s = s \<lparr> batch_base := base \<rparr>"

definition batch_copy :: "nat \<Rightarrow> byte list \<Rightarrow> ObBatchChecksum \<Rightarrow> ObBatchChecksum" where
  "batch_copy size2copy ptr s =
     s \<lparr> batch_buffer := store (batch_buffer s) (batch_pos s) (take size2copy ptr),
        batch_pos := batch_pos s + size2copy \<rparr>"

definition batch_flush :: "bool \<Rightarrow> nat \<Rightarrow> ObBatchChecksum \<Rightarrow> ObBatchChecksum" where
  "batch_flush hw addr s =
     (if batch_pos s \<ge> BUFFER_SIZE
      then s \<lparr> batch_base := ob_crc64 hw addr (batch_base s) (take BUFFER_SIZE (batch_buffer s)), batch_pos := 0 \<rparr>
      else s)"

function batch_fill :: "bool \<Rightarrow> nat \<Rightarrow> byte list \<Rightarrow> ObBatchChecksum \<Rightarrow> ObBatchChecksum" where
  "batch_fill hw addr ptr s =
     (if ptr = [] then s
      else let size2copy = min (BUFFER_SIZE - batch_pos s) (length ptr) in
           batch_fill hw addr (drop size2copy ptr) (batch_flush hw addr (batch_copy size2copy ptr s)))"
  by pat_completeness auto
termination
  by (relation "measure (\<lambda>(hw, addr, ptr, s). 2 * length ptr + of_bool (batch_pos s \<ge> BUFFER_SIZE))")
    (auto simp: batch_flush_def batch_copy_def BUFFER_SIZE_def)

declare batch_fill.simps [simp del]

definition batch_calc :: "bool \<Rightarrow> nat \<Rightarrow> ObBatchChecksum \<Rightarrow> 64 word \<times> ObBatchChecksum" where
  "batch_calc hw addr s =
     (let s' = (if 0 < batch_pos s
                then s \<lparr> batch_base := ob_crc64 hw addr (batch_base s) (take (batch_pos s) (batch_buffer s)),
                        batch_pos := 0 \<rparr>
                else s)
      in (batch_base s', s'))"

text \<open>The member functions \<^verbatim>\<open>serialize_\<close>, \<^verbatim>\<open>deserialize_\<close> and \<^verbatim>\<open>get_serialize_size_\<close>.\<close>

definition batch_serialize_body :: "ObBatchChecksum \<Rightarrow> cbuf \<Rightarrow> int \<Rightarrow> int \<Rightarrow> enc_res" where
  "batch_serialize_body s buf buf_len pos =
     (if buf = None \<or> pos < 0 \<or> pos > buf_len then (OB_INVALID_ARGUMENT, pos, buf)
      else case enc_then (\<lambda>b l p. encode_i64 b l p (of_nat (batch_pos s)))
                         (\<lambda>b l p. encode_i64 b l p (batch_base s)) buf buf_len pos of
             (r, new_pos, buf') \<Rightarrow>
               if r \<noteq> OB_SUCCESS then (r, pos, buf')
               else if new_pos + int BUFFER_SIZE > buf_len then (OB_SERIALIZE_ERROR, pos, buf')
               else (r, new_pos + int BUFFER_SIZE, map_option (\<lambda>b. store b (nat new_pos) (batch_buffer s)) buf'))"

text \<open>
  The position goes straight into the object; base and buffer only when everything is there. A
  negative position on the wire, which no object has, is the number of its 64 bits.
\<close>

definition batch_deserialize_body :: "cbuf \<Rightarrow> int \<Rightarrow> int \<Rightarrow> ObBatchChecksum \<Rightarrow> ob_ret \<times> int \<times> ObBatchChecksum" where
  "batch_deserialize_body buf data_len pos s =
     (if buf = None \<or> pos < 0 \<or> pos > data_len then (OB_INVALID_ARGUMENT, pos, s)
      else case decode_i64 buf data_len pos of
             (r, pos1, v) \<Rightarrow>
      let s1 = (case v of None \<Rightarrow> s | Some w \<Rightarrow> s \<lparr> batch_pos := unat w \<rparr>) in
      if r \<noteq> OB_SUCCESS then (r, pos, s1)
      else case decode_i64 buf data_len pos1 of
             (r', pos2, tmp_base) \<Rightarrow>
      if r' \<noteq> OB_SUCCESS then (r', pos, s1)
      else if pos2 + int BUFFER_SIZE > data_len then (OB_DESERIALIZE_ERROR, pos, s1)
      else (r', pos2 + int BUFFER_SIZE,
            s1 \<lparr> batch_base := (case tmp_base of None \<Rightarrow> 0 | Some w \<Rightarrow> w),
                 batch_buffer := load (the buf) (nat pos2) BUFFER_SIZE \<rparr>))"

definition batch_get_serialize_size_body :: "ObBatchChecksum \<Rightarrow> int" where
  "batch_get_serialize_size_body s =
     encoded_length_i64 (of_nat (batch_pos s)) + encoded_length_i64 (batch_base s) + int BUFFER_SIZE"

text \<open>The public functions put them into the frame of \<^verbatim>\<open>OB_UNIS_VERSION(1)\<close>.\<close>

definition batch_serialize :: "ObBatchChecksum \<Rightarrow> cbuf \<Rightarrow> int \<Rightarrow> int \<Rightarrow> enc_res" where
  "batch_serialize s = unis_serialize 1 (batch_serialize_body s)"

definition batch_deserialize ::
  "cbuf \<Rightarrow> int \<Rightarrow> int \<Rightarrow> ObBatchChecksum \<Rightarrow> (ob_ret \<times> int \<times> ObBatchChecksum) option" where
  "batch_deserialize = unis_deserialize 1 batch_deserialize_body"

definition batch_get_serialize_size :: "ObBatchChecksum \<Rightarrow> int" where
  "batch_get_serialize_size s = unis_get_serialize_size 1 (batch_get_serialize_size_body s)"

subsection \<open>Parity\<close>

definition P2 :: "bool \<Rightarrow> bool list" where "P2 n = [n, n \<noteq> True, n \<noteq> True, n]"
definition P4 :: "bool \<Rightarrow> bool list" where "P4 n = P2 n @ P2 (n \<noteq> True) @ P2 (n \<noteq> True) @ P2 n"
definition P6 :: "bool \<Rightarrow> bool list" where "P6 n = P4 n @ P4 (n \<noteq> True) @ P4 (n \<noteq> True) @ P4 n"
definition ParityTable :: "bool list" where "ParityTable = P6 False @ P6 True @ P6 True @ P6 False"

definition parity_check_16 :: "16 word \<Rightarrow> bool" where
  "parity_check_16 v =
     (let v1 = v XOR drop_bit 8 v in ParityTable ! unat (v1 AND 0xff))"

definition parity_check_32 :: "32 word \<Rightarrow> bool" where
  "parity_check_32 v =
     (let v1 = v XOR drop_bit 16 v; v2 = v1 XOR drop_bit 8 v1 in ParityTable ! unat (v2 AND 0xff))"

definition parity_check_64 :: "64 word \<Rightarrow> bool" where
  "parity_check_64 v =
     (let v1 = v XOR drop_bit 32 v; v2 = v1 XOR drop_bit 16 v1; v3 = v2 XOR drop_bit 8 v2
      in ParityTable ! unat (v3 AND 0xff))"

subsection \<open>Any split into fills is one CRC\<close>

text \<open>What the object stands for: the CRC of everything filled so far.\<close>

definition batch_abs :: "ObBatchChecksum \<Rightarrow> 64 word" where
  "batch_abs s = crc_ref (batch_base s) (take (batch_pos s) (batch_buffer s))"

definition batch_inv :: "ObBatchChecksum \<Rightarrow> bool" where
  "batch_inv s \<longleftrightarrow> length (batch_buffer s) = BUFFER_SIZE \<and> batch_pos s < BUFFER_SIZE \<and> crc32_ok (batch_base s)"

lemma take_store_append:
  "p + length xs \<le> length b \<Longrightarrow> take (p + length xs) (store b p xs) = take p b @ xs"
  by (simp add: store_def)

lemma batch_round:
  fixes hw :: bool and addr :: nat
  assumes "batch_inv s" "ptr \<noteq> []"
  defines "k \<equiv> min (BUFFER_SIZE - batch_pos s) (length ptr)"
  defines "t \<equiv> batch_flush hw addr (batch_copy k ptr s)"
  shows "batch_inv t" "batch_abs t = crc_ref (batch_abs s) (take k ptr)"
proof -
  let ?c = "batch_copy k ptr s"
  have len: "length (batch_buffer s) = BUFFER_SIZE" and pos: "batch_pos s < BUFFER_SIZE"
    and ok: "crc32_ok (batch_base s)" using assms(1) by (auto simp: batch_inv_def)
  have k: "length (take k ptr) = k" "batch_pos s + k \<le> BUFFER_SIZE"
    using pos by (auto simp: k_def)
  have c: "take (batch_pos s + k) (batch_buffer ?c) = take (batch_pos s) (batch_buffer s) @ take k ptr"
    "length (batch_buffer ?c) = BUFFER_SIZE" "batch_pos ?c = batch_pos s + k" "batch_base ?c = batch_base s"
    using take_store_append [of "batch_pos s" "take k ptr" "batch_buffer s"] k len
    by (simp_all add: batch_copy_def)
  have abs: "crc_ref (batch_base s) (take (batch_pos s + k) (batch_buffer ?c)) = crc_ref (batch_abs s) (take k ptr)"
    unfolding c(1) by (simp add: batch_abs_def)
  have "batch_inv t \<and> batch_abs t = crc_ref (batch_abs s) (take k ptr)"
  proof (cases "batch_pos s + k \<ge> BUFFER_SIZE")
    case True
    with k have e: "batch_pos s + k = BUFFER_SIZE" by simp
    have t: "t = ?c \<lparr> batch_base := ob_crc64 hw addr (batch_base s) (take BUFFER_SIZE (batch_buffer ?c)), batch_pos := 0 \<rparr>"
      by (simp add: t_def batch_flush_def c e)
    have b: "batch_base t = crc_ref (batch_abs s) (take k ptr)"
      unfolding t using abs by (simp add: ob_crc64_ref [OF ok] e)
    moreover have "crc32_ok (crc_ref (batch_abs s) (take k ptr))"
      unfolding batch_abs_def using ok by (intro crc32_ok_ref)
    ultimately show ?thesis
      using c by (simp add: batch_inv_def batch_abs_def [of t]) (simp add: t BUFFER_SIZE_def)
  next
    case False
    then have t: "t = ?c" by (simp add: t_def batch_flush_def c)
    show ?thesis using False abs ok c by (simp add: t batch_inv_def batch_abs_def)
  qed
  then show "batch_inv t" "batch_abs t = crc_ref (batch_abs s) (take k ptr)" by simp_all
qed

lemma batch_fill_abs:
  "batch_inv s \<Longrightarrow> batch_inv (batch_fill hw addr ptr s) \<and> batch_abs (batch_fill hw addr ptr s) = crc_ref (batch_abs s) ptr"
proof (induction hw addr ptr s rule: batch_fill.induct)
  case (1 hw addr ptr s)
  show ?case
  proof (cases "ptr = []")
    case True
    with "1.prems" show ?thesis by (simp add: batch_fill.simps)
  next
    case False
    define k where "k = min (BUFFER_SIZE - batch_pos s) (length ptr)"
    define t where "t = batch_flush hw addr (batch_copy k ptr s)"
    have f: "batch_fill hw addr ptr s = batch_fill hw addr (drop k ptr) t"
      using False by (subst batch_fill.simps) (simp add: k_def t_def Let_def)
    note r = batch_round [OF "1.prems" False, of hw addr, folded k_def, folded t_def]
    have "batch_inv (batch_fill hw addr (drop k ptr) t) \<and>
        batch_abs (batch_fill hw addr (drop k ptr) t) = crc_ref (batch_abs t) (drop k ptr)"
      using "1.IH" [OF False k_def] r(1) by (simp add: t_def)
    then show ?thesis unfolding f r(2) crc_ref_simps(3) [symmetric] by simp
  qed
qed

text \<open>
  C33. \<^verbatim>\<open>ObBatchChecksum\<close> is one CRC: after \<^verbatim>\<open>reset\<close> and a 32-bit base, any sequence of
  \<^verbatim>\<open>fill\<close> calls followed by \<^verbatim>\<open>calc\<close> returns the CRC-32C of the concatenated data from that
  base, however the data is cut and whichever CRC routine the CPU selects; \<^verbatim>\<open>calc\<close> may be
  repeated and filling goes on from its result.
\<close>

theorem batch_fill_calc:
  fixes hw :: bool and addr :: nat and chunks :: "byte list list"
  assumes "length (batch_buffer s) = BUFFER_SIZE" "unat base < 2 ^ 32"
  defines "filled \<equiv> fold (batch_fill hw addr) chunks (batch_set_base base (batch_reset s))"
  shows "fst (batch_calc hw addr filled) = crc_ref base (concat chunks)
    \<and> fst (batch_calc hw addr (snd (batch_calc hw addr filled))) = crc_ref base (concat chunks)
    \<and> fst (batch_calc hw addr (batch_fill hw addr extra (snd (batch_calc hw addr filled))))
        = crc_ref base (concat chunks @ extra)"
proof -
  have ok: "crc32_ok base" using assms(2) by (rule take_bit_small)
  let ?s0 = "batch_set_base base (batch_reset s)"
  have s0: "batch_inv ?s0" "batch_abs ?s0 = base"
    using assms(1) ok by (simp_all add: batch_inv_def batch_abs_def batch_set_base_def batch_reset_def BUFFER_SIZE_def)
  have "batch_inv (fold (batch_fill hw addr) cs t) \<and>
      batch_abs (fold (batch_fill hw addr) cs t) = crc_ref (batch_abs t) (concat cs)" if "batch_inv t" for cs t
    using that by (induction cs arbitrary: t) (simp_all add: batch_fill_abs)
  from this [OF s0(1)] have f: "batch_inv filled" "batch_abs filled = crc_ref base (concat chunks)"
    by (simp_all add: filled_def s0(2))
  have calc: "fst (batch_calc hw addr t) = batch_abs t \<and> batch_inv (snd (batch_calc hw addr t))
      \<and> batch_abs (snd (batch_calc hw addr t)) = batch_abs t" if "batch_inv t" for t
    using that crc32_ok_ref [of "batch_base t"]
    by (auto simp: batch_calc_def Let_def batch_abs_def batch_inv_def ob_crc64_ref BUFFER_SIZE_def)
  note c = calc [OF f(1)]
  have "fst (batch_calc hw addr (batch_fill hw addr extra (snd (batch_calc hw addr filled))))
      = crc_ref (crc_ref base (concat chunks)) extra"
    using calc [of "batch_fill hw addr extra (snd (batch_calc hw addr filled))"] batch_fill_abs c f(2) by simp
  then show ?thesis using c calc [of "snd (batch_calc hw addr filled)"] f(2) by simp
qed

theorem batch_fill_calc_witness:
  "fst (batch_calc True 3 (fold (batch_fill True 3) [[1, 2, 3], replicate 100 7]
      (batch_set_base 5 (batch_reset \<lparr> batch_buffer = replicate 64 0, batch_pos = 9, batch_base = 1 \<rparr>))))
   = crc_ref 5 ([1, 2, 3] @ replicate 100 7)"
proof -
  have "length (batch_buffer \<lparr> batch_buffer = replicate 64 0, batch_pos = 9, batch_base = 1 \<rparr>) = BUFFER_SIZE"
    by (simp add: BUFFER_SIZE_def)
  from batch_fill_calc [OF this, of 5 True 3 "[[1, 2, 3], replicate 100 7]"] show ?thesis by simp
qed

text \<open>What \<^verbatim>\<open>serialize\<close> puts on the wire: version, length, position, base and the whole buffer.\<close>

definition batch_members :: "ObBatchChecksum \<Rightarrow> byte list" where
  "batch_members s = be64 (of_nat (batch_pos s)) @ be64 (batch_base s) @ batch_buffer s"

definition batch_image :: "ObBatchChecksum \<Rightarrow> byte list" where
  "batch_image s = unis_image 1 (batch_members s)"

lemma vi_bytes_1: "vi_bytes (1 :: 64 word) = [1]"
  by (subst vi_bytes.simps) (simp add: low8_def)

lemma length_batch_members: "batch_inv s \<Longrightarrow> length (batch_members s) = 80"
  by (simp add: batch_members_def batch_inv_def BUFFER_SIZE_def)

lemma length_batch_image: "batch_inv s \<Longrightarrow> length (batch_image s) = 86"
  by (simp add: batch_image_def unis_image_def vi_bytes_1 length_batch_members)

lemma batch_size: "batch_get_serialize_size s = 86"
  by (simp add: batch_get_serialize_size_def unis_get_serialize_size_def batch_get_serialize_size_body_def
      encoded_length_i64_def encoded_length_vi64_def OB_SERIALIZE_SIZE_NEED_BYTES_def BUFFER_SIZE_def)

lemma batch_serialize_body_exact:
  assumes inv: "batch_inv s"
  shows "enc_exact (batch_serialize_body s) (batch_members s)"
proof -
  have len: "length (batch_buffer s) = 64" using inv by (simp add: batch_inv_def BUFFER_SIZE_def)
  let ?x = "be64 (of_nat (batch_pos s) :: 64 word)" and ?y = "be64 (batch_base s)"
  let ?E = "enc_then (\<lambda>b l p. encode_i64 b l p (of_nat (batch_pos s))) (\<lambda>b l p. encode_i64 b l p (batch_base s))"
  have enc: "enc_exact ?E (?x @ ?y)" by (rule enc_exact_then encode_i64_exact)+
  show ?thesis
  proof (rule enc_exactI)
    fix b :: "byte list" and L p
    assume L: "L \<le> length b" and room: "p + length (batch_members s) \<le> L"
    then have p: "p + 80 \<le> L" by (simp add: length_batch_members [OF inv])
    have "store (store b p (?x @ ?y)) (p + 16) (batch_buffer s) = store b p (batch_members s)"
      using store_store_adjacent [of p "?x @ ?y" "batch_buffer s" b] p L len by (simp add: batch_members_def)
    then show "batch_serialize_body s (Some b) (int L) (int p) =
        (OB_SUCCESS, int (p + length (batch_members s)), Some (store b p (batch_members s)))"
      using enc_exactD [OF enc, of p L b] p L
      by (simp add: batch_serialize_body_def BUFFER_SIZE_def nat_add_distrib length_batch_members [OF inv])
  next
    fix b :: "byte list" and L p
    assume L: "L \<le> length b" and short: "L < p + length (batch_members s)"
    then have p: "L < p + 80" by (simp add: length_batch_members [OF inv])
    show "fst (batch_serialize_body s (Some b) (int L) (int p)) \<noteq> OB_SUCCESS"
    proof (cases "p + 16 \<le> L")
      case True
      with L p show ?thesis
        using enc_exactD [OF enc, of p L b] by (simp add: batch_serialize_body_def BUFFER_SIZE_def)
    next
      case False
      with L show ?thesis
        using enc_exact_shortD [OF enc, of p L b]
        by (auto simp: batch_serialize_body_def split: prod.splits)
    qed
  qed
qed

lemma batch_deserialize_body_members:
  assumes inv: "batch_inv s" and b: "80 \<le> length b" "take 80 b = batch_members s"
  shows "batch_deserialize_body (Some b) 80 0 s0 = (OB_SUCCESS, 80, s)"
proof -
  let ?x = "be64 (of_nat (batch_pos s) :: 64 word)" and ?y = "be64 (batch_base s)"
  have len: "length (batch_buffer s) = 64" and pos: "batch_pos s < 64"
    using inv by (simp_all add: batch_inv_def BUFFER_SIZE_def)
  have "load b 0 80 = ?x @ ?y @ batch_buffer s" using b by (simp add: load_def batch_members_def)
  then have ld: "load b 0 8 = ?x" "load b 8 8 = ?y" "load b 16 64 = batch_buffer s"
    using load_appendD [of b 0 ?x "?y @ batch_buffer s"] load_appendD [of b 8 ?y "batch_buffer s"] b(1) len
    by simp_all
  have u: "unat (of_nat (batch_pos s) :: 64 word) = batch_pos s" using pos by (simp add: unat_of_nat)
  have "decode_i64 (Some b) 80 0 = (OB_SUCCESS, 8, Some (of_nat (batch_pos s)))"
    "decode_i64 (Some b) 80 8 = (OB_SUCCESS, 16, Some (batch_base s))"
    using dec_exactD [OF decode_i64_exact, of 0 "of_nat (batch_pos s)" 80 b]
      dec_exactD [OF decode_i64_exact, of 8 "batch_base s" 80 b] ld b(1) by simp_all
  then show ?thesis using ld(3) u by (simp add: batch_deserialize_body_def Let_def BUFFER_SIZE_def)
qed

lemma batch_serialize_exact: "batch_inv s \<Longrightarrow> enc_exact (batch_serialize s) (batch_image s)"
  unfolding batch_serialize_def batch_image_def by (intro unis_serialize_exact batch_serialize_body_exact)

text \<open>
  C34. The serialized state of a checksum comes back. \<^verbatim>\<open>get_serialize_size\<close> announces 86 bytes;
  \<^verbatim>\<open>serialize\<close> succeeds exactly when they fit, and then writes version 1, the length 80 in five
  bytes, position, base and buffer at the position and nothing else. \<^verbatim>\<open>deserialize\<close> of a buffer
  that holds these bytes restores the same state into any object and leaves the position behind
  them; of a buffer that holds them with another version it returns \<^verbatim>\<open>OB_NOT_SUPPORTED\<close> and
  leaves the object as it was.
\<close>

theorem batch_serialize_roundtrip:
  assumes inv: "batch_inv s" and L: "L \<le> length b" "L < 2 ^ 63"
  shows "batch_get_serialize_size s = 86 \<and>
    (if p + 86 \<le> L
     then batch_serialize s (Some b) (int L) (int p) = (OB_SUCCESS, int (p + 86), Some (store b p (batch_image s)))
     else fst (batch_serialize s (Some b) (int L) (int p)) \<noteq> OB_SUCCESS) \<and>
    (p + 86 \<le> L \<and> load b p 86 = batch_image s \<longrightarrow>
       batch_deserialize (Some b) (int L) (int p) s0 = Some (OB_SUCCESS, int (p + 86), s)) \<and>
    (v \<noteq> 1 \<and> p + length (unis_image v (batch_members s)) \<le> L \<and>
     load b p (length (unis_image v (batch_members s))) = unis_image v (batch_members s) \<longrightarrow>
       batch_deserialize (Some b) (int L) (int p) s0 = Some (OB_NOT_SUPPORTED, int (p + length (vi_bytes v) + 5), s0))"
proof (intro conjI impI)
  show "batch_get_serialize_size s = 86" by (rule batch_size)
  show "if p + 86 \<le> L
     then batch_serialize s (Some b) (int L) (int p) = (OB_SUCCESS, int (p + 86), Some (store b p (batch_image s)))
     else fst (batch_serialize s (Some b) (int L) (int p)) \<noteq> OB_SUCCESS"
    using enc_exactD [OF batch_serialize_exact [OF inv], of p L b]
      enc_exact_shortD [OF batch_serialize_exact [OF inv], of p L b] L(1)
    by (simp add: length_batch_image [OF inv])
  show "batch_deserialize (Some b) (int L) (int p) s0 = Some (OB_SUCCESS, int (p + 86), s)"
    if "p + 86 \<le> L \<and> load b p 86 = batch_image s"
    using that L batch_deserialize_body_members [OF inv]
      unis_deserialize_image [of b p 1 "batch_members s" L batch_deserialize_body s0 OB_SUCCESS s]
    by (simp add: batch_deserialize_def length_batch_members [OF inv] length_batch_image [OF inv]
        batch_image_def [symmetric])
  show "batch_deserialize (Some b) (int L) (int p) s0 = Some (OB_NOT_SUPPORTED, int (p + length (vi_bytes v) + 5), s0)"
    if "v \<noteq> 1 \<and> p + length (unis_image v (batch_members s)) \<le> L \<and>
      load b p (length (unis_image v (batch_members s))) = unis_image v (batch_members s)"
    using that L unis_deserialize_other_version [of b p v "batch_members s" L 1 batch_deserialize_body s0]
    by (simp add: batch_deserialize_def length_batch_members [OF inv])
qed

text \<open>At position 3 of 90 bytes the state fits; the bytes written come back, and as version 2 they do not.\<close>

definition batch_example :: ObBatchChecksum where
  "batch_example = \<lparr> batch_buffer = replicate 64 5, batch_pos = 9, batch_base = 77 \<rparr>"

lemma batch_example_inv: "batch_inv batch_example"
  by (simp add: batch_example_def batch_inv_def BUFFER_SIZE_def take_bit_eq_mod)

definition batch_example_buf :: "64 word \<Rightarrow> byte list" where
  "batch_example_buf v = store (replicate 90 0) 3 (unis_image v (batch_members batch_example))"

theorem batch_serialize_roundtrip_witness:
  "batch_serialize batch_example (Some (replicate 90 0)) 90 3 = (OB_SUCCESS, 89, Some (batch_example_buf 1))
    \<and> fst (batch_serialize batch_example (Some (replicate 90 0)) 90 5) \<noteq> OB_SUCCESS
    \<and> batch_deserialize (Some (batch_example_buf 1)) 90 3 \<lparr> batch_buffer = replicate 64 0, batch_pos = 0, batch_base = 0 \<rparr>
        = Some (OB_SUCCESS, 89, batch_example)
    \<and> batch_deserialize (Some (batch_example_buf 2)) 90 3 \<lparr> batch_buffer = replicate 64 0, batch_pos = 0, batch_base = 0 \<rparr>
        = Some (OB_NOT_SUPPORTED, 9, \<lparr> batch_buffer = replicate 64 0, batch_pos = 0, batch_base = 0 \<rparr>)"
proof -
  let ?b = "batch_example_buf 1" and ?c = "batch_example_buf 2"
    and ?s = "\<lparr> batch_buffer = replicate 64 0, batch_pos = 0, batch_base = 0 \<rparr>"
  have vi: "vi_bytes (2 :: 64 word) = [2]" by (subst vi_bytes.simps) (simp add: low8_def)
  have len: "length (batch_image batch_example) = 86" "length (unis_image 2 (batch_members batch_example)) = 86"
    by (simp_all add: length_batch_image [OF batch_example_inv] unis_image_def vi length_batch_members [OF batch_example_inv])
  have b: "?b = store (replicate 90 0) 3 (batch_image batch_example)" "length ?b = 90" "length ?c = 90"
    using len by (simp_all add: batch_example_buf_def batch_image_def)
  have ld: "load ?b 3 86 = batch_image batch_example" "load ?c 3 86 = unis_image 2 (batch_members batch_example)"
    using len by (simp_all add: batch_example_buf_def batch_image_def)
  show ?thesis
    using batch_serialize_roundtrip [OF batch_example_inv, of 90 "replicate 90 0" 3]
      batch_serialize_roundtrip [OF batch_example_inv, of 90 "replicate 90 0" 5]
      batch_serialize_roundtrip [OF batch_example_inv, of 90 ?b 3 ?s]
      batch_serialize_roundtrip [OF batch_example_inv, of 90 ?c 3 ?s 2]
    by (simp add: b(2,3) b(1) [symmetric] len ld vi)
qed

subsection \<open>The parity check counts one bits\<close>

primrec par :: "nat \<Rightarrow> (nat \<Rightarrow> bool) \<Rightarrow> bool" where
  "par 0 f = False"
| "par (Suc k) f = (f k \<noteq> par k f)"

lemma par_card: "par k f = odd (card {i. i < k \<and> f i})"
proof (induction k)
  case (Suc k)
  have "{i. i < Suc k \<and> f i} = (if f k then insert k {i. i < k \<and> f i} else {i. i < k \<and> f i})"
    by (auto simp: less_Suc_eq)
  with Suc show ?case by (auto simp: card_insert_if)
qed simp

lemma par_xor: "par k (\<lambda>i. f i \<noteq> g i) = (par k f \<noteq> par k g)"
  by (induction k) auto

lemma par_add: "par (k + m) f = (par k f \<noteq> par m (\<lambda>i. f (k + i)))"
  by (induction m) auto

lemma par_cong: "(\<And>i. i < k \<Longrightarrow> f i = g i) \<Longrightarrow> par k f = par k g"
  by (induction k) auto

lemma par_fold: "par (k + k) (bit (v :: 'a::len word)) = par k (bit (v XOR drop_bit k v))"
proof -
  have "bit (v XOR drop_bit k v) = (\<lambda>i. bit v i \<noteq> bit v (k + i))"
    by (auto simp: fun_eq_iff bit_xor_iff bit_drop_bit_eq)
  then show ?thesis using par_xor [of k "bit v" "\<lambda>i. bit v (k + i)"] by (simp add: par_add)
qed

text \<open>The table is built from four copies of the next smaller one, twice inverted.\<close>

lemma quad_nth:
  fixes f :: "bool \<Rightarrow> bool list" and i k :: nat
  assumes len: "\<And>n. length (f n) = 2 ^ k" and i: "i < 4 * 2 ^ k"
  shows "(f n @ f (n \<noteq> True) @ f (n \<noteq> True) @ f n) ! i =
    f (n \<noteq> (bit i k \<noteq> bit i (Suc k))) ! take_bit k i"
proof -
  let ?m = "2 ^ k :: nat"
  define q r where "q = i div ?m" and "r = i mod ?m"
  have i': "i = q * ?m + r" and r: "r < ?m"
    by (simp_all only: q_def r_def div_mult_mod_eq) simp
  have "q < 4" using i by (simp add: q_def less_mult_imp_div_less)
  then have q: "q = 0 \<or> q = 1 \<or> q = 2 \<or> q = 3" by linarith
  have b: "bit i k \<longleftrightarrow> odd q" "bit i (Suc k) \<longleftrightarrow> odd (q div 2)" "take_bit k i = r"
    by (simp_all only: q_def r_def bit_iff_odd take_bit_eq_mod power_Suc2 div_mult2_eq)
  from q r show ?thesis unfolding b by (elim disjE) (simp_all add: i' nth_append len)
qed

lemma P2_nth: "i < 4 \<Longrightarrow> P2 n ! i = (n \<noteq> (bit i 0 \<noteq> bit i 1))"
  using quad_nth [of "\<lambda>n. [n]" 0 i n] by (simp add: P2_def)

lemma P2_take: "P2 n ! take_bit 2 i = (n \<noteq> (bit i 0 \<noteq> bit i 1))"
  using P2_nth [of "take_bit 2 i" n] take_bit_nat_less_exp [of 2 i] by (simp add: bit_take_bit_iff)

lemma length_P2: "length (P2 n) = 2 ^ 2"
  by (simp add: P2_def)

lemma P4_nth: "i < 16 \<Longrightarrow> P4 n ! i = ((n \<noteq> (bit i 2 \<noteq> bit i 3)) \<noteq> (bit i 0 \<noteq> bit i 1))"
  using quad_nth [of P2 2 i n, OF length_P2] unfolding P4_def P2_take by (simp add: eval_nat_numeral)

lemma P4_take: "P4 n ! take_bit 4 i = ((n \<noteq> (bit i 2 \<noteq> bit i 3)) \<noteq> (bit i 0 \<noteq> bit i 1))"
  using P4_nth [of "take_bit 4 i" n] take_bit_nat_less_exp [of 4 i] by (simp add: bit_take_bit_iff)

lemma length_P4: "length (P4 n) = 2 ^ 4"
  by (simp add: P4_def P2_def)

lemma P6_nth: "i < 64 \<Longrightarrow> P6 n ! i =
    (((n \<noteq> (bit i 4 \<noteq> bit i 5)) \<noteq> (bit i 2 \<noteq> bit i 3)) \<noteq> (bit i 0 \<noteq> bit i 1))"
  using quad_nth [of P4 4 i n, OF length_P4] unfolding P6_def P4_take by simp

lemma P6_take: "P6 n ! take_bit 6 i =
    (((n \<noteq> (bit i 4 \<noteq> bit i 5)) \<noteq> (bit i 2 \<noteq> bit i 3)) \<noteq> (bit i 0 \<noteq> bit i 1))"
  using P6_nth [of "take_bit 6 i" n] take_bit_nat_less_exp [of 6 i] by (simp add: bit_take_bit_iff)

lemma length_P6: "length (P6 n) = 2 ^ 6"
  by (simp add: P6_def P4_def P2_def)

lemma ParityTable_nth: "i < 256 \<Longrightarrow> ParityTable ! i = par 8 (bit i)"
proof -
  assume "i < 256"
  then have "ParityTable ! i = ((((False \<noteq> (bit i 6 \<noteq> bit i 7)) \<noteq> (bit i 4 \<noteq> bit i 5))
      \<noteq> (bit i 2 \<noteq> bit i 3)) \<noteq> (bit i 0 \<noteq> bit i 1))"
    using quad_nth [of P6 6 i False, OF length_P6] unfolding ParityTable_def P6_take by simp
  moreover have "par 8 (bit i) = (bit i 7 \<noteq> (bit i 6 \<noteq> (bit i 5 \<noteq> (bit i 4 \<noteq>
      (bit i 3 \<noteq> (bit i 2 \<noteq> (bit i 1 \<noteq> (bit i 0 \<noteq> False))))))))"
    by (simp add: numeral_eq_Suc)
  ultimately show ?thesis by argo
qed

lemma parity_lookup:
  fixes w :: "'a::len word"
  assumes "8 \<le> LENGTH('a)"
  shows "ParityTable ! unat (w AND 0xff) = par 8 (bit w)"
proof -
  have ff: "bit (w AND 0xff) n \<longleftrightarrow> n < 8 \<and> bit w n" for n
    using bit_ff [of n, where 'a = 'a] by (auto simp: bit_and_iff dest: bit_imp_le_length)
  then have "drop_bit 8 (w AND 0xff) = 0" by (intro bit_word_eqI) (simp only: bit_drop_bit_eq comp_apply ff, simp)
  then have "unat (w AND 0xff) < 256" using drop_bit_0_iff [of 8 "w AND 0xff"] by simp
  then have "ParityTable ! unat (w AND 0xff) = par 8 (bit (unat (w AND 0xff)))" by (rule ParityTable_nth)
  also have "\<dots> = par 8 (bit w)"
    by (rule par_cong) (simp only: bit_unsigned_iff ff, auto simp: possible_bit_def)
  finally show ?thesis .
qed

text \<open>
  The parity checks of 16, 32 and 64 bits are right: each answers true exactly when its
  argument has an odd number of one bits.
\<close>

theorem parity_check_counts:
  "parity_check_16 u = odd (card {i. bit u i}) \<and> parity_check_32 v = odd (card {i. bit v i})
   \<and> parity_check_64 w = odd (card {i. bit w i})"
proof (intro conjI)
  have c: "{i. bit (x :: 'b::len word) i} = {i. i < LENGTH('b) \<and> bit x i}" for x
    by (auto dest: bit_imp_le_length)
  show "parity_check_16 u = odd (card {i. bit u i})"
    using par_fold [of 8 u] by (simp add: c parity_check_16_def parity_lookup par_card [symmetric] Let_def)
  show "parity_check_32 v = odd (card {i. bit v i})"
    using par_fold [of 16 v] par_fold [of 8 "v XOR drop_bit 16 v"]
    by (simp add: c parity_check_32_def parity_lookup par_card [symmetric] Let_def)
  show "parity_check_64 w = odd (card {i. bit w i})"
    using par_fold [of 32 w] par_fold [of 16 "w XOR drop_bit 32 w"]
      par_fold [of 8 "(w XOR drop_bit 32 w) XOR drop_bit 16 (w XOR drop_bit 32 w)"]
    by (simp add: c parity_check_64_def parity_lookup par_card [symmetric] Let_def)
qed

end
