(* ===== verification/Palf_Checksum.thy ===== *)
theory Palf_Checksum
  imports Ob_Checksum
begin

section \<open>The accumulated log checksum: \<^verbatim>\<open>logservice/palf/log_checksum.h\<close>, \<^verbatim>\<open>log_checksum.cpp\<close>\<close>

text \<open>
  Every group log carries an accumulated checksum, the CRC of its data checksum from the
  accumulated checksum of the log before it. A leader acquires it, a follower verifies it.
  Modelled is the whole class. The choice of the CRC routine and the address of the argument
  are parameters; the eight bytes of the data checksum are read in memory order.
\<close>

record LogChecksum =
  ck_is_inited :: bool
  prev_accum_checksum :: "64 word"
  accum_checksum :: "64 word"
  verify_checksum :: "64 word"

definition ck_new :: LogChecksum where
  "ck_new = \<lparr> ck_is_inited = False, prev_accum_checksum = 0, accum_checksum = 0, verify_checksum = 0 \<rparr>"

definition ck_init :: "64 word \<Rightarrow> LogChecksum \<Rightarrow> ob_ret \<times> LogChecksum" where
  "ck_init accum c =
     (if ck_is_inited c then (OB_INIT_TWICE, c)
      else (OB_SUCCESS, c \<lparr> accum_checksum := accum, verify_checksum := accum, ck_is_inited := True \<rparr>))"

definition ck_destroy :: "LogChecksum \<Rightarrow> LogChecksum" where
  "ck_destroy c = c \<lparr> ck_is_inited := False, accum_checksum := 0, verify_checksum := 0 \<rparr>"

definition acquire_accum_checksum ::
  "bool \<Rightarrow> nat \<Rightarrow> 64 word \<Rightarrow> 64 word \<Rightarrow> LogChecksum \<Rightarrow> ob_ret \<times> 64 word \<times> LogChecksum" where
  "acquire_accum_checksum hw addr data_checksum out c =
     (if \<not> ck_is_inited c then (OB_NOT_INIT, out, c)
      else let a = ob_crc64 hw addr (accum_checksum c) (le_bytes data_checksum) in
           (OB_SUCCESS, a, c \<lparr> prev_accum_checksum := accum_checksum c, accum_checksum := a \<rparr>))"

definition verify_accum_checksum_static ::
  "bool \<Rightarrow> nat \<Rightarrow> 64 word \<Rightarrow> 64 word \<Rightarrow> 64 word \<Rightarrow> ob_ret \<times> 64 word" where
  "verify_accum_checksum_static hw addr old_accum data_checksum expected_accum =
     (let new_accum = ob_crc64 hw addr old_accum (le_bytes data_checksum) in
      (if new_accum \<noteq> expected_accum then OB_CHECKSUM_ERROR else OB_SUCCESS, new_accum))"

definition verify_accum_checksum ::
  "bool \<Rightarrow> nat \<Rightarrow> 64 word \<Rightarrow> 64 word \<Rightarrow> LogChecksum \<Rightarrow> ob_ret \<times> LogChecksum" where
  "verify_accum_checksum hw addr data_checksum accum c =
     (if \<not> ck_is_inited c then (OB_NOT_INIT, c)
      else case verify_accum_checksum_static hw addr (verify_checksum c) data_checksum accum of
             (r, new_verify) \<Rightarrow>
               if r \<noteq> OB_SUCCESS then (r, c) else (OB_SUCCESS, c \<lparr> verify_checksum := new_verify \<rparr>))"

definition rollback_accum_checksum :: "64 word \<Rightarrow> LogChecksum \<Rightarrow> ob_ret \<times> LogChecksum" where
  "rollback_accum_checksum curr_accum c =
     (if curr_accum \<noteq> accum_checksum c then (OB_STATE_NOT_MATCH, c)
      else (OB_SUCCESS, c \<lparr> accum_checksum := prev_accum_checksum c, prev_accum_checksum := 0 \<rparr>))"

definition set_accum_checksum :: "64 word \<Rightarrow> LogChecksum \<Rightarrow> LogChecksum" where
  "set_accum_checksum a c = c \<lparr> accum_checksum := a \<rparr>"

definition set_verify_checksum :: "64 word \<Rightarrow> LogChecksum \<Rightarrow> LogChecksum" where
  "set_verify_checksum a c = c \<lparr> verify_checksum := a \<rparr>"

subsection \<open>The CRC as a chain\<close>

text \<open>
  What makes the chain work: mixing a datum into two different accumulated values gives two
  different values, so once two replicas diverge no equal suffix hides it.
\<close>

locale seed_chain =
  fixes mix :: "'c \<Rightarrow> 'd \<Rightarrow> 'c" and ok :: "'c \<Rightarrow> bool"
  assumes keeps: "ok c \<Longrightarrow> ok (mix c d)"
    and inj: "ok c \<Longrightarrow> ok c' \<Longrightarrow> mix c d = mix c' d \<Longrightarrow> c = c'"
begin

lemma foldl_ok: "ok c \<Longrightarrow> ok (foldl mix c ds)"
  by (induction ds arbitrary: c) (auto intro: keeps)

lemma foldl_inj: "ok c \<Longrightarrow> ok c' \<Longrightarrow> foldl mix c ds = foldl mix c' ds \<Longrightarrow> c = c'"
  by (induction ds arbitrary: c c') (auto dest: inj intro: keeps)

end

lemma crc_bit_top:
  assumes "crc32_ok c"
  shows "bit (crc_bit c) 31 \<longleftrightarrow> bit c 0"
proof -
  have p: "bit (0x82f63b78 :: 64 word) 31" by (simp add: bit_iff_odd)
  have "\<not> bit c 32" using bit_crc32_ok [OF assms, of 32] by auto
  then have "\<not> bit (drop_bit 1 c) 31" by (simp add: bit_drop_bit_eq)
  with p show ?thesis unfolding crc_bit_def by (simp add: bit_xor_iff)
qed

lemma xor_cancel: "(p :: 64 word) XOR a = p XOR b \<longleftrightarrow> a = b"
proof
  assume "p XOR a = p XOR b"
  then have "p XOR (p XOR a) = p XOR (p XOR b)" by (rule arg_cong)
  then show "a = b" by (simp only: xor.assoc [symmetric] xor_self_eq xor.left_neutral)
qed simp

lemma crc_bit_inj:
  assumes "crc32_ok a" "crc32_ok b" "crc_bit a = crc_bit b"
  shows "a = b"
proof -
  have z: "bit a 0 = bit b 0" using assms crc_bit_top by metis
  then have d: "drop_bit 1 a = drop_bit 1 b"
    using assms(3) xor_cancel [of "0x82f63b78" "drop_bit 1 a" "drop_bit 1 b"]
    unfolding crc_bit_def by (simp split: if_splits)
  show ?thesis
  proof (rule bit_word_eqI)
    fix n show "bit a n = bit b n"
    proof (cases n)
      case 0
      with z show ?thesis by simp
    next
      case (Suc m)
      have "bit (drop_bit 1 a) m = bit (drop_bit 1 b) m" by (simp only: d)
      with Suc show ?thesis by (simp add: bit_drop_bit_eq)
    qed
  qed
qed

lemma crc_bit_inj_iff: "crc32_ok a \<Longrightarrow> crc32_ok b \<Longrightarrow> crc_bit a = crc_bit b \<longleftrightarrow> a = b"
  using crc_bit_inj by blast

lemma crc_step8_inj: "crc32_ok a \<Longrightarrow> crc32_ok b \<Longrightarrow> crc_step8 a = crc_step8 b \<Longrightarrow> a = b"
  by (simp add: crc_step8_def crc_bit_inj_iff crc32_ok_bit)

lemma crc_ref_inj: "crc32_ok a \<Longrightarrow> crc32_ok b \<Longrightarrow> crc_ref a bs = crc_ref b bs \<Longrightarrow> a = b"
proof (induction bs arbitrary: a b)
  case (Cons x xs)
  have z: "crc32_ok (c XOR zext8 x)" if "crc32_ok c" for c
    using that by (intro crc32_okI) (auto simp: bit_xor_iff bit_zext8 dest: bit_crc32_ok)
  have "crc_step8 (a XOR zext8 x) = crc_step8 (b XOR zext8 x)"
  proof (rule Cons.IH)
    show "crc32_ok (crc_step8 (a XOR zext8 x))" using Cons.prems(1) by (rule crc32_ok_step)
    show "crc32_ok (crc_step8 (b XOR zext8 x))" using Cons.prems(2) by (rule crc32_ok_step)
    show "crc_ref (crc_step8 (a XOR zext8 x)) xs = crc_ref (crc_step8 (b XOR zext8 x)) xs"
      using Cons.prems(3) by simp
  qed
  then have "a XOR zext8 x = b XOR zext8 x" by (rule crc_step8_inj [OF z z, OF Cons.prems(1,2)])
  then show ?case using xor_cancel [of "zext8 x" a b] by (simp add: xor.commute)
qed simp

interpretation chain: seed_chain "\<lambda>c d. ob_crc64 hw addr c (le_bytes d)" "\<lambda>c. crc32_ok c" for hw addr
  by unfold_locales (auto simp: ob_crc64_ref dest: crc_ref_inj)

subsection \<open>Leader and follower\<close>

text \<open>A leader acquires for a sequence of data checksums; a follower verifies a sequence of pairs.\<close>

fun acquire_all :: "bool \<Rightarrow> nat \<Rightarrow> 64 word list \<Rightarrow> LogChecksum \<Rightarrow> 64 word list \<times> LogChecksum" where
  "acquire_all hw addr [] c = ([], c)"
| "acquire_all hw addr (d # ds) c =
     (case acquire_accum_checksum hw addr d 0 c of
        (r, a, c') \<Rightarrow> case acquire_all hw addr ds c' of (as, c'') \<Rightarrow> (a # as, c''))"

fun verify_all :: "bool \<Rightarrow> nat \<Rightarrow> (64 word \<times> 64 word) list \<Rightarrow> LogChecksum \<Rightarrow> ob_ret \<times> LogChecksum" where
  "verify_all hw addr [] c = (OB_SUCCESS, c)"
| "verify_all hw addr ((d, a) # ps) c =
     (case verify_accum_checksum hw addr d a c of
        (r, c') \<Rightarrow> if r \<noteq> OB_SUCCESS then (r, c') else verify_all hw addr ps c')"

lemma accum_mix: "ob_crc64 hw addr c (le_bytes d) = crc_ref (take_bit 32 c) (le_bytes d)"
  by (rule ob_crc64_low) simp

lemma verify_follows:
  assumes "ck_is_inited l" "ck_is_inited f" "ds \<noteq> []"
    and "take_bit 32 (verify_checksum f) = take_bit 32 (accum_checksum l)" "acquire_all hw addr ds l = (as, l')"
  shows "verify_all hw' addr' (zip ds as) f = (OB_SUCCESS, f \<lparr> verify_checksum := accum_checksum l' \<rparr>)"
  using assms
proof (induction ds arbitrary: l f as)
  case (Cons d ds)
  let ?a = "ob_crc64 hw addr (accum_checksum l) (le_bytes d)"
  let ?l = "l \<lparr> prev_accum_checksum := accum_checksum l, accum_checksum := ?a \<rparr>"
  obtain bs where as: "as = ?a # bs" and rest: "acquire_all hw addr ds ?l = (bs, l')"
    using Cons.prems by (auto simp: acquire_accum_checksum_def Let_def split: prod.splits)
  have same: "ob_crc64 hw' addr' (verify_checksum f) (le_bytes d) = ?a"
    using Cons.prems(4) by (simp add: accum_mix)
  have "verify_all hw' addr' (zip ds bs) (f \<lparr> verify_checksum := ?a \<rparr>) =
      (OB_SUCCESS, (f \<lparr> verify_checksum := ?a \<rparr>) \<lparr> verify_checksum := accum_checksum l' \<rparr>)"
  proof (cases "ds = []")
    case True
    then show ?thesis using rest by auto
  next
    case False
    then show ?thesis using Cons.prems rest by (intro Cons.IH [of ?l]) simp_all
  qed
  then show ?case
    using Cons.prems same by (simp add: as verify_accum_checksum_def verify_accum_checksum_static_def Let_def)
qed simp

lemma verify_diverged:
  assumes "ck_is_inited l" "ck_is_inited f" "take_bit 32 (verify_checksum f) \<noteq> take_bit 32 (accum_checksum l)"
    and "acquire_all hw addr (d # ds) l = (as, l')"
  shows "verify_all hw' addr' (zip (d # ds) as) f = (OB_CHECKSUM_ERROR, f)"
proof -
  obtain bs where as: "as = ob_crc64 hw addr (accum_checksum l) (le_bytes d) # bs"
    using assms(1,4) by (auto simp: acquire_accum_checksum_def Let_def split: prod.splits)
  have "ob_crc64 hw' addr' (verify_checksum f) (le_bytes d) \<noteq> ob_crc64 hw addr (accum_checksum l) (le_bytes d)"
    using assms(3) crc_ref_inj [of "take_bit 32 (verify_checksum f)" "take_bit 32 (accum_checksum l)"] by (auto simp: accum_mix)
  with assms(2) show ?thesis
    by (simp add: as verify_accum_checksum_def verify_accum_checksum_static_def)
qed

text \<open>Every acquired value has 32 bits; only a value set from outside, such as the initial \<^verbatim>\<open>-1\<close>, has more.\<close>

lemma low_word:
  assumes "uint (x :: 64 word) < 2 ^ 32"
  shows "take_bit 32 x = x"
proof -
  have "uint (take_bit 32 x) = uint x" using assms by (simp add: unsigned_take_bit_eq take_bit_int_eq_self)
  then show ?thesis by (simp only: word_uint_eq_iff)
qed

lemma crc32_ok_uint:
  assumes "crc32_ok x"
  shows "uint x < 2 ^ 32"
proof -
  have "uint (take_bit 32 x) < 2 ^ 32" by (simp only: unsigned_take_bit_eq take_bit_int_less_exp)
  then show ?thesis unfolding assms .
qed

lemma acquired_low:
  assumes "ck_is_inited l" "acquire_all hw addr ds l = (as, l')"
  shows "list_all (\<lambda>a. uint a < 2 ^ 32) as" "ds \<noteq> [] \<Longrightarrow> uint (accum_checksum l') < 2 ^ 32"
proof -
  have "list_all (\<lambda>a. uint a < 2 ^ 32) as \<and> (ds \<noteq> [] \<longrightarrow> uint (accum_checksum l') < 2 ^ 32)"
    using assms
  proof (induction ds arbitrary: l as)
    case (Cons d ds)
    let ?a = "ob_crc64 hw addr (accum_checksum l) (le_bytes d)"
    obtain bs where as: "as = ?a # bs"
      and rest: "acquire_all hw addr ds (l \<lparr> prev_accum_checksum := accum_checksum l, accum_checksum := ?a \<rparr>) = (bs, l')"
      using Cons.prems by (auto simp: acquire_accum_checksum_def Let_def split: prod.splits)
    have "uint ?a < 2 ^ 32" unfolding accum_mix by (intro crc32_ok_uint crc32_ok_ref) simp
    then show ?case using Cons.IH [OF _ rest] Cons.prems rest by (cases ds) (auto simp: as)
  qed simp
  then show "list_all (\<lambda>a. uint a < 2 ^ 32) as" "ds \<noteq> [] \<Longrightarrow> uint (accum_checksum l') < 2 ^ 32" by simp_all
qed

text \<open>
  C31. The accumulated checksum separates replicas. The CRC mixes in the low 32 bits of the value
  before it and gives a value of 32 bits. What a leader acquires for any non-empty sequence of logs is
  accepted entry by entry by a follower exactly when the two stood at values with the same low 32 bits,
  whichever CRC routines the two machines use; the follower then stands at the leader's new value.
  Otherwise it is refused at the first entry with \<^verbatim>\<open>OB_CHECKSUM_ERROR\<close> and keeps its state, so a
  divergence is never absorbed by equal later logs. Since every acquired value has 32 bits, the test
  after the first log is for equal values; values of more bits, such as the initial \<^verbatim>\<open>-1\<close>, count only
  with their low half.
\<close>

theorem verify_accepts_exactly_the_leader:
  assumes "ck_is_inited l" "ck_is_inited f" "ds \<noteq> []" "acquire_all hw addr ds l = (as, l')"
  shows "verify_all hw' addr' (zip ds as) f =
    (if take_bit 32 (verify_checksum f) = take_bit 32 (accum_checksum l)
     then (OB_SUCCESS, f \<lparr> verify_checksum := accum_checksum l' \<rparr>) else (OB_CHECKSUM_ERROR, f))
    \<and> list_all (\<lambda>a. uint a < 2 ^ 32) as \<and> uint (accum_checksum l') < 2 ^ 32
    \<and> (uint (verify_checksum f) < 2 ^ 32 \<and> uint (accum_checksum l) < 2 ^ 32 \<longrightarrow>
        (fst (verify_all hw' addr' (zip ds as) f) = OB_SUCCESS \<longleftrightarrow> verify_checksum f = accum_checksum l))"
proof -
  obtain d ds' where ds: "ds = d # ds'" using assms(3) by (cases ds) auto
  have v: "verify_all hw' addr' (zip ds as) f =
    (if take_bit 32 (verify_checksum f) = take_bit 32 (accum_checksum l)
     then (OB_SUCCESS, f \<lparr> verify_checksum := accum_checksum l' \<rparr>) else (OB_CHECKSUM_ERROR, f))"
    using verify_follows [OF assms(1,2,3) _ assms(4)] verify_diverged [OF assms(1,2) _ assms(4) [unfolded ds]]
    by (simp add: ds)
  show ?thesis
    unfolding v using acquired_low [OF assms(1,4)] assms(3) low_word by auto
qed

theorem verify_accepts_exactly_the_leader_witness:
  "\<exists>as l'. acquire_all True 0 [11, 12] (snd (ck_init 5 ck_new)) = (as, l')
     \<and> verify_all False 3 (zip [11, 12] as) (snd (ck_init 6 ck_new)) = (OB_CHECKSUM_ERROR, snd (ck_init 6 ck_new))"
proof -
  obtain as l' where a: "acquire_all True 0 [11, 12] (snd (ck_init 5 ck_new)) = (as, l')"
    by (rule prod.exhaust)
  have i: "ck_is_inited (snd (ck_init 5 ck_new))" "ck_is_inited (snd (ck_init 6 ck_new))"
    by (simp_all add: ck_init_def ck_new_def)
  have u: "[11, 12 :: 64 word] \<noteq> []"
    "take_bit 32 (verify_checksum (snd (ck_init 6 ck_new))) \<noteq> take_bit 32 (accum_checksum (snd (ck_init 5 ck_new)))"
    by (simp_all add: ck_init_def ck_new_def)
  have "verify_all False 3 (zip [11, 12] as) (snd (ck_init 6 ck_new)) = (OB_CHECKSUM_ERROR, snd (ck_init 6 ck_new))"
    using verify_accepts_exactly_the_leader [OF i u(1) a, of False 3] unfolding if_not_P [OF u(2)] by (rule conjunct1)
  with a show ?thesis by blast
qed

text \<open>
  C32. A rollback undoes the last acquisition: given the accumulated value just acquired it
  restores the one before, so the next acquisition gives what it would have given, and given any
  other value it is refused with \<^verbatim>\<open>OB_STATE_NOT_MATCH\<close> and changes nothing.
\<close>

theorem rollback_undoes_acquire:
  assumes "acquire_accum_checksum hw addr d out c = (OB_SUCCESS, a, c')"
  shows "rollback_accum_checksum x c' =
      (if x = a then (OB_SUCCESS, c \<lparr> prev_accum_checksum := 0 \<rparr>) else (OB_STATE_NOT_MATCH, c'))
    \<and> fst (snd (acquire_accum_checksum hw addr e out (snd (rollback_accum_checksum a c'))))
      = fst (snd (acquire_accum_checksum hw addr e out c))"
  using assms
  by (auto simp: acquire_accum_checksum_def rollback_accum_checksum_def Let_def split: if_splits)

theorem rollback_undoes_acquire_witness:
  "\<exists>a c'. acquire_accum_checksum True 0 9 0 (snd (ck_init 5 ck_new)) = (OB_SUCCESS, a, c')
     \<and> rollback_accum_checksum a c' = (OB_SUCCESS, snd (ck_init 5 ck_new))"
proof -
  obtain r a c' where c: "acquire_accum_checksum True 0 9 0 (snd (ck_init 5 ck_new)) = (r, a, c')"
    by (metis prod_cases3)
  have "ck_is_inited (snd (ck_init 5 ck_new))" by (simp add: ck_init_def ck_new_def)
  with c have r: "r = OB_SUCCESS" by (simp add: acquire_accum_checksum_def Let_def)
  have "rollback_accum_checksum a c' = (OB_SUCCESS, (snd (ck_init 5 ck_new)) \<lparr> prev_accum_checksum := 0 \<rparr>)"
    using conjunct1 [OF rollback_undoes_acquire [OF c [unfolded r], of a]] by (simp only: refl if_True)
  moreover have "(snd (ck_init 5 ck_new)) \<lparr> prev_accum_checksum := 0 \<rparr> = snd (ck_init 5 ck_new)"
    by (simp add: ck_init_def ck_new_def)
  ultimately show ?thesis using c r by metis
qed

end
