(* ===== verification/Ob_Array.thy ===== *)
theory Ob_Array
  imports Ob_Codec "HOL-Library.Sublist"
begin

section \<open>Growable arrays: \<^verbatim>\<open>oblib/lib/container/ob_array.h\<close>\<close>

text \<open>
  \<^verbatim>\<open>ObSEArrayImpl\<close> for trivial element types (the \<^verbatim>\<open>ObClassOp<T, true>\<close> strategy): the
  elements live in a local buffer of \<^verbatim>\<open>LOCAL_ARRAY_SIZE\<close> cells until the count reaches the
  capacity, then in a heap block whose byte size is rounded up to the block size. The model keeps
  all cells of the storage, the ones behind the count included, and takes the class parameters
  (\<open>local\<close> for \<^verbatim>\<open>LOCAL_ARRAY_SIZE\<close>, \<open>sz\<close> for \<^verbatim>\<open>sizeof(T)\<close>, \<open>zero\<close> for an element of
  zero bytes) and the block allocator as arguments: \<open>alloc n\<close> is \<open>None\<close> when \<open>n\<close> bytes
  are refused and otherwise gives what the fresh cells happen to hold. Elements and the arrays to
  append or assign are passed by value: a \<^verbatim>\<open>push_back\<close> of a reference to an element of the array
  itself, or of the array onto itself, is outside the model.

  The lemmas show that every operation keeps the count within the storage and acts on the
  sequence of the first \<^verbatim>\<open>count_\<close> cells as the corresponding list operation, whatever the
  fresh cells hold.
\<close>

type_synonym 'a block_alloc = "int \<Rightarrow> (nat \<Rightarrow> 'a) option"

record 'a ObSEArray =
  arr_data :: "'a list"
  arr_count :: int
  arr_capacity :: int
  arr_block_size :: int
  arr_error :: ob_ret

definition arr_new :: "(nat \<Rightarrow> 'a) \<Rightarrow> nat \<Rightarrow> int \<Rightarrow> int \<Rightarrow> 'a ObSEArray" where
  "arr_new junk local sz block_size =
     \<lparr> arr_data = map junk [0..<local], arr_count = 0, arr_capacity = int local,
       arr_block_size = max sz block_size, arr_error = OB_SUCCESS \<rparr>"

definition arr_at :: "int \<Rightarrow> 'a \<Rightarrow> 'a ObSEArray \<Rightarrow> ob_ret \<times> 'a" where
  "arr_at idx obj a =
     (if 0 > idx \<or> idx \<ge> arr_count a then (OB_ARRAY_OUT_OF_RANGE, obj)
      else (OB_SUCCESS, arr_data a ! nat idx))"

definition arr_reuse :: "'a ObSEArray \<Rightarrow> 'a ObSEArray" where
  "arr_reuse a = a \<lparr> arr_count := 0, arr_error := OB_SUCCESS \<rparr>"

definition arr_destroy :: "(nat \<Rightarrow> 'a) \<Rightarrow> nat \<Rightarrow> 'a ObSEArray \<Rightarrow> 'a ObSEArray" where
  "arr_destroy junk local a =
     a \<lparr> arr_data := (if arr_capacity a \<noteq> int local then map junk [0..<local] else arr_data a),
         arr_count := 0, arr_capacity := int local, arr_error := OB_SUCCESS \<rparr>"

definition arr_expand :: "(nat \<Rightarrow> 'a) \<Rightarrow> int \<Rightarrow> 'a ObSEArray \<Rightarrow> 'a list" where
  "arr_expand cells cap a =
     take (nat (arr_count a)) (arr_data a) @ map cells [nat (arr_count a)..<nat cap]"

definition arr_round :: "int \<Rightarrow> int \<Rightarrow> int" where
  "arr_round block_size n =
     (let plus = n mod block_size in n + (if plus = 0 then 0 else block_size - plus))"

definition arr_reserve :: "int \<Rightarrow> 'a block_alloc \<Rightarrow> int \<Rightarrow> 'a ObSEArray \<Rightarrow> ob_ret \<times> 'a ObSEArray" where
  "arr_reserve sz alloc capacity a =
     (if capacity > arr_capacity a then
        let new_size = arr_round (arr_block_size a) (capacity * sz) in
        case alloc new_size of
          None \<Rightarrow> (OB_ALLOCATE_MEMORY_FAILED, a)
        | Some cells \<Rightarrow>
            (OB_SUCCESS, a \<lparr> arr_data := arr_expand cells (new_size div sz) a,
                              arr_capacity := new_size div sz \<rparr>)
      else (OB_SUCCESS, a))"

definition arr_grow :: "int \<Rightarrow> 'a block_alloc \<Rightarrow> 'a ObSEArray \<Rightarrow> ob_ret \<times> 'a ObSEArray" where
  "arr_grow sz alloc a =
     (if arr_count a = arr_capacity a then
        let new_capacity = 2 * arr_capacity a in
        arr_reserve sz alloc (if new_capacity = 0 then 1 else new_capacity) a
      else (OB_SUCCESS, a))"

definition arr_push_back :: "int \<Rightarrow> 'a block_alloc \<Rightarrow> 'a \<Rightarrow> 'a ObSEArray \<Rightarrow> ob_ret \<times> 'a ObSEArray" where
  "arr_push_back sz alloc obj a =
     (case arr_grow sz alloc a of (ret, a') \<Rightarrow>
        if ret = OB_SUCCESS
        then (ret, a' \<lparr> arr_data := (arr_data a')[nat (arr_count a') := obj],
                        arr_count := arr_count a' + 1 \<rparr>)
        else (ret, a'))"

fun arr_push_back_all ::
  "int \<Rightarrow> 'a block_alloc \<Rightarrow> 'a list \<Rightarrow> 'a ObSEArray \<Rightarrow> ob_ret \<times> 'a ObSEArray" where
  "arr_push_back_all sz alloc [] a = (OB_SUCCESS, a)"
| "arr_push_back_all sz alloc (x # xs) a =
     (case arr_push_back sz alloc x a of (ret, a') \<Rightarrow>
        if ret \<noteq> OB_SUCCESS then (ret, a') else arr_push_back_all sz alloc xs a')"

definition arr_pop_back :: "'a ObSEArray \<Rightarrow> 'a ObSEArray" where
  "arr_pop_back a = (if arr_count a \<le> 0 then a else a \<lparr> arr_count := arr_count a - 1 \<rparr>)"

definition arr_pop_back_obj :: "'a \<Rightarrow> 'a ObSEArray \<Rightarrow> ob_ret \<times> 'a \<times> 'a ObSEArray" where
  "arr_pop_back_obj obj a =
     (if arr_count a \<le> 0 then (OB_ENTRY_NOT_EXIST, obj, a)
      else (OB_SUCCESS, arr_data a ! nat (arr_count a - 1), a \<lparr> arr_count := arr_count a - 1 \<rparr>))"

text \<open>\<^verbatim>\<open>memmove(&arr[idx], &arr[idx + 1], ((--arr_size) - idx) * sizeof(T))\<close>.\<close>

definition arr_remove :: "int \<Rightarrow> 'a ObSEArray \<Rightarrow> ob_ret \<times> 'a ObSEArray" where
  "arr_remove idx a =
     (if 0 > idx \<or> idx \<ge> arr_count a then (OB_ARRAY_OUT_OF_RANGE, a)
      else let n = nat (arr_count a - 1 - idx); i = nat idx; d = arr_data a in
        (OB_SUCCESS, a \<lparr> arr_data := take i d @ take n (drop (Suc i) d) @ drop (i + n) d,
                          arr_count := arr_count a - 1 \<rparr>))"

definition arr_alloc_place_holder ::
  "int \<Rightarrow> 'a block_alloc \<Rightarrow> 'a ObSEArray \<Rightarrow> int option \<times> 'a ObSEArray" where
  "arr_alloc_place_holder sz alloc a =
     (case arr_grow sz alloc a of (ret, a') \<Rightarrow>
        if ret = OB_SUCCESS then (Some (arr_count a'), a' \<lparr> arr_count := arr_count a' + 1 \<rparr>)
        else (None, a'))"

definition arr_prepare_allocate ::
  "'a \<Rightarrow> int \<Rightarrow> 'a block_alloc \<Rightarrow> int \<Rightarrow> 'a ObSEArray \<Rightarrow> ob_ret \<times> 'a ObSEArray" where
  "arr_prepare_allocate zero sz alloc capacity a =
     (case (if arr_capacity a < capacity then arr_reserve sz alloc capacity a else (OB_SUCCESS, a)) of
        (ret, a') \<Rightarrow>
          if ret = OB_SUCCESS \<and> capacity > arr_count a'
          then (ret, a' \<lparr> arr_data := take (nat (arr_count a')) (arr_data a')
                              @ replicate (nat (capacity - arr_count a')) zero
                              @ drop (nat capacity) (arr_data a'),
                          arr_count := capacity \<rparr>)
          else (ret, a'))"

definition arr_assign :: "int \<Rightarrow> 'a block_alloc \<Rightarrow> 'a list \<Rightarrow> 'a ObSEArray \<Rightarrow> ob_ret \<times> 'a ObSEArray" where
  "arr_assign sz alloc other a =
     (case arr_reserve sz alloc (int (length other)) (arr_reuse a) of (ret, a') \<Rightarrow>
        if ret = OB_SUCCESS
        then (ret, a' \<lparr> arr_data := other @ drop (length other) (arr_data a'),
                        arr_count := int (length other) \<rparr>)
        else (ret, a'))"

definition arr_copy :: "int \<Rightarrow> 'a block_alloc \<Rightarrow> 'a list \<Rightarrow> 'a ObSEArray \<Rightarrow> 'a ObSEArray" where
  "arr_copy sz alloc other a =
     (case arr_assign sz alloc other a of (ret, a') \<Rightarrow> a' \<lparr> arr_error := ret \<rparr>)"

definition arr_get_data_size :: "nat \<Rightarrow> int \<Rightarrow> 'a ObSEArray \<Rightarrow> int" where
  "arr_get_data_size local sz a =
     (if arr_capacity a > int local then arr_round (arr_block_size a) (arr_capacity a * sz)
      else arr_capacity a * sz)"

subsection \<open>The sequence an array stands for\<close>

definition arr_list :: "'a ObSEArray \<Rightarrow> 'a list" where
  "arr_list a = take (nat (arr_count a)) (arr_data a)"

definition arr_inv :: "int \<Rightarrow> 'a ObSEArray \<Rightarrow> bool" where
  "arr_inv sz a \<longleftrightarrow> 0 < sz \<and> sz \<le> arr_block_size a \<and> 0 \<le> arr_count a \<and> arr_count a \<le> arr_capacity a
     \<and> int (length (arr_data a)) = arr_capacity a"

named_theorems arr_defs \<open>definitions of the array operations\<close>

lemmas [arr_defs] = arr_new_def arr_at_def arr_reuse_def arr_destroy_def arr_pop_back_def
  arr_pop_back_obj_def arr_remove_def arr_list_def arr_inv_def

lemma arr_round_ge: "0 < b \<Longrightarrow> n \<le> arr_round b n"
  by (auto simp: arr_round_def Let_def less_imp_le [OF pos_mod_bound])

lemma arr_round_capacity: "0 < sz \<Longrightarrow> sz \<le> b \<Longrightarrow> c \<le> arr_round b (c * sz) div sz"
  using zdiv_mono1 [OF arr_round_ge [of b "c * sz"], of sz] by simp

lemma arr_list_length [simp]: "arr_inv sz a \<Longrightarrow> int (length (arr_list a)) = arr_count a"
  by (auto simp: arr_defs)

lemma arr_reserve_spec:
  assumes "arr_inv sz a" "arr_reserve sz alloc c a = (ret, a')"
  shows "arr_inv sz a' \<and> arr_list a' = arr_list a \<and> arr_count a' = arr_count a
    \<and> (ret = OB_SUCCESS \<and> c \<le> arr_capacity a' \<or> ret = OB_ALLOCATE_MEMORY_FAILED \<and> a' = a)"
proof (cases "c > arr_capacity a")
  case True
  define n where "n = arr_round (arr_block_size a) (c * sz)"
  have n: "c \<le> n div sz" using assms(1) arr_round_capacity by (auto simp: arr_inv_def n_def)
  show ?thesis
  proof (cases "alloc n")
    case None
    with True assms show ?thesis by (auto simp: arr_reserve_def n_def [symmetric] Let_def)
  next
    case (Some cells)
    with True assms have a': "ret = OB_SUCCESS"
      "a' = a \<lparr> arr_data := arr_expand cells (n div sz) a, arr_capacity := n div sz \<rparr>"
      by (auto simp: arr_reserve_def n_def [symmetric] Let_def)
    show ?thesis using assms(1) n True by (auto simp: a' arr_defs arr_expand_def)
  qed
qed (use assms in \<open>auto simp: arr_reserve_def\<close>)

lemma arr_grow_spec:
  assumes "arr_inv sz a" "arr_grow sz alloc a = (ret, a')"
  shows "arr_inv sz a' \<and> arr_list a' = arr_list a \<and> arr_count a' = arr_count a
    \<and> (ret = OB_SUCCESS \<and> arr_count a' < arr_capacity a' \<or> ret = OB_ALLOCATE_MEMORY_FAILED \<and> a' = a)"
proof (cases "arr_count a = arr_capacity a")
  case True
  then show ?thesis
    using arr_reserve_spec [OF assms(1), of alloc "if 2 * arr_capacity a = 0 then 1 else 2 * arr_capacity a" ret a'] assms
    by (auto simp: arr_grow_def Let_def arr_inv_def split: if_splits)
qed (use assms in \<open>auto simp: arr_grow_def arr_inv_def\<close>)

lemma arr_push_back_spec:
  assumes "arr_inv sz a" "arr_push_back sz alloc x a = (ret, a')"
  shows "arr_inv sz a' \<and> (ret = OB_SUCCESS \<and> arr_list a' = arr_list a @ [x]
    \<or> ret = OB_ALLOCATE_MEMORY_FAILED \<and> a' = a)"
proof -
  obtain r b where g: "arr_grow sz alloc a = (r, b)" by fastforce
  note s = arr_grow_spec [OF assms(1) g]
  show ?thesis
  proof (cases "r = OB_SUCCESS")
    case True
    with s have c: "nat (arr_count b) < length (arr_data b)" by (auto simp: arr_inv_def)
    have "take (Suc (nat (arr_count b))) ((arr_data b)[nat (arr_count b) := x]) = arr_list b @ [x]"
      using c by (simp add: arr_list_def take_Suc_conv_app_nth)
    with True s assms g show ?thesis
      by (auto simp: arr_push_back_def arr_inv_def arr_list_def nat_add_distrib)
  qed (use s assms g in \<open>auto simp: arr_push_back_def\<close>)
qed

lemma arr_push_back_room:
  "arr_inv sz a \<Longrightarrow> arr_count a < arr_capacity a \<Longrightarrow> fst (arr_push_back sz alloc x a) = OB_SUCCESS"
  by (simp add: arr_push_back_def arr_grow_def)

lemma arr_push_back_all_spec:
  "arr_inv sz a \<Longrightarrow> arr_push_back_all sz alloc xs a = (ret, a') \<Longrightarrow>
   arr_inv sz a' \<and> (\<exists>ys. prefix ys xs \<and> arr_list a' = arr_list a @ ys
      \<and> (ret = OB_SUCCESS \<and> ys = xs \<or> ret = OB_ALLOCATE_MEMORY_FAILED \<and> ys \<noteq> xs))"
proof (induction sz alloc xs a rule: arr_push_back_all.induct)
  case (2 sz alloc x xs a)
  obtain r b where p: "arr_push_back sz alloc x a = (r, b)" by fastforce
  note s = arr_push_back_spec [OF "2.prems"(1) p]
  show ?case
  proof (cases "r = OB_SUCCESS")
    case True
    with s "2.prems" p "2.IH" [of r b] obtain ys where
      "arr_inv sz a'" "prefix ys xs" "arr_list a' = arr_list b @ ys"
      "ret = OB_SUCCESS \<and> ys = xs \<or> ret = OB_ALLOCATE_MEMORY_FAILED \<and> ys \<noteq> xs" by auto
    with True s show ?thesis by (intro conjI exI [of _ "x # ys"]) auto
  qed (use s "2.prems" p in auto)
qed auto

lemma arr_remove_list:
  assumes "arr_inv sz a" "0 \<le> i" "i < arr_count a"
  shows "arr_inv sz (snd (arr_remove i a))
    \<and> arr_list (snd (arr_remove i a)) = take (nat i) (arr_list a) @ drop (Suc (nat i)) (arr_list a)"
proof -
  obtain k c where k: "i = int k" "arr_count a = int c" "k < c" "c \<le> length (arr_data a)"
    using assms by (auto simp: arr_inv_def nat_le_iff intro!: that [of "nat i" "nat (arr_count a)"])
  have "nat (int c - 1 - int k) = c - 1 - k" "nat (int c - 1) = c - 1" "nat (int k + 1) = Suc k" using k(3) by auto
  moreover have "take k (arr_data a) @ take (c - Suc k) (drop (Suc k) (arr_data a)) = take (c - Suc 0) (take k (arr_data a) @ take (c - Suc k) (drop (Suc k) (arr_data a)))"
    using k(3,4) by simp
  moreover have "min (length (arr_data a) - Suc k) (c - Suc k) = c - Suc k" using k(4) by simp
  ultimately show ?thesis using k assms(1)
    by (auto simp: arr_remove_def Let_def arr_inv_def arr_list_def drop_take)
qed

lemma arr_prepare_allocate_spec:
  assumes "arr_inv sz a" "arr_prepare_allocate zero sz alloc c a = (ret, a')"
  shows "arr_inv sz a' \<and> (ret = OB_SUCCESS
      \<and> arr_list a' = arr_list a @ replicate (nat (c - arr_count a)) zero
    \<or> ret = OB_ALLOCATE_MEMORY_FAILED \<and> a' = a)"
proof -
  obtain r b where g: "(if arr_capacity a < c then arr_reserve sz alloc c a else (OB_SUCCESS, a)) = (r, b)"
    by fastforce
  have s: "arr_inv sz b \<and> arr_list b = arr_list a \<and> arr_count b = arr_count a
    \<and> (r = OB_SUCCESS \<and> c \<le> arr_capacity b \<or> r = OB_ALLOCATE_MEMORY_FAILED \<and> b = a)"
    using arr_reserve_spec [OF assms(1), of alloc c r b] g assms(1) by (auto split: if_splits)
  show ?thesis
  proof (cases "r = OB_SUCCESS \<and> c > arr_count b")
    case True
    with assms(2) g have a': "ret = OB_SUCCESS" "a' = b \<lparr> arr_data := take (nat (arr_count b)) (arr_data b)
         @ replicate (nat (c - arr_count b)) zero @ drop (nat c) (arr_data b), arr_count := c \<rparr>"
      by (auto simp: arr_prepare_allocate_def)
    have c: "nat (arr_count b) + nat (c - arr_count b) = nat c" "nat (arr_count b) \<le> length (arr_data b)"
      "nat c \<le> length (arr_data b)"
      using True s by (auto simp: arr_inv_def)
    then have "arr_list a' = arr_list a @ replicate (nat (c - arr_count a)) zero"
      using s by (auto simp: a' arr_list_def)
    moreover have "arr_inv sz a'" using True s c by (simp add: a' arr_inv_def)
    ultimately show ?thesis using a'(1) by simp
  next
    case False
    with assms(2) g have a': "ret = r" "a' = b" by (auto simp: arr_prepare_allocate_def)
    have "nat (c - arr_count a) = 0" if "r = OB_SUCCESS" using False s that by simp
    with s show ?thesis unfolding a' by (metis append_Nil2 replicate_0)
  qed
qed

lemma arr_assign_spec:
  assumes "arr_inv sz a" "arr_assign sz alloc xs a = (ret, a')"
  shows "arr_inv sz a' \<and> (ret = OB_SUCCESS \<and> arr_list a' = xs
    \<or> ret = OB_ALLOCATE_MEMORY_FAILED \<and> arr_list a' = [])"
proof -
  obtain r b where g: "arr_reserve sz alloc (int (length xs)) (arr_reuse a) = (r, b)" by fastforce
  have i: "arr_inv sz (arr_reuse a)" "arr_list (arr_reuse a) = []"
    using assms(1) by (auto simp: arr_defs)
  from arr_reserve_spec [OF i(1) g] i(2) assms(2) g show ?thesis
    by (auto simp: arr_assign_def arr_inv_def arr_list_def split: if_splits)
qed

lemma arr_pop_list:
  assumes "arr_inv sz a" "0 < arr_count a"
  shows "arr_inv sz (arr_pop_back a) \<and> arr_list (arr_pop_back a) = butlast (arr_list a)
    \<and> arr_pop_back_obj obj a = (OB_SUCCESS, last (arr_list a), arr_pop_back a)"
proof -
  obtain c where c: "arr_count a = int (Suc c)" "Suc c \<le> length (arr_data a)"
    using assms by (auto simp: arr_inv_def intro!: that [of "nat (arr_count a - 1)"])
  moreover have "nat (1 + int c) = Suc c" by simp
  ultimately show ?thesis using assms
    by (auto simp: arr_pop_back_def arr_pop_back_obj_def arr_inv_def arr_list_def butlast_take
        take_Suc_conv_app_nth)
qed

subsection \<open>Properties\<close>

text \<open>
  C39. Every growing operation of an array is the list operation it stands for, whatever the
  allocator answers and fresh memory holds: \<^verbatim>\<open>push_back\<close> appends or, when the block is refused,
  leaves the array as it was with \<^verbatim>\<open>OB_ALLOCATE_MEMORY_FAILED\<close>; \<^verbatim>\<open>push_back\<close> of several elements
  appends all of them or the prefix that fitted; \<^verbatim>\<open>prepare_allocate\<close> appends zero elements;
  \<^verbatim>\<open>assign\<close> replaces the contents or empties the array; the count stays within the storage
  throughout.
\<close>

theorem arr_growth_refines_list:
  assumes "arr_inv sz a"
  shows "(case arr_push_back sz alloc x a of (ret, a') \<Rightarrow> arr_inv sz a'
      \<and> (ret = OB_SUCCESS \<and> arr_list a' = arr_list a @ [x] \<or> ret = OB_ALLOCATE_MEMORY_FAILED \<and> a' = a))
    \<and> (case arr_push_back_all sz alloc xs a of (ret, a') \<Rightarrow> arr_inv sz a'
      \<and> (\<exists>ys. prefix ys xs \<and> arr_list a' = arr_list a @ ys \<and> (ret = OB_SUCCESS \<longleftrightarrow> ys = xs)))
    \<and> (case arr_prepare_allocate zero sz alloc c a of (ret, a') \<Rightarrow> arr_inv sz a'
      \<and> (ret = OB_SUCCESS \<and> arr_list a' = arr_list a @ replicate (nat (c - arr_count a)) zero
        \<or> ret = OB_ALLOCATE_MEMORY_FAILED \<and> a' = a))
    \<and> (case arr_assign sz alloc xs a of (ret, a') \<Rightarrow> arr_inv sz a'
      \<and> (ret = OB_SUCCESS \<and> arr_list a' = xs \<or> ret = OB_ALLOCATE_MEMORY_FAILED \<and> arr_list a' = []))"
  using arr_push_back_spec [OF assms] arr_push_back_all_spec [OF assms]
    arr_prepare_allocate_spec [OF assms] arr_assign_spec [OF assms]
  by (intro conjI) (fastforce split: prod.splits)+

definition arr_example :: "nat ObSEArray" where
  "arr_example = snd (arr_push_back 8 (\<lambda>n. None) 7 (arr_new (\<lambda>i. 99) 1 8 20))"

lemma arr_example_inv: "arr_inv 8 arr_example" "arr_list arr_example = [7]"
  by (simp_all add: arr_example_def arr_push_back_def arr_grow_def arr_new_def arr_inv_def arr_list_def)

theorem arr_growth_refines_list_witness:
  "arr_inv 8 arr_example
   \<and> (\<exists>a'. arr_push_back 8 (\<lambda>n. Some (\<lambda>i. 55)) 9 arr_example = (OB_SUCCESS, a')
        \<and> arr_inv 8 a' \<and> arr_list a' = [7, 9] \<and> arr_capacity a' = 2)"
proof -
  obtain ret a' where p: "arr_push_back 8 (\<lambda>n. Some (\<lambda>i. 55)) 9 arr_example = (ret, a')" by fastforce
  have "fst (arr_push_back 8 (\<lambda>n. Some (\<lambda>i. 55)) 9 arr_example) = OB_SUCCESS
    \<and> arr_capacity (snd (arr_push_back 8 (\<lambda>n. Some (\<lambda>i. 55)) 9 arr_example)) = 2"
    by (simp add: arr_example_def arr_push_back_def arr_grow_def arr_new_def arr_reserve_def arr_round_def)
  then show ?thesis
    using conjunct1 [OF arr_growth_refines_list [OF arr_example_inv(1), where alloc = "\<lambda>n. Some (\<lambda>i. 55)" and x = 9]]
      p arr_example_inv by auto
qed

text \<open>
  C40. \<^verbatim>\<open>remove\<close> deletes exactly the element at its index and \<^verbatim>\<open>pop_back\<close> exactly the last one,
  handing it out; an index outside the array or an empty array is answered with
  \<^verbatim>\<open>OB_ARRAY_OUT_OF_RANGE\<close> or \<^verbatim>\<open>OB_ENTRY_NOT_EXIST\<close> and changes nothing, and \<^verbatim>\<open>at\<close> reads
  exactly the elements in range.
\<close>

theorem arr_shrink_refines_list:
  assumes "arr_inv sz a"
  shows "arr_remove i a = (if 0 \<le> i \<and> i < arr_count a then (OB_SUCCESS, snd (arr_remove i a))
        else (OB_ARRAY_OUT_OF_RANGE, a))
    \<and> arr_inv sz (snd (arr_remove i a))
    \<and> arr_list (snd (arr_remove i a)) = (if 0 \<le> i \<and> i < arr_count a
        then take (nat i) (arr_list a) @ drop (Suc (nat i)) (arr_list a) else arr_list a)
    \<and> arr_inv sz (arr_pop_back a) \<and> arr_list (arr_pop_back a) = butlast (arr_list a)
    \<and> arr_pop_back_obj x a = (if arr_list a = [] then (OB_ENTRY_NOT_EXIST, x, a)
        else (OB_SUCCESS, last (arr_list a), arr_pop_back a))
    \<and> arr_at i x a = (if 0 \<le> i \<and> i < arr_count a then (OB_SUCCESS, arr_list a ! nat i)
        else (OB_ARRAY_OUT_OF_RANGE, x))"
proof -
  have e: "arr_list a = [] \<longleftrightarrow> arr_count a = 0" "0 \<le> arr_count a"
    using assms by (auto simp: arr_inv_def arr_list_def)
  have r: "fst (arr_remove i a) = OB_SUCCESS" if "0 \<le> i" "i < arr_count a"
    using that by (simp add: arr_remove_def Let_def)
  have o: "arr_remove i a = (OB_ARRAY_OUT_OF_RANGE, a)" if "\<not> (0 \<le> i \<and> i < arr_count a)"
    using that by (auto simp: arr_remove_def)
  have at: "arr_at i x a = (OB_SUCCESS, arr_list a ! nat i)" if "0 \<le> i" "i < arr_count a"
    using that by (simp add: arr_at_def arr_list_def)
  have p: "arr_pop_back a = a \<and> arr_pop_back_obj x a = (OB_ENTRY_NOT_EXIST, x, a)" if "arr_count a = 0"
    using that by (simp add: arr_pop_back_def arr_pop_back_obj_def)
  show ?thesis
    using arr_remove_list [OF assms, of i] arr_pop_list [OF assms, of x] r o at p e assms
    by (cases "0 \<le> i \<and> i < arr_count a"; cases "arr_count a = 0")
      (auto simp: prod_eq_iff arr_at_def)
qed

theorem arr_shrink_refines_list_witness:
  "arr_inv 8 arr_example \<and> arr_pop_back_obj 3 arr_example = (OB_SUCCESS, 7, arr_pop_back arr_example)
   \<and> arr_list (snd (arr_remove 0 arr_example)) = []"
  using arr_shrink_refines_list [OF arr_example_inv(1), of 0 3] arr_example_inv
    arr_list_length [OF arr_example_inv(1)] by simp

end
