(* ===== verification/Palf_Write_Buf.thy ===== *)
theory Palf_Write_Buf
  imports Palf_Lsn Ob_Array
begin

section \<open>Scatter lists: \<^verbatim>\<open>logservice/palf/log_writer_utils.h\<close>, \<^verbatim>\<open>log_writer_utils.cpp\<close>\<close>

text \<open>
  A \<^verbatim>\<open>LogWriteBuf\<close> is the list of memory ranges that one write to disk takes, at most two when it
  is cut from the group buffer (the second where the ring wraps). It is an \<^verbatim>\<open>ObSEArray\<close> with two
  local cells of pairs of a pointer and a length. A pointer is an address (an \<open>int\<close>, 0 for
  NULL), and where the code dereferences it the model takes the memory, a function from
  addresses to bytes. \<open>gather\<close> is what a write of the ranges puts on disk; the lemmas say what
  each operation does to it.
\<close>

record InnerStruct =
  buf_ptr :: int
  buf_len :: int

type_synonym LogWriteBuf = "InnerStruct ObSEArray"
type_synonym memory = "int \<Rightarrow> byte"
type_synonym wb_alloc = "InnerStruct block_alloc"

definition MAX_COUNT :: nat where "MAX_COUNT = 2"
definition INNER_SIZE :: int where "INNER_SIZE = 16"

definition wb_reset :: "(nat \<Rightarrow> InnerStruct) \<Rightarrow> LogWriteBuf \<Rightarrow> LogWriteBuf" where
  "wb_reset junk b = arr_destroy junk MAX_COUNT b"

definition wb_is_valid :: "LogWriteBuf \<Rightarrow> bool" where
  "wb_is_valid b \<longleftrightarrow> 0 < arr_count b"

fun sum_len :: "InnerStruct list \<Rightarrow> int \<Rightarrow> int" where
  "sum_len [] total_size = total_size"
| "sum_len (s # ss) total_size = sum_len ss (total_size + buf_len s)"

definition wb_get_total_size :: "LogWriteBuf \<Rightarrow> int" where
  "wb_get_total_size b = sum_len (arr_list b) 0"

definition wb_get_buf_count :: "LogWriteBuf \<Rightarrow> int" where
  "wb_get_buf_count b = arr_count b"

definition wb_first :: "LogWriteBuf \<Rightarrow> InnerStruct" where
  "wb_first b = arr_data b ! 0"

definition wb_merge :: "LogWriteBuf \<Rightarrow> LogWriteBuf \<Rightarrow> ob_ret \<times> bool \<times> LogWriteBuf" where
  "wb_merge b rhs =
     (let lhs_size = wb_get_total_size b; lhs_count = wb_get_buf_count b;
          rhs_size = wb_get_total_size rhs; rhs_count = wb_get_buf_count rhs in
      if 2 \<le> lhs_count \<or> 2 \<le> rhs_count then (OB_SUCCESS, False, b)
      else if MAX_LOG_BUFFER_SIZE < lhs_size \<or> MAX_LOG_BUFFER_SIZE < rhs_size then (OB_ERR_UNEXPECTED, False, b)
      else if MAX_LOG_BUFFER_SIZE < lhs_size + rhs_size then (OB_SUCCESS, False, b)
      else if buf_ptr (wb_first b) = buf_ptr (wb_first rhs) then (OB_ERR_UNEXPECTED, False, b)
      else if buf_ptr (wb_first b) + lhs_size \<noteq> buf_ptr (wb_first rhs) then (OB_SUCCESS, False, b)
      else (OB_SUCCESS, True,
            b \<lparr> arr_data := (arr_data b)[0 := (wb_first b) \<lparr> buf_len := buf_len (wb_first b) + rhs_size \<rparr>] \<rparr>))"

function wb_push_loop :: "wb_alloc \<Rightarrow> int \<Rightarrow> int \<Rightarrow> int \<Rightarrow> LogWriteBuf \<Rightarrow> ob_ret \<times> LogWriteBuf" where
  "wb_push_loop al buf len remain_buf_len b =
     (if remain_buf_len > 0 then
        let limit_buf_len = min remain_buf_len MAX_LOG_BUFFER_SIZE;
            inner_struct = \<lparr> buf_ptr = buf + len - remain_buf_len, buf_len = limit_buf_len \<rparr> in
        case arr_push_back INNER_SIZE al inner_struct b of (ret, b') \<Rightarrow>
          if ret = OB_SUCCESS then wb_push_loop al buf len (remain_buf_len - limit_buf_len) b' else (ret, b')
      else (OB_SUCCESS, b))"
  by pat_completeness auto
termination
  by (relation "measure (\<lambda>(al, buf, len, r, b). nat r)") (auto simp: palf_consts min_def)

declare wb_push_loop.simps [simp del]

definition wb_push_back :: "wb_alloc \<Rightarrow> int \<Rightarrow> int \<Rightarrow> LogWriteBuf \<Rightarrow> ob_ret \<times> LogWriteBuf" where
  "wb_push_back al buf len b =
     (if buf = 0 \<or> 0 \<ge> len then (OB_INVALID_ARGUMENT, b) else wb_push_loop al buf len len b)"

definition wb_get_write_buf :: "int \<Rightarrow> InnerStruct \<Rightarrow> LogWriteBuf \<Rightarrow> ob_ret \<times> InnerStruct" where
  "wb_get_write_buf idx out b =
     (if idx \<ge> arr_count b then (OB_ARRAY_OUT_OF_RANGE, out) else (OB_SUCCESS, arr_data b ! nat idx))"

fun continous :: "InnerStruct list \<Rightarrow> bool" where
  "continous (s # t # ss) =
     (if buf_ptr s + buf_len s \<noteq> buf_ptr t then False else continous (t # ss))"
| "continous _ = True"

definition check_memory_is_continous :: "LogWriteBuf \<Rightarrow> bool" where
  "check_memory_is_continous b = continous (arr_list b)"

definition mem_read :: "memory \<Rightarrow> InnerStruct \<Rightarrow> byte list" where
  "mem_read m s = map (\<lambda>i. m (buf_ptr s + int i)) [0..<nat (buf_len s)]"

fun copy_ranges :: "memory \<Rightarrow> InnerStruct list \<Rightarrow> byte list \<Rightarrow> int \<Rightarrow> byte list \<times> int" where
  "copy_ranges m [] dest pos = (dest, pos)"
| "copy_ranges m (s # ss) dest pos =
     copy_ranges m ss (store dest (nat pos) (mem_read m s)) (pos + buf_len s)"

definition memcpy_to_continous_memory :: "memory \<Rightarrow> LogWriteBuf \<Rightarrow> byte list \<Rightarrow> byte list" where
  "memcpy_to_continous_memory m b dest = fst (copy_ranges m (arr_list b) dest 0)"

definition wb_serialize :: "memory \<Rightarrow> LogWriteBuf \<Rightarrow> cbuf \<Rightarrow> int \<Rightarrow> int \<Rightarrow> enc_res" where
  "wb_serialize m b buf len pos =
     (if buf = None \<or> 0 \<ge> len \<or> 0 > pos then (OB_INVALID_ARGUMENT, pos, buf)
      else case encode_i64 buf len pos (word_of_int (wb_get_total_size b)) of (ret, new_pos, buf') \<Rightarrow>
        if ret \<noteq> OB_SUCCESS then (ret, pos, buf')
        else case copy_ranges m (arr_list b) (the buf') new_pos of (d, end_pos) \<Rightarrow> (OB_SUCCESS, end_pos, Some d))"

text \<open>\<open>addr\<close> is the address of the source buffer, which the one range of the result points into.\<close>

definition wb_deserialize ::
  "wb_alloc \<Rightarrow> int \<Rightarrow> cbuf \<Rightarrow> int \<Rightarrow> int \<Rightarrow> LogWriteBuf \<Rightarrow> ob_ret \<times> int \<times> LogWriteBuf" where
  "wb_deserialize al addr buf data_len pos b =
     (if buf = None \<or> 0 \<ge> data_len \<or> 0 > pos then (OB_INVALID_ARGUMENT, pos, b)
      else case decode_i64 buf data_len pos of (ret, new_pos, v) \<Rightarrow>
        if ret \<noteq> OB_SUCCESS then (ret, pos, b)
        else let total_size = (case v of None \<Rightarrow> 0 | Some w \<Rightarrow> sint w) in
          case arr_push_back INNER_SIZE al \<lparr> buf_ptr = addr + new_pos, buf_len = total_size \<rparr> b of
            (ret, b') \<Rightarrow> if ret \<noteq> OB_SUCCESS then (ret, pos, b') else (ret, new_pos + total_size, b'))"

definition wb_get_serialize_size :: "LogWriteBuf \<Rightarrow> int" where
  "wb_get_serialize_size b =
     encoded_length_i64 (word_of_int (wb_get_total_size b)) + wb_get_total_size b"

subsection \<open>What a write puts on disk\<close>

definition gather :: "memory \<Rightarrow> InnerStruct list \<Rightarrow> byte list" where
  "gather m ss = concat (map (mem_read m) ss)"

definition range_ok :: "InnerStruct \<Rightarrow> bool" where
  "range_ok s \<longleftrightarrow> 0 < buf_len s \<and> buf_len s \<le> MAX_LOG_BUFFER_SIZE"

definition wb_inv :: "LogWriteBuf \<Rightarrow> bool" where
  "wb_inv b \<longleftrightarrow> arr_inv INNER_SIZE b \<and> list_all range_ok (arr_list b)"

lemma gather_simps [simp]:
  "gather m [] = []" "gather m (s # ss) = mem_read m s @ gather m ss"
  "gather m (ss @ ts) = gather m ss @ gather m ts"
  by (simp_all add: gather_def)

lemma mem_read_split:
  assumes "0 \<le> n" "0 \<le> k"
  shows "mem_read m \<lparr> buf_ptr = p, buf_len = n + k \<rparr>
    = mem_read m \<lparr> buf_ptr = p, buf_len = n \<rparr> @ mem_read m \<lparr> buf_ptr = p + n, buf_len = k \<rparr>"
proof -
  have "[0..<nat (n + k)] = [0..<nat n] @ map (\<lambda>i. i + nat n) [0..<nat k]"
    using upt_add_eq_append [of 0 "nat n" "nat k"] assms
    by (simp add: nat_add_distrib map_add_upt add.commute)
  with assms show ?thesis by (simp add: mem_read_def ac_simps)
qed

lemma length_mem_read [simp]: "length (mem_read m s) = nat (buf_len s)"
  by (simp add: mem_read_def)

lemma sum_len_shift: "sum_len ss t = t + sum_len ss 0"
proof (induction ss arbitrary: t)
  case (Cons s ss)
  show ?case using Cons [of "t + buf_len s"] Cons [of "buf_len s"] by simp
qed simp

lemma sum_len_gather: "list_all range_ok ss \<Longrightarrow> sum_len ss 0 = int (length (gather m ss))"
proof (induction ss)
  case (Cons s ss)
  then show ?case using sum_len_shift [of ss "buf_len s"] by (auto simp: range_ok_def)
qed simp

lemma continous_gather:
  "ss \<noteq> [] \<Longrightarrow> list_all range_ok ss \<Longrightarrow> continous ss \<Longrightarrow>
   gather m ss = mem_read m \<lparr> buf_ptr = buf_ptr (hd ss), buf_len = sum_len ss 0 \<rparr>"
proof (induction ss rule: continous.induct)
  case (1 s t ss)
  have "0 \<le> sum_len (t # ss) 0" using sum_len_gather [of "t # ss" m] 1 by simp
  moreover have "sum_len (s # t # ss) 0 = buf_len s + sum_len (t # ss) 0"
    using sum_len_shift [of "t # ss" "buf_len s"] by simp
  moreover have "mem_read m s = mem_read m \<lparr> buf_ptr = buf_ptr s, buf_len = buf_len s \<rparr>"
    by (simp add: mem_read_def)
  ultimately show ?case using 1 mem_read_split [of "buf_len s" "sum_len (t # ss) 0" m "buf_ptr s"]
    by (auto simp: range_ok_def split: if_splits)
qed (auto simp: mem_read_def)

lemma copy_ranges_gather:
  "list_all range_ok ss \<Longrightarrow> p + length (gather m ss) \<le> length dest \<Longrightarrow>
   copy_ranges m ss dest (int p) = (store dest p (gather m ss), int (p + length (gather m ss)))"
proof (induction ss arbitrary: dest p)
  case (Cons s ss)
  have l: "int p + buf_len s = int (p + length (mem_read m s))" using Cons.prems by (simp add: range_ok_def)
  have "copy_ranges m ss (store dest p (mem_read m s)) (int (p + length (mem_read m s)))
    = (store (store dest p (mem_read m s)) (p + length (mem_read m s)) (gather m ss),
       int (p + length (mem_read m s) + length (gather m ss)))"
    using Cons.prems by (intro Cons.IH) auto
  moreover have "store (store dest p (mem_read m s)) (p + length (mem_read m s)) (gather m ss)
      = store dest p (gather m (s # ss))"
    using Cons.prems(2) store_store_adjacent [of p "mem_read m s" "gather m ss" dest] by simp
  ultimately show ?case by (simp only: copy_ranges.simps nat_int l gather_simps length_append add.assoc)
qed (simp add: store_def)

lemma wb_push_loop_spec:
  assumes "wb_inv b" "0 \<le> r" "wb_push_loop al buf len r b = (ret, b')"
  shows "wb_inv b' \<and> (\<exists>ss k. arr_list b' = arr_list b @ ss \<and> 0 \<le> k \<and> k \<le> r
    \<and> gather m ss = mem_read m \<lparr> buf_ptr = buf + len - r, buf_len = k \<rparr>
    \<and> (ret = OB_SUCCESS \<and> k = r \<or> ret = OB_ALLOCATE_MEMORY_FAILED \<and> k < r))"
  using assms
proof (induction al buf len r b rule: wb_push_loop.induct)
  case (1 al buf len r b)
  show ?case
  proof (cases "r > 0")
    case True
    define l where "l = min r MAX_LOG_BUFFER_SIZE"
    define s where "s = \<lparr> buf_ptr = buf + len - r, buf_len = l \<rparr>"
    obtain q c where p: "arr_push_back INNER_SIZE al s b = (q, c)" by fastforce
    have l: "0 < l" "l \<le> r" "l \<le> MAX_LOG_BUFFER_SIZE" using True by (auto simp: l_def palf_consts)
    note a = arr_push_back_spec [OF conjunct1 [OF "1.prems"(1) [unfolded wb_inv_def]] p]
    have u: "wb_push_loop al buf len r b = (if q = OB_SUCCESS then wb_push_loop al buf len (r - l) c else (q, c))"
      using True p by (subst wb_push_loop.simps) (simp add: l_def s_def Let_def)
    show ?thesis
    proof (cases "q = OB_SUCCESS")
      case T: True
      with a have c: "arr_list c = arr_list b @ [s]" by auto
      have i: "wb_inv c" using a l "1.prems"(1) by (auto simp: wb_inv_def c s_def range_ok_def)
      have "wb_inv b' \<and> (\<exists>ss k. arr_list b' = arr_list c @ ss \<and> 0 \<le> k \<and> k \<le> r - l
        \<and> gather m ss = mem_read m \<lparr> buf_ptr = buf + len - (r - l), buf_len = k \<rparr>
        \<and> (ret = OB_SUCCESS \<and> k = r - l \<or> ret = OB_ALLOCATE_MEMORY_FAILED \<and> k < r - l))"
        using "1.IH" [OF True l_def s_def p [symmetric] T i] l u T "1.prems"(3) by simp
      then obtain ss k where k: "wb_inv b'" "arr_list b' = arr_list c @ ss" "0 \<le> k" "k \<le> r - l"
        "gather m ss = mem_read m \<lparr> buf_ptr = buf + len - (r - l), buf_len = k \<rparr>"
        "ret = OB_SUCCESS \<and> k = r - l \<or> ret = OB_ALLOCATE_MEMORY_FAILED \<and> k < r - l" by blast
      have "gather m (s # ss) = mem_read m \<lparr> buf_ptr = buf + len - r, buf_len = l + k \<rparr>"
        using mem_read_split [of l k m "buf + len - r"] l k(3,5) by (simp add: s_def algebra_simps)
      with k l c show ?thesis by (intro conjI exI [of _ "s # ss"] exI [of _ "l + k"]) auto
    next
      case False
      with a "1.prems"(3) u have "ret = OB_ALLOCATE_MEMORY_FAILED" "b' = b" by auto
      with True "1.prems"(1) show ?thesis
        by (intro conjI exI [of _ "[]"] exI [of _ "0 :: int"]) (simp_all add: mem_read_def)
    qed
  next
    case False
    then have "wb_push_loop al buf len r b = (OB_SUCCESS, b)" by (subst wb_push_loop.simps) simp
    with False "1.prems" have "ret = OB_SUCCESS" "b' = b" "r = 0" by auto
    with "1.prems"(1) show ?thesis
      by (intro conjI exI [of _ "[]"] exI [of _ "0 :: int"]) (simp_all add: mem_read_def)
  qed
qed

lemma wb_push_back_spec:
  assumes "wb_inv b" "wb_push_back al buf len b = (ret, b')"
  shows "wb_inv b' \<and> (if buf = 0 \<or> len \<le> 0 then ret = OB_INVALID_ARGUMENT \<and> b' = b
    else \<exists>k. 0 \<le> k \<and> k \<le> len
      \<and> gather m (arr_list b') = gather m (arr_list b) @ mem_read m \<lparr> buf_ptr = buf, buf_len = k \<rparr>
      \<and> (ret = OB_SUCCESS \<and> k = len \<or> ret = OB_ALLOCATE_MEMORY_FAILED \<and> k < len))"
proof (cases "buf = 0 \<or> len \<le> 0")
  case False
  with assms obtain ss k where "wb_inv b'" "arr_list b' = arr_list b @ ss" "0 \<le> k" "k \<le> len"
    "gather m ss = mem_read m \<lparr> buf_ptr = buf, buf_len = k \<rparr>"
    "ret = OB_SUCCESS \<and> k = len \<or> ret = OB_ALLOCATE_MEMORY_FAILED \<and> k < len"
    using wb_push_loop_spec [of b len al buf len ret b' m] by (auto simp: wb_push_back_def)
  with False show ?thesis by auto
qed (use assms in \<open>auto simp: wb_push_back_def\<close>)

text \<open>The ranges that \<^verbatim>\<open>push_back\<close> adds: pieces of at most \<^verbatim>\<open>MAX_LOG_BUFFER_SIZE\<close> bytes.\<close>

function wb_pieces :: "int \<Rightarrow> int \<Rightarrow> InnerStruct list" where
  "wb_pieces ptr len =
     (if len \<le> 0 then []
      else let l = min len MAX_LOG_BUFFER_SIZE in \<lparr> buf_ptr = ptr, buf_len = l \<rparr> # wb_pieces (ptr + l) (len - l))"
  by pat_completeness auto
termination
  by (relation "measure (\<lambda>(ptr, len). nat len)") (auto simp: palf_consts min_def)

declare wb_pieces.simps [simp del]

lemma wb_pieces_small:
  "len \<le> 0 \<Longrightarrow> wb_pieces ptr len = []"
  "0 < len \<Longrightarrow> len \<le> MAX_LOG_BUFFER_SIZE \<Longrightarrow> wb_pieces ptr len = [\<lparr> buf_ptr = ptr, buf_len = len \<rparr>]"
  by (simp_all add: wb_pieces.simps [of ptr len] wb_pieces.simps [of "ptr + len" 0] min_def Let_def)

lemma wb_push_loop_pieces:
  assumes "arr_inv INNER_SIZE b" "wb_push_loop al buf len r b = (OB_SUCCESS, b')"
  shows "arr_list b' = arr_list b @ wb_pieces (buf + len - r) r"
  using assms
proof (induction al buf len r b rule: wb_push_loop.induct)
  case (1 al buf len r b)
  show ?case
  proof (cases "r > 0")
    case True
    define l where "l = min r MAX_LOG_BUFFER_SIZE"
    define s where "s = \<lparr> buf_ptr = buf + len - r, buf_len = l \<rparr>"
    obtain q c where p: "arr_push_back INNER_SIZE al s b = (q, c)" by fastforce
    have u: "wb_push_loop al buf len r b = (if q = OB_SUCCESS then wb_push_loop al buf len (r - l) c else (q, c))"
      using True p by (subst wb_push_loop.simps) (simp add: l_def s_def Let_def)
    then have q: "q = OB_SUCCESS" "wb_push_loop al buf len (r - l) c = (OB_SUCCESS, b')"
      using "1.prems"(2) by (auto split: if_splits)
    have c: "arr_list c = arr_list b @ [s]" "arr_inv INNER_SIZE c"
      using arr_push_back_spec [OF "1.prems"(1) p] q(1) by auto
    have "arr_list b' = arr_list c @ wb_pieces (buf + len - (r - l)) (r - l)"
      by (rule "1.IH" [OF True l_def s_def p [symmetric] q(1) c(2) q(2)])
    then show ?thesis using True c(1) by (simp add: wb_pieces.simps [of "buf + len - r" r] Let_def l_def s_def algebra_simps)
  next
    case False
    then show ?thesis using "1.prems"(2) by (simp add: wb_push_loop.simps wb_pieces_small)
  qed
qed

lemma wb_push_back_pieces:
  assumes "wb_inv b" "wb_push_back al buf len b = (OB_SUCCESS, b')"
  shows "arr_list b' = arr_list b @ wb_pieces buf len"
  using assms wb_push_loop_pieces [of b al buf len len b'] by (auto simp: wb_push_back_def wb_inv_def split: if_splits)

lemma wb_one_range:
  assumes "wb_inv b" "arr_count b = 1"
  shows "arr_list b = [wb_first b]" "range_ok (wb_first b)" "arr_data b \<noteq> []"
proof -
  have "length (arr_list b) = 1" "arr_data b \<noteq> []"
    using assms by (auto simp: wb_inv_def arr_inv_def arr_list_def)
  then show "arr_list b = [wb_first b]" "arr_data b \<noteq> []"
    using assms(2) by (auto simp: arr_list_def wb_first_def take_Suc length_Suc_conv neq_Nil_conv hd_conv_nth)
  with assms(1) show "range_ok (wb_first b)" by (simp add: wb_inv_def)
qed

definition wb_of :: "InnerStruct list \<Rightarrow> LogWriteBuf" where
  "wb_of ss = snd (arr_push_back_all INNER_SIZE (\<lambda>n. None) ss (arr_new (\<lambda>i. \<lparr> buf_ptr = 0, buf_len = 0 \<rparr>) MAX_COUNT INNER_SIZE 8192))"

lemmas wb_of_simps = wb_of_def arr_new_def MAX_COUNT_def INNER_SIZE_def arr_push_back_def arr_grow_def
  arr_list_def arr_inv_def wb_inv_def range_ok_def palf_consts numeral_eq_Suc

subsection \<open>Properties\<close>

text \<open>
  C38. \<^verbatim>\<open>push_back\<close> of a range appends exactly the bytes of that range to what the write puts on
  disk, cut into pieces of at most \<^verbatim>\<open>MAX_LOG_BUFFER_SIZE\<close> bytes; when the array cannot grow the
  bytes of the pieces already pushed stay and the code is \<^verbatim>\<open>OB_ALLOCATE_MEMORY_FAILED\<close>. A NULL
  pointer or an empty range is refused and changes nothing.
\<close>

theorem wb_push_back_gather:
  assumes "wb_inv b" "wb_push_back al buf len b = (ret, b')"
  shows "wb_inv b' \<and> (if buf = 0 \<or> len \<le> 0 then ret = OB_INVALID_ARGUMENT \<and> b' = b
    else \<exists>k. 0 \<le> k \<and> k \<le> len
      \<and> gather m (arr_list b') = gather m (arr_list b) @ mem_read m \<lparr> buf_ptr = buf, buf_len = k \<rparr>
      \<and> (ret = OB_SUCCESS \<and> k = len \<or> ret = OB_ALLOCATE_MEMORY_FAILED \<and> k < len))"
  using assms by (rule wb_push_back_spec)

theorem wb_push_back_gather_witness:
  "wb_inv (wb_of []) \<and> fst (wb_push_back (\<lambda>n. None) 64 5 (wb_of [])) = OB_SUCCESS
   \<and> gather (\<lambda>a. word_of_int a) (arr_list (snd (wb_push_back (\<lambda>n. None) 64 5 (wb_of [])))) = [64, 65, 66, 67, 68]"
proof -
  have i: "wb_inv (wb_of [])" "arr_list (wb_of []) = []" by (simp_all add: wb_of_simps)
  obtain ret b' where p: "wb_push_back (\<lambda>n. None) 64 5 (wb_of []) = (ret, b')" by fastforce
  have r: "fst (wb_push_back (\<lambda>n. None) 64 5 (wb_of [])) = OB_SUCCESS"
    by (simp add: wb_push_back_def wb_push_loop.simps wb_of_simps)
  with wb_push_back_gather [OF i(1) p, of "\<lambda>a. word_of_int a"] p i
  show ?thesis by (auto simp: mem_read_def upt_rec)
qed

text \<open>
  C36. \<^verbatim>\<open>merge\<close> joins two scatter lists exactly when each is a single range, the second starts where the
  first ends and both together fit in \<^verbatim>\<open>MAX_LOG_BUFFER_SIZE\<close>; the one range left then writes the bytes of
  the first followed by those of the second. In every other case it reports that nothing was merged and the
  left operand is unchanged; only two single ranges with equal start pointers that would fit are reported
  as \<^verbatim>\<open>OB_ERR_UNEXPECTED\<close>.
\<close>

theorem wb_merge_concat:
  assumes "wb_inv b" "wb_inv rhs" "wb_is_valid b" "wb_is_valid rhs" "wb_merge b rhs = (ret, merged, b')"
  shows "(merged \<longleftrightarrow> (\<exists>s t. arr_list b = [s] \<and> arr_list rhs = [t] \<and> buf_ptr s + buf_len s = buf_ptr t
        \<and> buf_len s + buf_len t \<le> MAX_LOG_BUFFER_SIZE))
    \<and> (if merged then wb_inv b' \<and> length (arr_list b') = 1
         \<and> gather m (arr_list b') = gather m (arr_list b) @ gather m (arr_list rhs) else b' = b)
    \<and> ret = (if \<exists>s t. arr_list b = [s] \<and> arr_list rhs = [t] \<and> buf_ptr s = buf_ptr t
              \<and> buf_len s + buf_len t \<le> MAX_LOG_BUFFER_SIZE
            then OB_ERR_UNEXPECTED else OB_SUCCESS)"
proof (cases "arr_count b = 1 \<and> arr_count rhs = 1")
  case True
  then have one: "arr_count b = 1" "arr_count rhs = 1" by simp_all
  note l = wb_one_range [OF assms(1) one(1)] and r = wb_one_range [OF assms(2) one(2)]
  define s where "s = wb_first b" define t where "t = wb_first rhs"
  have ok: "range_ok s" "range_ok t" using l r by (simp_all add: s_def t_def)
  have sz: "wb_get_total_size b = buf_len s" "wb_get_total_size rhs = buf_len t"
    by (simp_all add: wb_get_total_size_def l(1) r(1) s_def t_def)
  define b1 where "b1 = b \<lparr> arr_data := (arr_data b)[0 := s \<lparr> buf_len := buf_len s + buf_len t \<rparr>] \<rparr>"
  have m: "wb_merge b rhs = (if MAX_LOG_BUFFER_SIZE < buf_len s + buf_len t then (OB_SUCCESS, False, b)
      else if buf_ptr s = buf_ptr t then (OB_ERR_UNEXPECTED, False, b)
      else if buf_ptr s + buf_len s \<noteq> buf_ptr t then (OB_SUCCESS, False, b) else (OB_SUCCESS, True, b1))"
    using ok one
    by (auto simp: wb_merge_def Let_def sz wb_get_buf_count_def range_ok_def s_def [symmetric] t_def [symmetric] b1_def)
  have b1: "arr_list b1 = [s \<lparr> buf_len := buf_len s + buf_len t \<rparr>]" "arr_inv INNER_SIZE b1"
    using l assms(1) one by (auto simp: b1_def arr_list_def wb_inv_def arr_inv_def neq_Nil_conv)
  have g: "mem_read m (s \<lparr> buf_len := buf_len s + buf_len t \<rparr>) = mem_read m s @ mem_read m t"
    if "buf_ptr s + buf_len s = buf_ptr t"
    using mem_read_split [of "buf_len s" "buf_len t" m "buf_ptr s"] ok that
    by (simp add: mem_read_def range_ok_def)
  show ?thesis
    using assms(1,5) ok b1 g l(1) r(1) unfolding m s_def [symmetric] t_def [symmetric]
    by (auto simp: wb_inv_def range_ok_def split: if_splits)
next
  case False
  have "length (arr_list b) = nat (arr_count b)" "length (arr_list rhs) = nat (arr_count rhs)"
    using assms(1,2) by (auto simp: wb_inv_def arr_inv_def arr_list_def)
  moreover have two: "2 \<le> arr_count b \<or> 2 \<le> arr_count rhs" using False assms(3,4) by (auto simp: wb_is_valid_def)
  ultimately have "\<not> (\<exists>s t. arr_list b = [s] \<and> arr_list rhs = [t])" by auto
  then show ?thesis using assms(5) two by (auto simp: wb_merge_def wb_get_buf_count_def)
qed

theorem wb_merge_concat_witness:
  "let b = wb_of [\<lparr> buf_ptr = 64, buf_len = 2 \<rparr>]; rhs = wb_of [\<lparr> buf_ptr = 66, buf_len = 3 \<rparr>] in
   wb_inv b \<and> wb_inv rhs \<and> (\<exists>b'. wb_merge b rhs = (OB_SUCCESS, True, b')
     \<and> gather (\<lambda>a. word_of_int a) (arr_list b') = [64, 65, 66, 67, 68])"
proof -
  let ?b = "wb_of [\<lparr> buf_ptr = 64, buf_len = 2 \<rparr>]" and ?r = "wb_of [\<lparr> buf_ptr = 66, buf_len = 3 \<rparr>]"
  have i: "wb_inv ?b" "wb_inv ?r" "wb_is_valid ?b" "wb_is_valid ?r"
    "arr_list ?b = [\<lparr> buf_ptr = 64, buf_len = 2 \<rparr>]" "arr_list ?r = [\<lparr> buf_ptr = 66, buf_len = 3 \<rparr>]"
    by (simp_all add: wb_of_simps wb_is_valid_def)
  obtain ret merged b' where p: "wb_merge ?b ?r = (ret, merged, b')" by (metis prod_cases3)
  show ?thesis
    using wb_merge_concat [OF i(1-4) p, of "\<lambda>a. word_of_int a"] p i
    by (simp add: palf_consts mem_read_def upt_rec)
qed

text \<open>
  C37. A serialized scatter list is the length followed by the gathered bytes, at the announced
  size; reading it back gives one range that points at exactly those bytes in the source buffer.
\<close>

theorem wb_serialize_roundtrip:
  assumes "wb_inv b" "wb_inv c" "arr_count c < arr_capacity c"
    and "L \<le> length buf" "int p + wb_get_serialize_size b \<le> int L"
    and "wb_get_total_size b < 2 ^ 63"
    and "\<And>i. i < length buf \<Longrightarrow>
      m' (addr + int i) = the (snd (snd (wb_serialize m b (Some buf) (int L) (int p)))) ! i"
  shows "\<exists>buf' q c' s. wb_serialize m b (Some buf) (int L) (int p) = (OB_SUCCESS, q, Some buf')
    \<and> q = int p + wb_get_serialize_size b
    \<and> wb_deserialize al addr (Some buf') (int L) (int p) c = (OB_SUCCESS, q, c')
    \<and> arr_list c' = arr_list c @ [s] \<and> mem_read m' s = gather m (arr_list b)"
proof -
  define g where "g = gather m (arr_list b)"
  have n: "wb_get_total_size b = int (length g)"
    using assms(1) sum_len_gather [of "arr_list b" m] by (simp add: wb_inv_def wb_get_total_size_def g_def)
  have sz: "wb_get_serialize_size b = 8 + int (length g)"
    by (simp add: wb_get_serialize_size_def encoded_length_i64_def n)
  define w where "w = (word_of_int (wb_get_total_size b) :: 64 word)"
  have w: "sint w = int (length g)"
    using assms(6) unfolding w_def n sint_sbintrunc' by (simp add: signed_take_bit_int_eq_self)
  have room: "p + 8 + length g \<le> L" using assms(5) by (simp add: sz)
  define b1 where "b1 = store buf p (be64 w)"
  define b2 where "b2 = store b1 (p + 8) g"
  have l1: "length b1 = length buf" "length b2 = length buf"
    using room assms(4) by (simp_all add: b1_def b2_def)
  have e: "encode_i64 (Some buf) (int L) (int p) w = (OB_SUCCESS, int (p + 8), Some b1)"
    using enc_exactD [OF encode_i64_exact, of p w L buf] room assms(4) by (simp add: b1_def)
  have s: "wb_serialize m b (Some buf) (int L) (int p) = (OB_SUCCESS, int (p + 8 + length g), Some b2)"
    using e copy_ranges_gather [of "arr_list b" "p + 8" m b1] room assms(1,4) l1
    by (simp add: wb_serialize_def w_def [symmetric] wb_inv_def g_def [symmetric] b2_def)
  have "b2 = store buf p (be64 w @ g)"
    using store_store_adjacent [of p "be64 w" g buf] room assms(4) by (simp add: b2_def b1_def)
  then have "load b2 p 8 = be64 w" and lg: "load b2 (p + 8) (length g) = g"
    using load_appendD [of b2 p "be64 w" g] room assms(4) load_store_same [of p "be64 w @ g" buf]
    by simp_all
  then have d: "decode_i64 (Some b2) (int L) (int p) = (OB_SUCCESS, int (p + 8), Some w)"
    using dec_exactD [OF decode_i64_exact, of p w L b2] room assms(4) l1 by simp
  define r where "r = \<lparr> buf_ptr = addr + int (p + 8), buf_len = int (length g) \<rparr>"
  obtain c' where c': "arr_push_back INNER_SIZE al r c = (OB_SUCCESS, c')" "arr_list c' = arr_list c @ [r]"
    using arr_push_back_room [of INNER_SIZE c al r] arr_push_back_spec [of INNER_SIZE c al r] assms(2,3)
    by (cases "arr_push_back INNER_SIZE al r c") (auto simp: wb_inv_def)
  have "wb_deserialize al addr (Some b2) (int L) (int p) c = (OB_SUCCESS, int (p + 8 + length g), c')"
    using d c'(1) room by (simp add: wb_deserialize_def w Let_def r_def add.assoc)
  moreover have "mem_read m' r = g"
  proof (rule nth_equalityI)
    fix i assume "i < length (mem_read m' r)"
    then have i: "i < length g" by (simp add: r_def)
    then have "m' (addr + int (p + 8 + i)) = b2 ! (p + 8 + i)" using assms(7) [of "p + 8 + i"] s room assms(4) by simp
    with i show "mem_read m' r ! i = g ! i"
      using nth_load [of i "length g" "p + 8" b2] lg room assms(4) l1 by (simp add: mem_read_def r_def ac_simps)
  qed (simp add: r_def)
  ultimately show ?thesis using s sz c'(2) by (auto simp: g_def)
qed

theorem wb_serialize_roundtrip_witness:
  "let b = wb_of [\<lparr> buf_ptr = 64, buf_len = 2 \<rparr>, \<lparr> buf_ptr = 80, buf_len = 1 \<rparr>];
       buf' = the (snd (snd (wb_serialize (\<lambda>a. word_of_int a) b (Some (replicate 12 0)) 12 1))) in
   \<exists>c' s. wb_deserialize (\<lambda>n. None) 100 (Some buf') 12 1 (wb_of []) = (OB_SUCCESS, 12, c')
     \<and> arr_list c' = [s] \<and> mem_read (\<lambda>a. buf' ! nat (a - 100)) s = [64, 65, 80]"
proof -
  let ?b = "wb_of [\<lparr> buf_ptr = 64, buf_len = 2 \<rparr>, \<lparr> buf_ptr = 80, buf_len = 1 \<rparr>]"
  let ?buf' = "the (snd (snd (wb_serialize (\<lambda>a. word_of_int a) ?b (Some (replicate 12 0)) 12 1)))"
  have i: "wb_inv ?b" "wb_inv (wb_of [])" "arr_count (wb_of []) < arr_capacity (wb_of [])"
    "wb_get_serialize_size ?b = 11" "wb_get_total_size ?b < 2 ^ 63" "arr_list (wb_of []) = []"
    "gather (\<lambda>a. word_of_int a) (arr_list ?b) = [64, 65, 80]"
    by (simp_all add: wb_of_simps wb_get_serialize_size_def wb_get_total_size_def encoded_length_i64_def
        mem_read_def upt_rec)
  show ?thesis
    using wb_serialize_roundtrip [OF i(1,2,3), of 12 "replicate 12 0" 1
        "\<lambda>a. ?buf' ! nat (a - 100)" 100 "\<lambda>a. word_of_int a" "\<lambda>n. None"] i(4-7)
    by (auto simp: Let_def)
qed

text \<open>
  The body of \<^verbatim>\<open>serialize\<close> is copied without a check against \<^verbatim>\<open>buf_len\<close>: only the length field is
  checked. With a buffer that has room for the length alone the call succeeds and the returned
  position lies behind the end of the buffer.
\<close>

lemma wb_serialize_overruns:
  "\<exists>b' . wb_serialize m (wb_of [\<lparr> buf_ptr = 64, buf_len = 5 \<rparr>]) (Some (replicate 8 0)) 8 0 = (OB_SUCCESS, 13, b')"
proof -
  have "encode_i64 (Some (replicate 8 0)) 8 0 5 = (OB_SUCCESS, 8, Some (store (replicate 8 0) 0 (be64 5)))"
    using enc_exactD [OF encode_i64_exact, of 0 5 8 "replicate 8 0"] by simp
  moreover have "wb_get_total_size (wb_of [\<lparr> buf_ptr = 64, buf_len = 5 \<rparr>]) = 5"
    "arr_list (wb_of [\<lparr> buf_ptr = 64, buf_len = 5 \<rparr>]) = [\<lparr> buf_ptr = 64, buf_len = 5 \<rparr>]"
    by (simp_all add: wb_of_simps wb_get_total_size_def)
  ultimately show ?thesis by (simp add: wb_serialize_def)
qed

end
