(* ===== verification/Palf_Group_Buffer.thy ===== *)
theory Palf_Group_Buffer
  imports Palf_Write_Buf "HOL-Library.Signed_Division"
begin

section \<open>The group buffer: \<^verbatim>\<open>logservice/palf/log_group_buffer.h\<close>, \<^verbatim>\<open>log_group_buffer.cpp\<close>\<close>

text \<open>
  The ring in which log entries are aggregated before they are written to disk, and from which
  recent log is served. A byte with LSN \<open>x\<close> lives at position
  \<open>(x - start_lsn) mod reserved_buffer_size\<close>. \<^verbatim>\<open>reuse_lsn_\<close> is the end of what has been
  flushed: positions below it may be overwritten, and reads stop there. \<^verbatim>\<open>readable_begin_lsn_\<close>
  is raised before a write so that what the write overwrites is no longer served.

  \<open>gb_data_buf\<close> is the pointer and \<open>gb_mem\<close> the bytes behind it. The operations here
  are the sequential ones; the interleaving of a reader with writers is in
  \<open>Palf_Group_Buffer_Conc\<close>. The log that the ring caches is the partial map \<open>M\<close> from
  offsets to the byte last filled there; \<open>gb_inv\<close> ties the ring to it.
\<close>

record LogGroupBuffer =
  gb_start_lsn :: LSN
  gb_reuse_lsn :: LSN
  gb_readable_begin_lsn :: LSN
  gb_reserved_buffer_size :: int
  gb_available_buffer_size :: int
  gb_data_buf :: int
  gb_mem :: "byte list"
  gb_is_inited :: bool

definition DEFAULT_GROUP_BUFFER_SIZE :: int where "DEFAULT_GROUP_BUFFER_SIZE = 2 ^ 22"
definition PADDING_LOG_CONTENT_CHAR :: byte where "PADDING_LOG_CONTENT_CHAR = 0"

definition gb_reset :: "LogGroupBuffer \<Rightarrow> LogGroupBuffer" where
  "gb_reset b = b \<lparr> gb_is_inited := False, gb_start_lsn := lsn_reset, gb_readable_begin_lsn := lsn_reset,
     gb_reuse_lsn := lsn_reset, gb_data_buf := 0, gb_reserved_buffer_size := 0, gb_available_buffer_size := 0 \<rparr>"

text \<open>\<open>ptr\<close> is the answer of \<^verbatim>\<open>server_malloc\<close>, 0 when memory is refused.\<close>

definition gb_init :: "int \<Rightarrow> LSN \<Rightarrow> LogGroupBuffer \<Rightarrow> ob_ret \<times> LogGroupBuffer" where
  "gb_init ptr start_lsn b =
     (if gb_is_inited b then (OB_INIT_TWICE, b)
      else if \<not> lsn_is_valid start_lsn then (OB_INVALID_ARGUMENT, b)
      else let group_buffer_size = DEFAULT_GROUP_BUFFER_SIZE in
        if ptr = 0 then (OB_ALLOCATE_MEMORY_FAILED, b \<lparr> gb_data_buf := 0 \<rparr>)
        else (OB_SUCCESS, b \<lparr> gb_data_buf := ptr, gb_mem := replicate (nat group_buffer_size) 0,
               gb_start_lsn := start_lsn, gb_readable_begin_lsn := start_lsn, gb_reuse_lsn := start_lsn,
               gb_reserved_buffer_size := group_buffer_size, gb_available_buffer_size := group_buffer_size,
               gb_is_inited := True \<rparr>))"

definition gb_destroy :: "LogGroupBuffer \<Rightarrow> LogGroupBuffer" where
  "gb_destroy b = b \<lparr> gb_is_inited := False, gb_start_lsn := lsn_reset, gb_readable_begin_lsn := lsn_reset,
     gb_reuse_lsn := lsn_reset, gb_data_buf := 0, gb_mem := (if gb_data_buf b \<noteq> 0 then [] else gb_mem b),
     gb_reserved_buffer_size := 0, gb_available_buffer_size := 0 \<rparr>"

definition gb_get_buffer_pos :: "LogGroupBuffer \<Rightarrow> LSN \<Rightarrow> int \<Rightarrow> ob_ret \<times> int" where
  "gb_get_buffer_pos b lsn start_pos =
     (let start_lsn = gb_start_lsn b in
      if \<not> gb_is_inited b then (OB_NOT_INIT, start_pos)
      else if \<not> lsn_is_valid lsn then (OB_INVALID_ARGUMENT, start_pos)
      else if lsn_lt lsn start_lsn then (OB_ERR_OUT_OF_LOWER_BOUND, start_pos)
      else let diff_len = sint (lsn_diff lsn start_lsn) in
        (OB_SUCCESS, diff_len smod gb_reserved_buffer_size b))"

definition lsn_add :: "LSN \<Rightarrow> int \<Rightarrow> LSN" where
  "lsn_add l n = lsn_plus l (word_of_int n)"

definition gb_can_handle_new_log_ref :: "LogGroupBuffer \<Rightarrow> LSN \<Rightarrow> int \<Rightarrow> LSN \<Rightarrow> bool" where
  "gb_can_handle_new_log_ref b lsn total_len ref_reuse_lsn =
     (let end_lsn = lsn_add lsn total_len; start_lsn = gb_start_lsn b;
          reuse_lsn = min (gb_reuse_lsn b) ref_reuse_lsn in
      if \<not> gb_is_inited b then False
      else if \<not> lsn_is_valid lsn \<or> total_len \<le> 0 \<or> \<not> lsn_is_valid ref_reuse_lsn then False
      else if lsn_lt lsn start_lsn then False
      else if lsn_gt end_lsn (lsn_add reuse_lsn (gb_available_buffer_size b)) then False
      else True)"

definition gb_can_handle_new_log :: "LogGroupBuffer \<Rightarrow> LSN \<Rightarrow> int \<Rightarrow> bool" where
  "gb_can_handle_new_log b lsn total_len =
     (if \<not> gb_is_inited b then False
      else if \<not> lsn_is_valid lsn \<or> total_len \<le> 0 then False
      else gb_can_handle_new_log_ref b lsn total_len (LSN LOG_MAX_LSN_VAL))"

definition gb_get_log_buf ::
  "wb_alloc \<Rightarrow> LogGroupBuffer \<Rightarrow> LSN \<Rightarrow> int \<Rightarrow> LogWriteBuf \<Rightarrow> ob_ret \<times> LogWriteBuf" where
  "gb_get_log_buf al b lsn total_len log_buf =
     (if \<not> gb_is_inited b then (OB_NOT_INIT, log_buf)
      else if \<not> lsn_is_valid lsn \<or> total_len \<le> 0 then (OB_INVALID_ARGUMENT, log_buf)
      else if lsn_lt lsn (gb_start_lsn b) then (OB_INVALID_ARGUMENT, log_buf)
      else case gb_get_buffer_pos b lsn 0 of (ret, start_pos) \<Rightarrow>
        if ret \<noteq> OB_SUCCESS then (ret, log_buf)
        else let group_buf_tail_len = gb_reserved_buffer_size b - start_pos;
                 first_part_len = min group_buf_tail_len total_len in
          case wb_push_back al (gb_data_buf b + start_pos) first_part_len log_buf of (ret, log_buf1) \<Rightarrow>
            if ret \<noteq> OB_SUCCESS then (ret, log_buf1)
            else if total_len > first_part_len
              then wb_push_back al (gb_data_buf b) (total_len - first_part_len) log_buf1
              else (ret, log_buf1))"

definition gb_gen_readable_begin_lsn_for_filling :: "LogGroupBuffer \<Rightarrow> LSN \<Rightarrow> LSN" where
  "gb_gen_readable_begin_lsn_for_filling b lsn =
     (let reserved_buffer_size = word_of_int (gb_reserved_buffer_size b) in
      if lsn_val lsn \<ge> reserved_buffer_size then lsn_minus lsn reserved_buffer_size else LSN 0)"

definition gb_inc_update_readable :: "LSN \<Rightarrow> LogGroupBuffer \<Rightarrow> LogGroupBuffer" where
  "gb_inc_update_readable new_lsn b =
     b \<lparr> gb_readable_begin_lsn := fst (seq_update (<) (gb_readable_begin_lsn b) new_lsn) \<rparr>"

definition gb_inc_update_readable_begin_lsn :: "LSN \<Rightarrow> LogGroupBuffer \<Rightarrow> ob_ret \<times> LogGroupBuffer" where
  "gb_inc_update_readable_begin_lsn new_lsn b =
     (if \<not> lsn_is_valid new_lsn then (OB_INVALID_ARGUMENT, b)
      else (OB_SUCCESS, gb_inc_update_readable new_lsn b))"

text \<open>A copy of \<open>len\<close> bytes to position \<open>start_pos\<close> that wraps to the beginning of the ring.\<close>

definition ring_copy :: "int \<Rightarrow> int \<Rightarrow> byte list \<Rightarrow> int \<Rightarrow> byte list \<Rightarrow> byte list" where
  "ring_copy reserved_buf_size start_pos data data_len mem =
     (let group_buf_tail_len = reserved_buf_size - start_pos;
          first_part_len = min group_buf_tail_len data_len;
          mem1 = store mem (nat start_pos) (take (nat first_part_len) data) in
      if data_len > first_part_len
      then store mem1 0 (take (nat (data_len - first_part_len)) (drop (nat first_part_len) data))
      else mem1)"

definition gb_fill_ring :: "int \<Rightarrow> byte list \<Rightarrow> int \<Rightarrow> LogGroupBuffer \<Rightarrow> ob_ret \<times> LogGroupBuffer" where
  "gb_fill_ring start_pos data data_len b =
     (OB_SUCCESS, b \<lparr> gb_mem := ring_copy (gb_reserved_buffer_size b) start_pos data data_len (gb_mem b) \<rparr>)"

definition gb_fill :: "LSN \<Rightarrow> cbuf \<Rightarrow> int \<Rightarrow> LogGroupBuffer \<Rightarrow> ob_ret \<times> LogGroupBuffer" where
  "gb_fill lsn data data_len b =
     (let end_lsn = lsn_add lsn data_len; start_lsn = gb_start_lsn b; reuse_lsn = gb_reuse_lsn b;
          available_buf_size = gb_available_buffer_size b in
      if \<not> gb_is_inited b then (OB_NOT_INIT, b)
      else if \<not> lsn_is_valid lsn \<or> data = None \<or> data_len \<le> 0 then (OB_INVALID_ARGUMENT, b)
      else if lsn_lt lsn start_lsn then (OB_ERR_UNEXPECTED, b)
      else if lsn_le end_lsn reuse_lsn then (OB_ERR_UNEXPECTED, b)
      else if lsn_gt end_lsn (lsn_add reuse_lsn available_buf_size) then (OB_EAGAIN, b)
      else case gb_get_buffer_pos b lsn 0 of (ret, start_pos) \<Rightarrow>
        if ret \<noteq> OB_SUCCESS then (ret, b)
        else gb_fill_ring start_pos (the data) data_len
               (gb_inc_update_readable (gb_gen_readable_begin_lsn_for_filling b end_lsn) b))"

definition gb_fill_padding_body ::
  "LSN \<Rightarrow> byte list \<Rightarrow> int \<Rightarrow> int \<Rightarrow> LogGroupBuffer \<Rightarrow> ob_ret \<times> LogGroupBuffer" where
  "gb_fill_padding_body lsn data data_len log_body_size b =
     (let end_lsn = lsn_add lsn log_body_size; start_lsn = gb_start_lsn b; reuse_lsn = gb_reuse_lsn b;
          available_buf_size = gb_available_buffer_size b; reserved_buf_size = gb_reserved_buffer_size b in
      if \<not> gb_is_inited b then (OB_NOT_INIT, b)
      else if \<not> lsn_is_valid lsn \<or> log_body_size \<le> 0 then (OB_INVALID_ARGUMENT, b)
      else if lsn_lt lsn start_lsn then (OB_ERR_UNEXPECTED, b)
      else if lsn_le end_lsn reuse_lsn then (OB_ERR_UNEXPECTED, b)
      else if lsn_gt end_lsn (lsn_add reuse_lsn available_buf_size) then (OB_EAGAIN, b)
      else case gb_get_buffer_pos b lsn 0 of (ret, start_pos) \<Rightarrow>
        if ret \<noteq> OB_SUCCESS then (ret, b)
        else let b1 = gb_inc_update_readable (gb_gen_readable_begin_lsn_for_filling b end_lsn) b;
                 b2 = b1 \<lparr> gb_mem := ring_copy reserved_buf_size start_pos
                        (replicate (nat log_body_size) PADDING_LOG_CONTENT_CHAR) log_body_size (gb_mem b1) \<rparr>
          in gb_fill_ring start_pos data data_len b2)"

definition gb_check_log_buf_wrapped :: "LogGroupBuffer \<Rightarrow> LSN \<Rightarrow> int \<Rightarrow> ob_ret \<times> bool" where
  "gb_check_log_buf_wrapped b lsn log_len =
     (if \<not> gb_is_inited b then (OB_NOT_INIT, False)
      else if \<not> lsn_is_valid lsn \<or> log_len \<le> 0 then (OB_INVALID_ARGUMENT, False)
      else if lsn_lt lsn (gb_start_lsn b) then (OB_SUCCESS, False)
      else case gb_get_buffer_pos b lsn 0 of (ret, start_pos) \<Rightarrow>
        if ret \<noteq> OB_SUCCESS then (ret, False)
        else (OB_SUCCESS, start_pos + log_len > gb_reserved_buffer_size b))"

definition gb_activate :: "LogGroupBuffer \<Rightarrow> ob_ret \<times> LogGroupBuffer" where
  "gb_activate b =
     (if \<not> gb_is_inited b then (OB_NOT_INIT, b)
      else (OB_SUCCESS, b \<lparr> gb_available_buffer_size := DEFAULT_GROUP_BUFFER_SIZE \<rparr>))"

definition gb_inc_update_reuse_lsn :: "LSN \<Rightarrow> LogGroupBuffer \<Rightarrow> ob_ret \<times> LogGroupBuffer" where
  "gb_inc_update_reuse_lsn new_reuse_lsn b =
     (if \<not> lsn_is_valid new_reuse_lsn then (OB_INVALID_ARGUMENT, b)
      else (OB_SUCCESS, b \<lparr> gb_reuse_lsn := fst (seq_update (<) (gb_reuse_lsn b) new_reuse_lsn) \<rparr>))"

definition gb_truncate :: "LSN \<Rightarrow> LogGroupBuffer \<Rightarrow> ob_ret \<times> LogGroupBuffer" where
  "gb_truncate new_lsn b =
     (if \<not> lsn_is_valid new_lsn then (OB_INVALID_ARGUMENT, b)
      else if lsn_lt new_lsn (gb_start_lsn b) then (OB_INVALID_ARGUMENT, b)
      else (OB_SUCCESS, (gb_inc_update_readable new_lsn b) \<lparr> gb_reuse_lsn := new_lsn \<rparr>))"

text \<open>
  \<open>rb2\<close> is what the second load of \<^verbatim>\<open>readable_begin_lsn_\<close>, the double check after the copy,
  returns; it is the same value when nothing ran in between.
\<close>

definition gb_read_data_recheck ::
  "LSN \<Rightarrow> LogGroupBuffer \<Rightarrow> LSN \<Rightarrow> int \<Rightarrow> cbuf \<Rightarrow> int \<Rightarrow> ob_ret \<times> cbuf \<times> int" where
  "gb_read_data_recheck rb2 b read_begin_lsn in_read_size buf out_read_size =
     (if \<not> lsn_is_valid read_begin_lsn \<or> in_read_size \<le> 0 \<or> buf = None
      then (OB_INVALID_ARGUMENT, buf, out_read_size)
      else case gb_get_buffer_pos b read_begin_lsn (- 1) of (ret, start_pos) \<Rightarrow>
        if ret \<noteq> OB_SUCCESS then (ret, buf, out_read_size)
        else if lsn_lt read_begin_lsn (gb_readable_begin_lsn b) then (OB_ERR_OUT_OF_LOWER_BOUND, buf, out_read_size)
        else if lsn_gt (gb_reuse_lsn b) read_begin_lsn then
          let readable_size = sint (lsn_diff (gb_reuse_lsn b) read_begin_lsn);
              real_read_size = min readable_size in_read_size;
              group_buf_tail_len = gb_reserved_buffer_size b - start_pos;
              first_part_len = min group_buf_tail_len real_read_size;
              buf1 = store (the buf) 0 (load (gb_mem b) (nat start_pos) (nat first_part_len));
              buf2 = (if real_read_size > first_part_len
                then store buf1 (nat first_part_len) (load (gb_mem b) 0 (nat (real_read_size - first_part_len)))
                else buf1)
          in if lsn_gt rb2 read_begin_lsn then (OB_ERR_OUT_OF_LOWER_BOUND, Some buf2, 0)
             else (OB_SUCCESS, Some buf2, real_read_size)
        else (OB_SUCCESS, buf, out_read_size))"

definition gb_read_data :: "LogGroupBuffer \<Rightarrow> LSN \<Rightarrow> int \<Rightarrow> cbuf \<Rightarrow> int \<Rightarrow> ob_ret \<times> cbuf \<times> int" where
  "gb_read_data b = gb_read_data_recheck (gb_readable_begin_lsn b) b"

subsection \<open>The ring and the log it caches\<close>

definition off :: "LSN \<Rightarrow> int" where "off l = uint (lsn_val l)"

type_synonym log_bytes = "int \<rightharpoonup> byte"

definition log_write :: "log_bytes \<Rightarrow> int \<Rightarrow> byte list \<Rightarrow> log_bytes" where
  "log_write M x xs = (\<lambda>y. if x \<le> y \<and> y < x + int (length xs) then Some (xs ! nat (y - x)) else M y)"

definition log_read :: "log_bytes \<Rightarrow> int \<Rightarrow> nat \<Rightarrow> byte list" where
  "log_read M x n = map (\<lambda>i. the (M (x + int i))) [0..<n]"

definition gb_pos :: "LogGroupBuffer \<Rightarrow> int \<Rightarrow> int" where
  "gb_pos b x = (x - off (gb_start_lsn b)) mod gb_reserved_buffer_size b"

text \<open>
  The well-formedness of a buffer: sizes and pointers in range, every filled offset less than
  the ring size ahead of \<^verbatim>\<open>readable_begin_lsn_\<close> and of \<^verbatim>\<open>reuse_lsn_\<close>, everything between \<^verbatim>\<open>readable_begin_lsn_\<close> and
  \<^verbatim>\<open>reuse_lsn_\<close> filled, and the ring holding the log from \<^verbatim>\<open>readable_begin_lsn_\<close> on.
\<close>

definition gb_inv :: "LogGroupBuffer \<Rightarrow> log_bytes \<Rightarrow> bool" where
  "gb_inv b M \<longleftrightarrow> gb_is_inited b \<and> gb_data_buf b > 0 \<and> 0 < gb_reserved_buffer_size b
     \<and> int (length (gb_mem b)) = gb_reserved_buffer_size b
     \<and> 0 \<le> gb_available_buffer_size b \<and> gb_available_buffer_size b \<le> gb_reserved_buffer_size b
     \<and> gb_start_lsn b \<le> gb_readable_begin_lsn b \<and> gb_start_lsn b \<le> gb_reuse_lsn b
     \<and> off (gb_readable_begin_lsn b) < 2 ^ 63 \<and> off (gb_reuse_lsn b) + gb_reserved_buffer_size b < 2 ^ 63
     \<and> dom M \<subseteq> {off (gb_start_lsn b) ..< off (gb_readable_begin_lsn b) + gb_reserved_buffer_size b}
     \<and> dom M \<subseteq> {..< off (gb_reuse_lsn b) + gb_reserved_buffer_size b}
     \<and> {off (gb_readable_begin_lsn b) ..< off (gb_reuse_lsn b)} \<subseteq> dom M
     \<and> (\<forall>x v. M x = Some v \<longrightarrow> off (gb_readable_begin_lsn b) \<le> x \<longrightarrow> gb_mem b ! nat (gb_pos b x) = v)"

lemma off_less: "a < b \<longleftrightarrow> off a < off b"
  by (simp add: off_def lsn_less_iff word_less_def)

lemma off_le: "a \<le> b \<longleftrightarrow> off a \<le> off b"
  by (simp add: off_def lsn_less_eq_iff word_le_def)

lemma off_nonneg [simp]: "0 \<le> off a"
  by (simp add: off_def)

lemma off_valid: "off l < 2 ^ 63 \<Longrightarrow> lsn_is_valid l"
  by (auto simp: off_def lsn_is_valid_def LOG_INVALID_LSN_VAL_def unsigned_minus_1_eq_mask mask_eq_exp_minus_1
      dest: sym)

lemma off_add: "0 \<le> n \<Longrightarrow> off l + n < 2 ^ 64 \<Longrightarrow> off (lsn_add l n) = off l + n"
proof -
  assume a: "0 \<le> n" "off l + n < 2 ^ 64"
  then have "n < 2 ^ 64" using off_nonneg [of l] by linarith
  with a(1) have n: "uint (word_of_int n :: 64 word) = n" by (simp add: uint_word_of_int_small)
  with a show ?thesis
    unfolding off_def lsn_add_def lsn_plus_def by (subst LSN.sel, subst uint_add_small) simp_all
qed

lemma off_diff:
  assumes "off r \<le> off l" "off l < 2 ^ 63"
  shows "sint (lsn_diff l r) = off l - off r"
proof -
  have "uint (lsn_diff l r) = off l - off r"
    using assms by (simp add: off_def lsn_diff_def uint_sub_small)
  moreover have "off l - off r < 2 ^ 63" using assms(2) off_nonneg [of r] by linarith
  ultimately show ?thesis using assms(1) by (simp add: sint_uint signed_take_bit_int_eq_self)
qed

lemma off_max: "off (max a b) = max (off a) (off b)"
  by (simp add: max_def off_le)

lemma seq_update_max [simp]: "fst (seq_update (<) a (b :: LSN)) = max a b"
  by (auto simp: lsn_up.seq_update_eq Let_def max_def)

lemma log_read_nth [simp]: "length (log_read M x n) = n" "i < n \<Longrightarrow> log_read M x n ! i = the (M (x + int i))"
  by (simp_all add: log_read_def)

lemma log_read_write: "log_read (log_write M x xs) x (length xs) = xs"
  by (rule nth_equalityI) (simp_all add: log_write_def)

subsubsection \<open>Ring arithmetic\<close>

lemma mod_wrap:
  "0 \<le> (x :: int) \<Longrightarrow> x < N \<Longrightarrow> x mod N = x"
  "N \<le> x \<Longrightarrow> x < 2 * N \<Longrightarrow> x mod N = x - N"
  "- N \<le> x \<Longrightarrow> x < 0 \<Longrightarrow> x mod N = x + N"
  using mod_pos_pos_trivial [of x N] mod_pos_pos_trivial [of "x - N" N] minus_mod_self2 [of x N]
    mod_pos_pos_trivial [of "x + N" N] mod_add_self2 [of x N]
  by simp_all

lemma ring_copy_nth:
  assumes "int (length mem) = N" "0 \<le> p" "p < N" "0 \<le> len" "len \<le> N" "int (length data) = len"
    and "0 \<le> q" "q < N"
  shows "ring_copy N p data len mem ! nat q =
    (if (q - p) mod N < len then data ! nat ((q - p) mod N) else mem ! nat q)"
proof -
  define f where "f = min (N - p) len"
  define m1 where "m1 = store mem (nat p) (take (nat f) data)"
  have f: "0 \<le> f" "f \<le> len" "p + f \<le> N" using assms by (auto simp: f_def)
  have l1: "length m1 = length mem" using f assms by (simp add: m1_def)
  have n1: "m1 ! nat q = (if p \<le> q \<and> q < p + f then data ! nat (q - p) else mem ! nat q)"
    using f assms nth_store [of "nat p" "take (nat f) data" mem "nat q"]
    by (auto simp: m1_def nat_diff_distrib nat_less_iff)
  show ?thesis
  proof (cases "len > f")
    case True
    then have fp: "f = N - p" by (auto simp: f_def)
    have "ring_copy N p data len mem = store m1 0 (take (nat (len - f)) (drop (nat f) data))"
      using True by (simp add: ring_copy_def Let_def f_def [symmetric] m1_def)
    then have "ring_copy N p data len mem ! nat q = (if q < len - f then data ! nat (q + f) else m1 ! nat q)"
      using f assms l1 nth_store [of 0 "take (nat (len - f)) (drop (nat f) data)" m1 "nat q"]
      by (auto simp: nat_add_distrib add.commute nat_less_iff)
    moreover have "(q - p) mod N = (if p \<le> q then q - p else q - p + N)"
      using assms by (auto simp: mod_wrap)
    moreover have e: "q + f = q - p + N" by (simp add: fp)
    ultimately show ?thesis using True assms n1 fp unfolding e by auto
  next
    case False
    then have fl: "f = len" using f by simp
    have "ring_copy N p data len mem = m1" using False by (simp add: ring_copy_def Let_def f_def [symmetric] m1_def)
    moreover have "(q - p) mod N = (if p \<le> q then q - p else q - p + N)"
      using assms by (auto simp: mod_wrap)
    ultimately show ?thesis using f assms fl n1 by auto
  qed
qed

lemma ring_copy_length:
  assumes "int (length mem) = N" "0 \<le> p" "p < N" "0 \<le> len" "len \<le> N" "int (length data) = len"
  shows "length (ring_copy N p data len mem) = length mem"
proof -
  define f where "f = min (N - p) len"
  have "length (store mem (nat p) (take (nat f) data)) = length mem"
    using assms by (intro length_store) (auto simp: f_def)
  moreover have "f \<le> len" by (simp add: f_def)
  ultimately show ?thesis using assms by (cases "f = len") (simp_all add: ring_copy_def Let_def f_def [symmetric])
qed

lemma ring_pos_diff: "(((y - s) mod N - (x - s) mod N) :: int) mod N = (y - x) mod N"
  by (simp add: mod_diff_eq)

lemma ring_read:
  assumes "int (length mem) = N" "0 \<le> p" "p < N" "0 \<le> n" "n \<le> N" "i < nat n"
  shows "(load mem (nat p) (nat (min (N - p) n)) @ load mem 0 (nat (n - min (N - p) n))) ! i
    = mem ! nat ((p + int i) mod N)"
proof -
  have m: "(p + int i) mod N = (if p + int i < N then p + int i else p + int i - N)"
    using assms by (auto simp: mod_wrap)
  have l: "length (load mem (nat p) (nat (min (N - p) n))) = nat (min (N - p) n)"
    using assms by (intro length_load) auto
  show ?thesis
  proof (cases "p + int i < N")
    case True
    then have "i < nat (min (N - p) n)" using assms by auto
    then show ?thesis using True assms m l nth_load [of i "nat (min (N - p) n)" "nat p" mem]
      by (auto simp: nth_append nat_add_distrib)
  next
    case False
    then have "\<not> i < nat (min (N - p) n)" "i - nat (min (N - p) n) = nat (p + int i - N)"
      "nat (p + int i - N) < nat (n - min (N - p) n)" "nat (n - min (N - p) n) \<le> length mem"
      using assms by auto
    then show ?thesis using False m l nth_load [of "nat (p + int i - N)" "nat (n - min (N - p) n)" 0 mem]
      by (simp add: nth_append)
  qed
qed

lemma ring_copy_twice:
  assumes "int (length mem) = N" "0 \<le> p" "p < N" "0 \<le> n" "n \<le> N" "int (length ys) = n" "length xs \<le> length ys"
  shows "ring_copy N p xs (int (length xs)) (ring_copy N p ys n mem)
    = ring_copy N p (xs @ drop (length xs) ys) n mem"
proof -
  have N: "0 < N" using assms by simp
  have l1: "length (ring_copy N p ys n mem) = length mem" using assms by (intro ring_copy_length) auto
  have l2: "length (ring_copy N p xs (int (length xs)) (ring_copy N p ys n mem)) = length mem"
    using assms l1 by (subst ring_copy_length) auto
  have l3: "length (ring_copy N p (xs @ drop (length xs) ys) n mem) = length mem"
    using assms by (intro ring_copy_length) auto
  show ?thesis
  proof (rule nth_equalityI)
    fix i assume "i < length (ring_copy N p xs (int (length xs)) (ring_copy N p ys n mem))"
    then have i: "0 \<le> int i" "int i < N" using l2 assms(1) by simp_all
    define k where "k = nat ((int i - p) mod N)"
    have k: "(int i - p) mod N = int k" using N by (simp add: k_def)
    show "ring_copy N p xs (int (length xs)) (ring_copy N p ys n mem) ! i
        = ring_copy N p (xs @ drop (length xs) ys) n mem ! i"
      using ring_copy_nth [of "ring_copy N p ys n mem" N p "int (length xs)" xs "int i"]
        ring_copy_nth [of mem N p n ys "int i"]
        ring_copy_nth [of mem N p n "xs @ drop (length xs) ys" "int i"] assms i l1 k
      by (auto simp: nth_append)
  qed (simp add: l2 l3)
qed

subsection \<open>Every operation against the log\<close>

lemma gb_pos_range [simp]: "gb_inv b M \<Longrightarrow> 0 \<le> gb_pos b x" "gb_inv b M \<Longrightarrow> gb_pos b x < gb_reserved_buffer_size b"
  by (simp_all add: gb_inv_def gb_pos_def)

lemma gb_inv_dom:
  "gb_inv b M \<Longrightarrow> M y = Some v \<Longrightarrow> off (gb_start_lsn b) \<le> y
    \<and> y < off (gb_readable_begin_lsn b) + gb_reserved_buffer_size b \<and> y < off (gb_reuse_lsn b) + gb_reserved_buffer_size b"
  by (auto simp: gb_inv_def dom_def subset_iff)

lemma smod_pos: "0 \<le> a \<Longrightarrow> 0 < b \<Longrightarrow> (a :: int) smod b = a mod b"
  by (cases "a = 0") (simp_all add: smod_int_alt_def)

lemma gb_get_buffer_pos_eq:
  assumes "gb_inv b M" "off l < 2 ^ 63"
  shows "gb_get_buffer_pos b l sp =
    (if l < gb_start_lsn b then (OB_ERR_OUT_OF_LOWER_BOUND, sp) else (OB_SUCCESS, gb_pos b (off l)))"
  using assms off_valid [OF assms(2)] off_diff [of "gb_start_lsn b" l]
  by (auto simp: gb_get_buffer_pos_def gb_inv_def gb_pos_def smod_pos off_less)

lemma off_gen_readable:
  assumes "0 < gb_reserved_buffer_size b" "gb_reserved_buffer_size b < 2 ^ 63"
  shows "off (gb_gen_readable_begin_lsn_for_filling b e) = max 0 (off e - gb_reserved_buffer_size b)"
proof -
  have "uint (word_of_int (gb_reserved_buffer_size b) :: 64 word) = gb_reserved_buffer_size b"
    using assms by (simp add: uint_word_of_int_small)
  then show ?thesis
    by (auto simp: gb_gen_readable_begin_lsn_for_filling_def Let_def off_def lsn_minus_def word_le_def uint_sub_small)
qed

lemma gb_write_inv:
  assumes inv: "gb_inv b M" and x: "off (gb_reuse_lsn b) \<le> x" "x + int (length xs) < 2 ^ 63"
    and e: "x + int (length xs) \<le> off (gb_reuse_lsn b) + gb_available_buffer_size b"
    and r: "off r = max (off (gb_readable_begin_lsn b)) (max 0 (x + int (length xs) - gb_reserved_buffer_size b))"
  shows "gb_inv (b \<lparr> gb_readable_begin_lsn := r,
      gb_mem := ring_copy (gb_reserved_buffer_size b) (gb_pos b x) xs (int (length xs)) (gb_mem b) \<rparr>)
    (log_write M x xs)" (is "gb_inv ?b ?M")
proof -
  define N where "N = gb_reserved_buffer_size b"
  define s where "s = off (gb_start_lsn b)"
  define len where "len = int (length xs)"
  have N: "0 < N" "int (length (gb_mem b)) = N" "len \<le> N" "off (gb_reuse_lsn b) + N < 2 ^ 63"
    using inv x e by (auto simp: gb_inv_def N_def len_def)
  have s: "s \<le> off (gb_readable_begin_lsn b)" "s \<le> off (gb_reuse_lsn b)"
    using inv by (simp_all add: gb_inv_def s_def off_le)
  have rb: "off (gb_readable_begin_lsn b) \<le> off r" "x + len \<le> off r + N" "off r < 2 ^ 63"
    using r inv x(2) by (auto simp: N_def len_def gb_inv_def)
  have mem: "gb_mem ?b ! nat (gb_pos ?b y) = v" if y: "?M y = Some v" "off r \<le> y" for y v
  proof -
    have pb: "gb_pos ?b y = gb_pos b y" by (simp add: gb_pos_def)
    have mb: "gb_mem ?b = ring_copy N (gb_pos b x) xs len (gb_mem b)" by (simp add: N_def len_def)
    have d: "(gb_pos b y - gb_pos b x) mod N = (y - x) mod N"
      by (simp add: gb_pos_def N_def ring_pos_diff)
    have n0: "ring_copy N (gb_pos b x) xs len (gb_mem b) ! nat (gb_pos b y) =
        (if (gb_pos b y - gb_pos b x) mod N < len then xs ! nat ((gb_pos b y - gb_pos b x) mod N)
         else gb_mem b ! nat (gb_pos b y))"
      using N(2,3) gb_pos_range [OF inv] by (intro ring_copy_nth) (simp_all add: N_def len_def)
    have n: "gb_mem ?b ! nat (gb_pos ?b y) =
        (if (y - x) mod N < len then xs ! nat ((y - x) mod N) else gb_mem b ! nat (gb_pos b y))"
      unfolding pb mb n0 d by (rule refl)
    show ?thesis
    proof (cases "x \<le> y \<and> y < x + len")
      case True
      then show ?thesis using y(1) n N(3) by (auto simp: log_write_def len_def mod_wrap)
    next
      case False
      then have M: "M y = Some v" using y(1) by (simp add: log_write_def len_def split: if_splits)
      then have "y < off (gb_reuse_lsn b) + N" using inv by (auto simp: gb_inv_def N_def)
      then have "\<not> (y - x) mod N < len"
        using False x(1) rb(2) y(2) N(1) mod_wrap(1) [of "y - x" N] mod_wrap(3) [of N "y - x"]
        by (cases "x \<le> y") (auto simp: len_def)
      with n M y(2) rb(1) inv show ?thesis by (simp add: gb_inv_def)
    qed
  qed
  have dom: "dom ?M = dom M \<union> {x ..< x + len}" by (auto simp: log_write_def len_def split: if_splits)
  have "length (gb_mem ?b) = length (gb_mem b)"
    using N(2,3) gb_pos_range [OF inv] by (simp add: ring_copy_length N_def len_def)
  moreover have "dom ?M \<subseteq> {s ..< off r + N}" "dom ?M \<subseteq> {..< off (gb_reuse_lsn b) + N}"
    using inv rb x(1) s e unfolding dom by (auto simp: gb_inv_def N_def s_def len_def)
  moreover have "{off r ..< off (gb_reuse_lsn b)} \<subseteq> dom ?M"
  proof -
    have "{off (gb_readable_begin_lsn b) ..< off (gb_reuse_lsn b)} \<subseteq> dom M" using inv by (simp add: gb_inv_def)
    then show ?thesis unfolding dom using rb(1) by (intro le_supI1) (erule order_trans [rotated], simp)
  qed
  ultimately show ?thesis
    using inv mem rb s(1) unfolding gb_inv_def [of ?b] by (simp add: gb_inv_def N_def s_def off_le)
qed

text \<open>\<open>gb_write x xs\<close> is what a successful fill does to the buffer.\<close>

definition gb_write :: "int \<Rightarrow> byte list \<Rightarrow> LogGroupBuffer \<Rightarrow> LogGroupBuffer" where
  "gb_write x xs b = b
     \<lparr> gb_readable_begin_lsn := max (gb_readable_begin_lsn b)
         (LSN (word_of_int (max 0 (x + int (length xs) - gb_reserved_buffer_size b)))),
       gb_mem := ring_copy (gb_reserved_buffer_size b) (gb_pos b x) xs (int (length xs)) (gb_mem b) \<rparr>"

lemma LSN_off [simp]: "LSN (word_of_int (off l)) = l"
  by (simp add: off_def)

lemma off_LSN: "0 \<le> x \<Longrightarrow> x < 2 ^ 63 \<Longrightarrow> off (LSN (word_of_int x)) = x"
  by (simp add: off_def uint_word_of_int_small)

lemma gb_write_keeps:
  assumes "gb_inv b M" "off (gb_reuse_lsn b) \<le> x" "x + int (length xs) < 2 ^ 63"
    "x + int (length xs) \<le> off (gb_reuse_lsn b) + gb_available_buffer_size b"
  shows "gb_inv (gb_write x xs b) (log_write M x xs)"
  unfolding gb_write_def
proof (rule gb_write_inv [OF assms])
  have "0 \<le> max 0 (x + int (length xs) - gb_reserved_buffer_size b)"
    "max 0 (x + int (length xs) - gb_reserved_buffer_size b) < 2 ^ 63"
    using assms(1,3) by (auto simp: gb_inv_def)
  then show "off (max (gb_readable_begin_lsn b)
      (LSN (word_of_int (max 0 (x + int (length xs) - gb_reserved_buffer_size b)))))
    = max (off (gb_readable_begin_lsn b)) (max 0 (x + int (length xs) - gb_reserved_buffer_size b))"
    by (simp only: off_max off_LSN)
qed

lemma gb_fill_guards:
  assumes inv: "gb_inv b M" and l: "gb_reuse_lsn b \<le> l" and n: "0 < n" "off l + n < 2 ^ 63"
  shows "lsn_is_valid l" "\<not> l < gb_start_lsn b" "\<not> lsn_add l n \<le> gb_reuse_lsn b"
    "lsn_add (gb_reuse_lsn b) (gb_available_buffer_size b) < lsn_add l n \<longleftrightarrow>
      off (gb_reuse_lsn b) + gb_available_buffer_size b < off l + n"
    "gb_get_buffer_pos b l sp = (OB_SUCCESS, gb_pos b (off l))"
    "off (gb_gen_readable_begin_lsn_for_filling b (lsn_add l n)) = max 0 (off l + n - gb_reserved_buffer_size b)"
proof -
  have o: "off l < 2 ^ 63" "off (lsn_add l n) = off l + n" using n off_add [of n l] by auto
  have r: "0 < gb_reserved_buffer_size b" "gb_reserved_buffer_size b < 2 ^ 63"
    using inv off_nonneg [of "gb_reuse_lsn b"] unfolding gb_inv_def by linarith+
  have a: "off (lsn_add (gb_reuse_lsn b) (gb_available_buffer_size b))
      = off (gb_reuse_lsn b) + gb_available_buffer_size b"
    using inv by (intro off_add) (auto simp: gb_inv_def)
  show "lsn_is_valid l" by (rule off_valid [OF o(1)])
  show s: "\<not> l < gb_start_lsn b" using inv l by (auto simp: gb_inv_def)
  show "\<not> lsn_add l n \<le> gb_reuse_lsn b" using l n(1) by (simp add: off_le o)
  show "lsn_add (gb_reuse_lsn b) (gb_available_buffer_size b) < lsn_add l n \<longleftrightarrow>
      off (gb_reuse_lsn b) + gb_available_buffer_size b < off l + n" by (simp add: off_less a o)
  show "gb_get_buffer_pos b l sp = (OB_SUCCESS, gb_pos b (off l))"
    using gb_get_buffer_pos_eq [OF inv o(1)] s by simp
  show "off (gb_gen_readable_begin_lsn_for_filling b (lsn_add l n)) = max 0 (off l + n - gb_reserved_buffer_size b)"
    using off_gen_readable [OF r, of "lsn_add l n"] n o by simp
qed

lemma gb_gen_readable_eq:
  "off r = x \<Longrightarrow> r = LSN (word_of_int x)"
  by (metis LSN_off)

text \<open>The guards of \<^verbatim>\<open>fill\<close> wherever the range lies.\<close>

lemma gb_fill_cases:
  assumes inv: "gb_inv b M" and xs: "xs \<noteq> []" and l: "off l + int (length xs) < 2 ^ 63"
  shows "gb_fill l (Some xs) (int (length xs)) b =
    (if l < gb_start_lsn b \<or> off l + int (length xs) \<le> off (gb_reuse_lsn b) then (OB_ERR_UNEXPECTED, b)
     else if off (gb_reuse_lsn b) + gb_available_buffer_size b < off l + int (length xs) then (OB_EAGAIN, b)
     else (OB_SUCCESS, gb_write (off l) xs b))"
    and "gb_can_handle_new_log b l (int (length xs)) \<longleftrightarrow>
      \<not> l < gb_start_lsn b \<and> off l + int (length xs) \<le> off (gb_reuse_lsn b) + gb_available_buffer_size b"
proof -
  let ?n = "int (length xs)"
  have n: "0 < ?n" using xs by simp
  have o: "off l < 2 ^ 63" "off (lsn_add l ?n) = off l + ?n" using l n off_add [of ?n l] by auto
  have a: "off (lsn_add (gb_reuse_lsn b) (gb_available_buffer_size b)) = off (gb_reuse_lsn b) + gb_available_buffer_size b"
    using inv by (intro off_add) (auto simp: gb_inv_def)
  have r: "0 < gb_reserved_buffer_size b" "gb_reserved_buffer_size b < 2 ^ 63"
    using inv off_nonneg [of "gb_reuse_lsn b"] unfolding gb_inv_def by linarith+
  have i: "gb_is_inited b" using inv by (simp add: gb_inv_def)
  have p: "gb_pos (gb_inc_update_readable r b) x = gb_pos b x" for r x
    by (simp add: gb_pos_def gb_inc_update_readable_def)
  have g: "gb_gen_readable_begin_lsn_for_filling b (lsn_add l ?n) = LSN (word_of_int (max 0 (off l + ?n - gb_reserved_buffer_size b)))"
    using off_gen_readable [OF r, of "lsn_add l ?n"] o(2) by (intro gb_gen_readable_eq) simp
  show "gb_fill l (Some xs) ?n b =
    (if l < gb_start_lsn b \<or> off l + ?n \<le> off (gb_reuse_lsn b) then (OB_ERR_UNEXPECTED, b)
     else if off (gb_reuse_lsn b) + gb_available_buffer_size b < off l + ?n then (OB_EAGAIN, b)
     else (OB_SUCCESS, gb_write (off l) xs b))"
    using n i off_valid [OF o(1)] gb_get_buffer_pos_eq [OF inv o(1), of 0]
    by (auto simp: gb_fill_def Let_def gb_fill_ring_def gb_write_def gb_inc_update_readable_def g off_le off_less o(2) a)
  have v: "lsn_is_valid (LSN LOG_MAX_LSN_VAL)" "off (LSN LOG_MAX_LSN_VAL) = 2 ^ 64 - 2"
    by (simp_all add: lsn_is_valid_def off_def LOG_MAX_LSN_VAL_def LOG_INVALID_LSN_VAL_def)
  then have "min (gb_reuse_lsn b) (LSN LOG_MAX_LSN_VAL) = gb_reuse_lsn b"
    using inv by (auto simp: gb_inv_def min_def off_le)
  then show "gb_can_handle_new_log b l ?n \<longleftrightarrow>
      \<not> l < gb_start_lsn b \<and> off l + ?n \<le> off (gb_reuse_lsn b) + gb_available_buffer_size b"
    using i n v(1) off_valid [OF o(1)]
    by (auto simp: gb_can_handle_new_log_def gb_can_handle_new_log_ref_def Let_def off_less o(2) a)
qed

lemma gb_fill_eq:
  assumes "gb_inv b M" "gb_reuse_lsn b \<le> l" "xs \<noteq> []" "off l + int (length xs) < 2 ^ 63"
  shows "gb_fill l (Some xs) (int (length xs)) b =
    (if off (gb_reuse_lsn b) + gb_available_buffer_size b < off l + int (length xs) then (OB_EAGAIN, b)
     else (OB_SUCCESS, gb_write (off l) xs b))"
proof -
  have "\<not> l < gb_start_lsn b" using assms(1,2) by (auto simp: gb_inv_def)
  moreover have "\<not> off l + int (length xs) \<le> off (gb_reuse_lsn b)"
  proof -
    have "0 < int (length xs)" "off (gb_reuse_lsn b) \<le> off l" using assms(2,3) by (simp_all add: off_le)
    then show ?thesis by linarith
  qed
  ultimately show ?thesis using gb_fill_cases(1) [OF assms(1,3,4)] by simp
qed

lemma gb_fill_padding_body_eq:
  assumes "gb_inv b M" "gb_reuse_lsn b \<le> l" "0 < n" "off l + n < 2 ^ 63" "int (length xs) \<le> n"
  shows "gb_fill_padding_body l xs (int (length xs)) n b =
    (if off (gb_reuse_lsn b) + gb_available_buffer_size b < off l + n then (OB_EAGAIN, b)
     else (OB_SUCCESS, gb_write (off l) (xs @ replicate (nat n - length xs) PADDING_LOG_CONTENT_CHAR) b))"
proof (cases "off (gb_reuse_lsn b) + gb_available_buffer_size b < off l + n")
  case False
  note g = gb_fill_guards [OF assms(1-4)]
  define ys where "ys = replicate (nat n) PADDING_LOG_CONTENT_CHAR"
  define N where "N = gb_reserved_buffer_size b"
  have i: "gb_is_inited b" "int (length (gb_mem b)) = N" "off (gb_reuse_lsn b) \<le> off l"
    "gb_available_buffer_size b \<le> N"
    using assms(1,2) by (simp_all add: gb_inv_def off_le N_def)
  have l: "xs @ drop (length xs) ys = xs @ replicate (nat n - length xs) PADDING_LOG_CONTENT_CHAR"
    "int (length (xs @ drop (length xs) ys)) = n"
    using assms(5) by (simp_all add: ys_def)
  have "ring_copy N (gb_pos b (off l)) xs (int (length xs)) (ring_copy N (gb_pos b (off l)) ys n (gb_mem b))
      = ring_copy N (gb_pos b (off l)) (xs @ drop (length xs) ys) n (gb_mem b)"
    using assms(1,3,5) i False gb_pos_range [OF assms(1)]
    by (intro ring_copy_twice) (auto simp: ys_def N_def)
  then show ?thesis
    using False i(1) g assms(3) gb_gen_readable_eq [OF g(6)] l
    by (simp add: gb_fill_padding_body_def Let_def gb_fill_ring_def gb_write_def gb_inc_update_readable_def
        ys_def [symmetric] N_def [symmetric])
qed (use assms gb_fill_guards [OF assms(1-4)] in \<open>simp add: gb_fill_padding_body_def gb_inv_def Let_def\<close>)

lemma gb_pos_add: "(gb_pos b x + i) mod gb_reserved_buffer_size b = gb_pos b (x + i)"
  unfolding gb_pos_def mod_add_left_eq by (simp add: algebra_simps)

text \<open>What the two parts of a wrapping copy out of the ring yield.\<close>

lemma gb_ring_log:
  assumes inv: "gb_inv b M" and x: "off (gb_readable_begin_lsn b) \<le> x" "0 \<le> n" "n \<le> gb_reserved_buffer_size b"
    and filled: "\<And>y. x \<le> y \<Longrightarrow> y < x + n \<Longrightarrow> \<exists>v. M y = Some v"
    and f: "f = min (gb_reserved_buffer_size b - gb_pos b x) n"
  shows "load (gb_mem b) (nat (gb_pos b x)) (nat f) @ load (gb_mem b) 0 (nat (n - f)) = log_read M x (nat n)"
    and "0 \<le> f" "f \<le> n" "length (load (gb_mem b) (nat (gb_pos b x)) (nat f)) = nat f"
    "length (load (gb_mem b) 0 (nat (n - f))) = nat (n - f)"
proof -
  define N where "N = gb_reserved_buffer_size b"
  have N: "int (length (gb_mem b)) = N" using inv by (simp add: gb_inv_def N_def)
  have pos: "0 \<le> gb_pos b x" "gb_pos b x < N" using gb_pos_range [OF inv] by (simp_all add: N_def)
  show f': "0 \<le> f" "f \<le> n" using pos x by (auto simp: f N_def)
  show l: "length (load (gb_mem b) (nat (gb_pos b x)) (nat f)) = nat f"
    "length (load (gb_mem b) 0 (nat (n - f))) = nat (n - f)"
    using N pos f' x by (auto simp: f N_def intro!: length_load)
  show "load (gb_mem b) (nat (gb_pos b x)) (nat f) @ load (gb_mem b) 0 (nat (n - f)) = log_read M x (nat n)"
  proof (rule nth_equalityI)
    show "length (load (gb_mem b) (nat (gb_pos b x)) (nat f) @ load (gb_mem b) 0 (nat (n - f)))
        = length (log_read M x (nat n))" using l f' by simp
    fix i assume "i < length (load (gb_mem b) (nat (gb_pos b x)) (nat f) @ load (gb_mem b) 0 (nat (n - f)))"
    then have i: "i < nat n" using l f' by simp
    then obtain v where v: "M (x + int i) = Some v"
      using filled [of "x + int i"] by (auto simp: zless_nat_eq_int_zless)
    show "(load (gb_mem b) (nat (gb_pos b x)) (nat f) @ load (gb_mem b) 0 (nat (n - f))) ! i = log_read M x (nat n) ! i"
      using ring_read [OF N pos, of n i] x i v inv gb_pos_add [of b x "int i"]
      by (auto simp: f N_def gb_inv_def)
  qed
qed

lemma gb_read_data_eq:
  assumes inv: "gb_inv b M" and l: "off l < 2 ^ 63" and n: "0 < n" "n \<le> int (length d)"
  shows "gb_read_data b l n (Some d) out =
    (if l < gb_readable_begin_lsn b then (OB_ERR_OUT_OF_LOWER_BOUND, Some d, out)
     else if gb_reuse_lsn b \<le> l then (OB_SUCCESS, Some d, out)
     else let k = min (off (gb_reuse_lsn b) - off l) n in
       (OB_SUCCESS, Some (store d 0 (log_read M (off l) (nat k))), k))"
proof (cases "gb_readable_begin_lsn b \<le> l \<and> l < gb_reuse_lsn b")
  case True
  define N where "N = gb_reserved_buffer_size b"
  define x where "x = off l"
  define k where "k = min (off (gb_reuse_lsn b) - x) n"
  define f where "f = min (N - gb_pos b x) k"
  have N: "0 < N" "int (length (gb_mem b)) = N" "off (gb_reuse_lsn b) + N < 2 ^ 63" "gb_is_inited b"
    "gb_start_lsn b \<le> gb_readable_begin_lsn b"
    using inv by (simp_all add: gb_inv_def N_def)
  have pos: "0 \<le> gb_pos b x" "gb_pos b x < N" using gb_pos_range [OF inv] by (simp_all add: N_def)
  have u: "x < off (gb_reuse_lsn b)" "off (gb_readable_begin_lsn b) \<le> x" using True by (simp_all add: x_def off_less off_le)
  have filled: "\<exists>v. M y = Some v" if "x \<le> y" "y < off (gb_reuse_lsn b)" for y
    using inv u(2) that by (auto simp: gb_inv_def dom_def subset_iff)
  have "\<exists>v. M (off (gb_reuse_lsn b) - 1) = Some v" using filled u(1) by simp
  then have "off (gb_reuse_lsn b) \<le> off (gb_readable_begin_lsn b) + N" using gb_inv_dom [OF inv] by (fastforce simp: N_def)
  then have kN: "0 < k" "k \<le> N" using u n(1) by (auto simp: k_def)
  have "\<exists>v. M y = Some v" if "x \<le> y" "y < x + k" for y using filled [of y] that by (auto simp: k_def)
  note rl = gb_ring_log [OF inv u(2) _ _ this f_def [unfolded N_def]]
  define r where "r = load (gb_mem b) (nat (gb_pos b x)) (nat f) @ load (gb_mem b) 0 (nat (k - f))"
  have f: "0 \<le> f" "f \<le> k" and lf: "length (load (gb_mem b) (nat (gb_pos b x)) (nat f)) = nat f"
    "length (load (gb_mem b) 0 (nat (k - f))) = nat (k - f)" and r: "r = log_read M x (nat k)"
    using rl kN by (simp_all add: r_def N_def)
  have kd: "nat f + nat (k - f) \<le> length d" using n(2) f by (auto simp: k_def)
  have st: "(if k > f then store (store d 0 (load (gb_mem b) (nat (gb_pos b x)) (nat f))) (nat f)
        (load (gb_mem b) 0 (nat (k - f))) else store d 0 (load (gb_mem b) (nat (gb_pos b x)) (nat f))) = store d 0 r"
    using store_store_adjacent [of 0 "load (gb_mem b) (nat (gb_pos b x)) (nat f)" "load (gb_mem b) 0 (nat (k - f))" d]
      lf f kd by (auto simp: r_def)
  have "gb_get_buffer_pos b l (- 1) = (OB_SUCCESS, gb_pos b x)"
    using gb_get_buffer_pos_eq [OF inv l] True N(5) by (auto simp: x_def)
  moreover have "sint (lsn_diff (gb_reuse_lsn b) l) = off (gb_reuse_lsn b) - x"
    using off_diff [of l "gb_reuse_lsn b"] u N by (simp add: x_def)
  ultimately have "gb_read_data b l n (Some d) out = (OB_SUCCESS, Some (store d 0 r), k)"
    using True n(1) off_valid [OF l] st
    by (auto simp: gb_read_data_def gb_read_data_recheck_def Let_def k_def [symmetric] f_def [symmetric]
        N_def [symmetric] not_less split: if_splits)
  with True show ?thesis by (auto simp: r k_def x_def Let_def)
next
  case False
  have "gb_start_lsn b \<le> gb_readable_begin_lsn b" using inv by (simp add: gb_inv_def)
  with False n(1) off_valid [OF l] gb_get_buffer_pos_eq [OF inv l, of "- 1"] show ?thesis
    by (auto simp: gb_read_data_def gb_read_data_recheck_def)
qed

lemma gb_get_log_buf_eq:
  assumes inv: "gb_inv b M" and l: "gb_readable_begin_lsn b \<le> l" "off l + n < 2 ^ 63"
    and n: "0 < n" "n \<le> gb_reserved_buffer_size b" "{off l ..< off l + n} \<subseteq> dom M"
    and m: "\<And>i. i < length (gb_mem b) \<Longrightarrow> m (gb_data_buf b + int i) = gb_mem b ! i"
    and wb: "wb_inv w" "gb_get_log_buf al b l n w = (OB_SUCCESS, w')"
  shows "wb_inv w' \<and> gather m (arr_list w') = gather m (arr_list w) @ log_read M (off l) (nat n)"
    and "arr_list w' = arr_list w @ (let p = gb_pos b (off l); f = min (gb_reserved_buffer_size b - p) n in
      wb_pieces (gb_data_buf b + p) f @ wb_pieces (gb_data_buf b) (n - f))"
proof -
  define N where "N = gb_reserved_buffer_size b"
  define p where "p = gb_pos b (off l)"
  define f where "f = min (N - p) n"
  have N: "0 < N" "int (length (gb_mem b)) = N" "gb_is_inited b" "gb_data_buf b > 0"
    "gb_start_lsn b \<le> gb_readable_begin_lsn b"
    using inv by (simp_all add: gb_inv_def N_def)
  have pos: "0 \<le> p" "p < N" using gb_pos_range [OF inv] by (simp_all add: N_def p_def)
  have o: "off l < 2 ^ 63" using l n(1) by linarith
  have f: "0 < f" "f \<le> n" using pos n(1) by (auto simp: f_def)
  have g: "gb_get_buffer_pos b l 0 = (OB_SUCCESS, p)" "\<not> l < gb_start_lsn b"
    using gb_get_buffer_pos_eq [OF inv o, of 0] l(1) N(5) by (auto simp: p_def)
  obtain r1 w1 where p1: "wb_push_back al (gb_data_buf b + p) f w = (r1, w1)" by fastforce
  have u: "gb_get_log_buf al b l n w = (if r1 \<noteq> OB_SUCCESS then (r1, w1)
      else if n > f then wb_push_back al (gb_data_buf b) (n - f) w1 else (r1, w1))"
    using N g n(1) off_valid [OF o] p1
    by (simp add: gb_get_log_buf_def Let_def N_def [symmetric] f_def [symmetric])
  have r1: "r1 = OB_SUCCESS" using u wb(2) by (auto split: if_splits)
  have s1: "wb_inv w1 \<and> gather m (arr_list w1) = gather m (arr_list w) @ mem_read m \<lparr> buf_ptr = gb_data_buf b + p, buf_len = f \<rparr>"
    using wb_push_back_spec [OF wb(1) p1, of m] r1 f N(4) pos(1) by auto
  have s2: "wb_inv w' \<and> gather m (arr_list w') = gather m (arr_list w1) @ mem_read m \<lparr> buf_ptr = gb_data_buf b, buf_len = n - f \<rparr>"
  proof (cases "n > f")
    case True
    then show ?thesis using wb_push_back_spec [OF conjunct1 [OF s1], of al "gb_data_buf b" "n - f" OB_SUCCESS w' m]
        u wb(2) r1 N(4) by auto
  qed (use u wb(2) r1 s1 f in \<open>simp add: mem_read_def\<close>)
  have ld: "mem_read m \<lparr> buf_ptr = gb_data_buf b + int i, buf_len = int k \<rparr> = load (gb_mem b) i k"
    if "i + k \<le> length (gb_mem b)" for i k
    using that m by (intro nth_equalityI) (auto simp: mem_read_def nth_load add.assoc simp flip: of_nat_add)
  have "mem_read m \<lparr> buf_ptr = gb_data_buf b + p, buf_len = f \<rparr> = load (gb_mem b) (nat p) (nat f)"
    "mem_read m \<lparr> buf_ptr = gb_data_buf b, buf_len = n - f \<rparr> = load (gb_mem b) 0 (nat (n - f))"
    using ld [of "nat p" "nat f"] ld [of 0 "nat (n - f)"] pos f N n(2) by (auto simp: f_def N_def)
  then have "gather m (arr_list w') = gather m (arr_list w) @
      (load (gb_mem b) (nat p) (nat f) @ load (gb_mem b) 0 (nat (n - f)))" using s1 s2 by simp
  moreover have "load (gb_mem b) (nat p) (nat f) @ load (gb_mem b) 0 (nat (n - f)) = log_read M (off l) (nat n)"
    unfolding p_def using n l(1) f_def [unfolded N_def p_def] by (intro gb_ring_log(1) [OF inv]) (auto simp: off_le)
  ultimately show "wb_inv w' \<and> gather m (arr_list w') = gather m (arr_list w) @ log_read M (off l) (nat n)" using s2 by simp
  have l1: "arr_list w1 = arr_list w @ wb_pieces (gb_data_buf b + p) f"
    using wb_push_back_pieces [OF wb(1)] p1 r1 by simp
  have "arr_list w' = arr_list w1 @ wb_pieces (gb_data_buf b) (n - f)"
  proof (cases "n > f")
    case True
    then show ?thesis using wb_push_back_pieces [OF conjunct1 [OF s1]] u wb(2) r1 by simp
  qed (use u wb(2) r1 f in \<open>simp add: wb_pieces_small\<close>)
  then show "arr_list w' = arr_list w @ (let p = gb_pos b (off l); f = min (gb_reserved_buffer_size b - p) n in
      wb_pieces (gb_data_buf b + p) f @ wb_pieces (gb_data_buf b) (n - f))"
    using l1 by (simp add: Let_def p_def [symmetric] N_def [symmetric] f_def [symmetric])
qed

subsection \<open>Histories\<close>

text \<open>
  The steps a buffer takes, with the log it caches. Callers keep to the protocol of the sliding
  window: a fill is at or above \<^verbatim>\<open>reuse_lsn_\<close>, and \<^verbatim>\<open>reuse_lsn_\<close> is only raised over bytes that
  were filled (or are below \<^verbatim>\<open>readable_begin_lsn_\<close>, for log that came from disk). LSNs stay
  below \<open>2 ^ 63\<close>, the range of the code's \<^verbatim>\<open>int64_t\<close> differences. Truncation drops the log
  from its LSN on.
\<close>

inductive gb_step :: "LogGroupBuffer \<times> log_bytes \<Rightarrow> LogGroupBuffer \<times> log_bytes \<Rightarrow> bool" where
  fill: "gb_fill l (Some xs) (int (length xs)) b = (ret, b') \<Longrightarrow> xs \<noteq> [] \<Longrightarrow> gb_reuse_lsn b \<le> l \<Longrightarrow>
    off l + int (length xs) < 2 ^ 63 \<Longrightarrow>
    gb_step (b, M) (b', if ret = OB_SUCCESS then log_write M (off l) xs else M)"
| fill_padding: "gb_fill_padding_body l xs (int (length xs)) n b = (ret, b') \<Longrightarrow> 0 < n \<Longrightarrow> int (length xs) \<le> n \<Longrightarrow>
    gb_reuse_lsn b \<le> l \<Longrightarrow> off l + n < 2 ^ 63 \<Longrightarrow>
    gb_step (b, M) (b', if ret = OB_SUCCESS
      then log_write M (off l) (xs @ replicate (nat n - length xs) PADDING_LOG_CONTENT_CHAR) else M)"
| flush: "gb_inc_update_reuse_lsn l b = (ret, b') \<Longrightarrow> off l + gb_reserved_buffer_size b < 2 ^ 63 \<Longrightarrow>
    {max (off (gb_reuse_lsn b)) (off (gb_readable_begin_lsn b)) ..< off l} \<subseteq> dom M \<Longrightarrow> gb_step (b, M) (b', M)"
| raise: "gb_inc_update_readable_begin_lsn l b = (ret, b') \<Longrightarrow> off l < 2 ^ 63 \<Longrightarrow> gb_step (b, M) (b', M)"
| truncate: "gb_truncate l b = (ret, b') \<Longrightarrow> off l + gb_reserved_buffer_size b < 2 ^ 63 \<Longrightarrow>
    gb_step (b, M) (b', if ret = OB_SUCCESS then M |` {..< off l} else M)"

inductive gb_reach :: "LogGroupBuffer \<times> log_bytes \<Rightarrow> bool" where
  start: "gb_init ptr l b0 = (OB_SUCCESS, b) \<Longrightarrow> 0 < ptr \<Longrightarrow> off l + DEFAULT_GROUP_BUFFER_SIZE < 2 ^ 63 \<Longrightarrow>
    gb_reach (b, Map.empty)"
| step: "gb_reach s \<Longrightarrow> gb_step s t \<Longrightarrow> gb_reach t"

lemma gb_init_inv:
  assumes "gb_init ptr l b0 = (OB_SUCCESS, b)" "0 < ptr" "off l + DEFAULT_GROUP_BUFFER_SIZE < 2 ^ 63"
  shows "gb_inv b Map.empty"
proof -
  have "off l < 2 ^ 63" using assms(3) by (simp add: DEFAULT_GROUP_BUFFER_SIZE_def)
  with assms show ?thesis
    by (auto simp: gb_init_def gb_inv_def Let_def DEFAULT_GROUP_BUFFER_SIZE_def split: if_splits)
qed

lemma gb_raise_inv:
  assumes "gb_inv b M" "off l < 2 ^ 63"
  shows "gb_inv (b \<lparr> gb_readable_begin_lsn := max (gb_readable_begin_lsn b) l \<rparr>) M" (is "gb_inv ?b M")
proof -
  have p: "gb_pos ?b = gb_pos b" by (simp add: gb_pos_def fun_eq_iff)
  have m: "off (max (gb_readable_begin_lsn b) l) = max (off (gb_readable_begin_lsn b)) (off l)" by (rule off_max)
  have f: "{max (off (gb_readable_begin_lsn b)) (off l) ..< off (gb_reuse_lsn b)} \<subseteq> dom M"
    using assms(1) by (auto simp: gb_inv_def subset_iff)
  have d: "dom M \<subseteq> {off (gb_start_lsn b) ..< max (off (gb_readable_begin_lsn b)) (off l) + gb_reserved_buffer_size b}"
    using gb_inv_dom [OF assms(1)] by fastforce
  show ?thesis using assms f d unfolding gb_inv_def [of ?b] p by (simp add: gb_inv_def m le_max_iff_disj)
qed

lemma gb_flush_inv:
  assumes "gb_inv b M" "off l + gb_reserved_buffer_size b < 2 ^ 63"
    "{max (off (gb_reuse_lsn b)) (off (gb_readable_begin_lsn b)) ..< off l} \<subseteq> dom M"
  shows "gb_inv (b \<lparr> gb_reuse_lsn := max (gb_reuse_lsn b) l \<rparr>) M" (is "gb_inv ?b M")
proof -
  have p: "gb_pos ?b = gb_pos b" by (simp add: gb_pos_def fun_eq_iff)
  have m: "off (max (gb_reuse_lsn b) l) = max (off (gb_reuse_lsn b)) (off l)" by (rule off_max)
  have "x \<in> dom M" if "off (gb_readable_begin_lsn b) \<le> x" "x < max (off (gb_reuse_lsn b)) (off l)" for x
    using assms(1,3) that by (cases "x < off (gb_reuse_lsn b)") (auto simp: gb_inv_def subset_iff)
  then have f: "{off (gb_readable_begin_lsn b) ..< max (off (gb_reuse_lsn b)) (off l)} \<subseteq> dom M"
    by (intro subsetI) (metis atLeastLessThan_iff)
  have d: "dom M \<subseteq> {..< max (off (gb_reuse_lsn b)) (off l) + gb_reserved_buffer_size b}"
    using gb_inv_dom [OF assms(1)] by fastforce
  have "max (off (gb_reuse_lsn b)) (off l) + gb_reserved_buffer_size b < 2 ^ 63"
    using assms(1,2) by (auto simp: gb_inv_def)
  with assms(1) f d show ?thesis unfolding gb_inv_def [of ?b] p by (simp add: gb_inv_def m le_max_iff_disj)
qed

lemma gb_truncate_inv:
  assumes "gb_inv b M" "off l + gb_reserved_buffer_size b < 2 ^ 63" "gb_start_lsn b \<le> l"
  shows "gb_inv (b \<lparr> gb_readable_begin_lsn := max (gb_readable_begin_lsn b) l, gb_reuse_lsn := l \<rparr>) (M |` {..< off l})"
    (is "gb_inv ?b ?M")
proof -
  have p: "gb_pos ?b = gb_pos b" by (simp add: gb_pos_def fun_eq_iff)
  have m: "off (max (gb_readable_begin_lsn b) l) = max (off (gb_readable_begin_lsn b)) (off l)" by (rule off_max)
  have "0 < gb_reserved_buffer_size b" using assms(1) by (simp add: gb_inv_def)
  moreover have "dom ?M \<subseteq> {off (gb_start_lsn b) ..< max (off (gb_readable_begin_lsn b)) (off l) + gb_reserved_buffer_size b}"
    "dom ?M \<subseteq> {..< off l + gb_reserved_buffer_size b}"
    using gb_inv_dom [OF assms(1)] calculation by (fastforce simp: restrict_map_def split: if_splits)+
  ultimately show ?thesis using assms unfolding gb_inv_def [of ?b] p
    by (auto simp: gb_inv_def m le_max_iff_disj restrict_map_def off_le split: if_splits)
qed

lemma gb_step_inv:
  assumes "gb_step s t" "gb_inv (fst s) (snd s)"
  shows "gb_inv (fst t) (snd t)"
  using assms
proof cases
  case (fill l xs b ret b' M)
  with assms(2) have i: "gb_inv b M" by simp
  show ?thesis using fill gb_fill_eq [OF i fill(5,4,6)] gb_write_keeps [OF i _ fill(6)] i
    by (auto simp: off_le split: if_splits)
next
  case (fill_padding l xs n b ret b' M)
  with assms(2) have i: "gb_inv b M" by simp
  have n: "int (length (xs @ replicate (nat n - length xs) PADDING_LOG_CONTENT_CHAR)) = n"
    using fill_padding(5) by simp
  show ?thesis using fill_padding gb_fill_padding_body_eq [OF i fill_padding(6,4,7,5)]
      gb_write_keeps [OF i, of "off l" "xs @ replicate (nat n - length xs) PADDING_LOG_CONTENT_CHAR", unfolded n] i
    by (auto simp: off_le split: if_splits)
next
  case (flush l b ret b' M)
  then show ?thesis using gb_flush_inv [of b M l] assms(2)
    by (auto simp: gb_inc_update_reuse_lsn_def split: if_splits)
next
  case (raise l b ret b' M)
  then show ?thesis using gb_raise_inv [of b M l] assms(2)
    by (auto simp: gb_inc_update_readable_begin_lsn_def gb_inc_update_readable_def split: if_splits)
next
  case (truncate l b ret b' M)
  then show ?thesis using gb_truncate_inv [of b M l] assms(2)
    by (auto simp: gb_truncate_def gb_inc_update_readable_def split: if_splits)
qed

lemma gb_reach_inv: "gb_reach s \<Longrightarrow> gb_inv (fst s) (snd s)"
  by (induction rule: gb_reach.induct) (auto intro: gb_init_inv gb_step_inv)

subsection \<open>Properties\<close>

text \<open>
  C5. Over every history of fills, paddings, flushes, raises and truncations a read serves
  exactly the log: it answers \<^verbatim>\<open>OB_ERR_OUT_OF_LOWER_BOUND\<close> below \<^verbatim>\<open>readable_begin_lsn_\<close>, nothing from
  \<^verbatim>\<open>reuse_lsn_\<close> on, and in between the bytes last filled at the requested offsets, as many as were
  asked for and are flushed, although the ring has been overwritten any number of times.
\<close>

theorem gb_reads_the_log:
  assumes "gb_reach (b, M)" "off l < 2 ^ 63" "0 < n" "n \<le> int (length d)"
  shows "gb_read_data b l n (Some d) out =
    (if l < gb_readable_begin_lsn b then (OB_ERR_OUT_OF_LOWER_BOUND, Some d, out)
     else if gb_reuse_lsn b \<le> l then (OB_SUCCESS, Some d, out)
     else let k = min (off (gb_reuse_lsn b) - off l) n in
       (OB_SUCCESS, Some (store d 0 (log_read M (off l) (nat k))), k))"
  using gb_read_data_eq [of b M] gb_reach_inv [OF assms(1)] assms(2-4) by simp

definition gb_zero :: LogGroupBuffer where
  "gb_zero = \<lparr> gb_start_lsn = lsn_reset, gb_reuse_lsn = lsn_reset, gb_readable_begin_lsn = lsn_reset,
     gb_reserved_buffer_size = 0, gb_available_buffer_size = 0, gb_data_buf = 0, gb_mem = [], gb_is_inited = False \<rparr>"

definition gb_example :: LogGroupBuffer where
  "gb_example = (gb_write 0 [1, 2, 3] (snd (gb_init 4096 (LSN 0) gb_zero))) \<lparr> gb_reuse_lsn := LSN 3 \<rparr>"

lemma gb_example_init:
  "gb_init 4096 (LSN 0) gb_zero = (OB_SUCCESS, snd (gb_init 4096 (LSN 0) gb_zero))"
  "gb_reserved_buffer_size (snd (gb_init 4096 (LSN 0) gb_zero)) = 4194304"
  "gb_available_buffer_size (snd (gb_init 4096 (LSN 0) gb_zero)) = 4194304"
  "gb_reuse_lsn (snd (gb_init 4096 (LSN 0) gb_zero)) = LSN 0"
  "gb_readable_begin_lsn (snd (gb_init 4096 (LSN 0) gb_zero)) = LSN 0"
  "gb_start_lsn (snd (gb_init 4096 (LSN 0) gb_zero)) = LSN 0"
  by (simp_all add: gb_init_def gb_zero_def Let_def lsn_is_valid_def LOG_INVALID_LSN_VAL_def DEFAULT_GROUP_BUFFER_SIZE_def)

lemma gb_example_fields:
  "gb_readable_begin_lsn gb_example = LSN 0" "gb_reuse_lsn gb_example = LSN 3"
  "gb_reserved_buffer_size gb_example = 4194304" "gb_available_buffer_size gb_example = 4194304"
  by (simp_all add: gb_example_def gb_write_def gb_example_init(2-))

lemma gb_example_reach: "gb_reach (gb_example, log_write Map.empty 0 [1, 2, 3])"
proof -
  let ?b0 = "snd (gb_init 4096 (LSN 0) gb_zero)" and ?M = "log_write Map.empty 0 [1, 2, 3]"
  have o: "off (LSN 0) = 0" "off (LSN 3) = 3" by (simp_all add: off_def)
  have r0: "gb_reach (?b0, Map.empty)"
    using gb_example_init(1) by (rule gb_reach.start) (simp_all add: o DEFAULT_GROUP_BUFFER_SIZE_def)
  have "gb_fill (LSN 0) (Some [1, 2, 3]) (int (length [1, 2, 3 :: byte])) ?b0 = (OB_SUCCESS, gb_write 0 [1, 2, 3] ?b0)"
    using gb_fill_eq [OF gb_reach_inv [OF r0, simplified], of "LSN 0" "[1, 2, 3]"] by (simp add: gb_example_init(2-) o)
  then have "gb_step (?b0, Map.empty) (gb_write 0 [1, 2, 3] ?b0, if OB_SUCCESS = OB_SUCCESS then log_write Map.empty (off (LSN 0)) [1, 2, 3] else Map.empty)"
    by (rule gb_step.fill) (simp_all add: gb_example_init(2-) o)
  then have r1: "gb_reach (gb_write 0 [1, 2, 3] ?b0, ?M)" using r0 gb_reach.step by (simp add: o)
  have "gb_inc_update_reuse_lsn (LSN 3) (gb_write 0 [1, 2, 3] ?b0) = (OB_SUCCESS, gb_example)"
    by (simp add: gb_inc_update_reuse_lsn_def gb_example_def gb_write_def gb_example_init(2-) lsn_is_valid_def
        LOG_INVALID_LSN_VAL_def max_def lsn_less_eq_iff)
  then have "gb_step (gb_write 0 [1, 2, 3] ?b0, ?M) (gb_example, ?M)"
    by (rule gb_step.flush) (auto simp: gb_write_def gb_example_init(2-) o log_write_def off_def)
  with r1 show ?thesis by (rule gb_reach.step)
qed

theorem gb_reads_the_log_witness:
  "gb_reach (gb_example, log_write Map.empty 0 [1, 2, 3])
   \<and> gb_read_data gb_example (LSN 1) 9 (Some (replicate 9 0)) 7 = (OB_SUCCESS, Some [2, 3, 0, 0, 0, 0, 0, 0, 0], 2)"
proof -
  have o: "off (LSN 0) = 0" "off (LSN 1) = 1" "off (LSN 3) = 3" by (simp_all add: off_def)
  have "gb_read_data gb_example (LSN 1) 9 (Some (replicate 9 0)) 7 = (OB_SUCCESS,
      Some (store (replicate 9 0) 0 (log_read (log_write Map.empty 0 [1, 2, 3]) 1 2)), 2)"
    using gb_reads_the_log [OF gb_example_reach, of "LSN 1" 9 "replicate 9 0" 7]
    by (simp add: gb_example_fields o off_less off_le Let_def)
  then show ?thesis using gb_example_reach by (simp add: store_def log_read_def log_write_def upt_rec numeral_eq_Suc)
qed



text \<open>
  C21. A fill that is refused with \<^verbatim>\<open>OB_EAGAIN\<close> succeeds once \<^verbatim>\<open>reuse_lsn_\<close> has been raised to
  within \<^verbatim>\<open>available_buffer_size_\<close> of its end, provided it fits into the buffer at all.
\<close>

theorem gb_fill_progress:
  assumes "gb_inv b M" "gb_reuse_lsn b \<le> l" "xs \<noteq> []" "off l + int (length xs) < 2 ^ 63"
    and "int (length xs) \<le> gb_available_buffer_size b" "off l + gb_reserved_buffer_size b < 2 ^ 63"
    and "off r = max (off (gb_reuse_lsn b)) (off l + int (length xs) - gb_available_buffer_size b)"
    and "{max (off (gb_reuse_lsn b)) (off (gb_readable_begin_lsn b)) ..< off r} \<subseteq> dom M"
  shows "\<exists>b1 b2. gb_inc_update_reuse_lsn r b = (OB_SUCCESS, b1) \<and> gb_inv b1 M
    \<and> gb_fill l (Some xs) (int (length xs)) b1 = (OB_SUCCESS, b2) \<and> gb_inv b2 (log_write M (off l) xs)"
proof -
  define b1 where "b1 = b \<lparr> gb_reuse_lsn := max (gb_reuse_lsn b) r \<rparr>"
  have rl: "off r \<le> off l" "off r + gb_reserved_buffer_size b < 2 ^ 63" "off r < 2 ^ 63"
    using assms(1,2,5-7) by (auto simp: off_le gb_inv_def)
  have i: "gb_inv b1 M" unfolding b1_def by (rule gb_flush_inv [OF assms(1) rl(2) assms(8)])
  have m: "off (max (gb_reuse_lsn b) r) = off r" using assms(7) by (simp add: off_max)
  have u: "gb_inc_update_reuse_lsn r b = (OB_SUCCESS, b1)"
    using off_valid [OF rl(3)] by (simp add: gb_inc_update_reuse_lsn_def b1_def)
  have l: "gb_reuse_lsn b1 \<le> l" using rl by (simp add: b1_def off_le m)
  have e: "off l + int (length xs) \<le> off (gb_reuse_lsn b1) + gb_available_buffer_size b1"
    using assms(7) by (simp add: b1_def m)
  from e show ?thesis
    using u i gb_fill_eq [OF i l assms(3,4)] gb_write_keeps [OF i _ assms(4) e] l by (auto simp: off_le)
qed

text \<open>Three filled bytes; a byte that does not fit before they are flushed.\<close>

theorem gb_fill_progress_witness:
  "let b = gb_write 0 [1, 2, 3] (snd (gb_init 4096 (LSN 0) gb_zero)) in
   gb_fill (LSN 4194306) (Some [4]) 1 b = (OB_EAGAIN, b)
   \<and> (\<exists>b1 b2. gb_inc_update_reuse_lsn (LSN 3) b = (OB_SUCCESS, b1) \<and> gb_reuse_lsn b1 = LSN 3
      \<and> gb_fill (LSN 4194306) (Some [4]) 1 b1 = (OB_SUCCESS, b2))"
proof -
  let ?init = "snd (gb_init 4096 (LSN 0) gb_zero)"
  let ?b = "gb_write 0 [1, 2, 3] ?init" and ?M = "log_write Map.empty 0 [1, 2, 3]"
  have o: "off (LSN 3) = 3" "off (LSN 0) = 0" "off (LSN 4194306) = 4194306" by (simp_all add: off_def)
  have r0: "gb_reach (?init, Map.empty)"
    using gb_example_init(1) by (rule gb_reach.start) (simp_all add: o DEFAULT_GROUP_BUFFER_SIZE_def)
  have i: "gb_inv ?b ?M"
    using gb_write_keeps [OF gb_reach_inv [OF r0, simplified], of 0 "[1, 2, 3]"] by (simp add: gb_example_init(2-) o)
  have f: "gb_reuse_lsn ?b = LSN 0" "gb_available_buffer_size ?b = 4194304" "gb_reserved_buffer_size ?b = 4194304"
    "gb_readable_begin_lsn ?b = LSN 0" "gb_start_lsn ?b = LSN 0"
    by (simp_all add: gb_write_def gb_example_init(2-))
  have d: "{0 ..< 3} \<subseteq> dom ?M" by (auto simp: log_write_def)
  have e: "gb_fill (LSN 4194306) (Some [4]) 1 ?b = (OB_EAGAIN, ?b)"
    using gb_fill_eq [OF i, of "LSN 4194306" "[4]"] by (simp add: f o off_le)
  obtain b1 b2 where b: "gb_inc_update_reuse_lsn (LSN 3) ?b = (OB_SUCCESS, b1)" "gb_fill (LSN 4194306) (Some [4]) 1 b1 = (OB_SUCCESS, b2)"
    using gb_fill_progress [OF i, of "LSN 4194306" "[4]" "LSN 3"] d by (auto simp: f o off_le)
  have "gb_reuse_lsn b1 = LSN 3"
    using b(1) by (auto simp: gb_inc_update_reuse_lsn_def f max_def off_le o split: if_splits)
  then show ?thesis using e b by (auto simp: Let_def)
qed

text \<open>
  C23. The scatter list that \<^verbatim>\<open>get_log_buf\<close> hands to the writer covers exactly the requested log:
  gathering it from memory gives the bytes filled at these offsets. The ranges it adds are the part up to
  the end of the ring and, where the ring wraps, the part at its beginning; each of the two is one
  range unless it is longer than \<^verbatim>\<open>MAX_LOG_BUFFER_SIZE\<close>, in which case \<^verbatim>\<open>push_back\<close> cuts it into
  pieces of that size. A request of at most \<^verbatim>\<open>MAX_LOG_BUFFER_SIZE\<close> bytes, such as a group log, therefore
  gives one range, or two exactly when it wraps.
\<close>

theorem gb_log_buf_gathers_log:
  assumes "gb_inv b M" "gb_readable_begin_lsn b \<le> l" "off l + n < 2 ^ 63"
    and "0 < n" "n \<le> gb_reserved_buffer_size b" "{off l ..< off l + n} \<subseteq> dom M"
    and "\<And>i. i < length (gb_mem b) \<Longrightarrow> m (gb_data_buf b + int i) = gb_mem b ! i"
    and "wb_inv w" "gb_get_log_buf al b l n w = (OB_SUCCESS, w')"
  defines "p \<equiv> gb_pos b (off l)"
  defines "f \<equiv> min (gb_reserved_buffer_size b - p) n"
  shows "wb_inv w' \<and> gather m (arr_list w') = gather m (arr_list w) @ log_read M (off l) (nat n)
    \<and> arr_list w' = arr_list w @ wb_pieces (gb_data_buf b + p) f @ wb_pieces (gb_data_buf b) (n - f)
    \<and> (n \<le> MAX_LOG_BUFFER_SIZE \<longrightarrow> arr_list w' = arr_list w @ \<lparr> buf_ptr = gb_data_buf b + p, buf_len = f \<rparr>
         # (if p + n \<le> gb_reserved_buffer_size b then [] else [\<lparr> buf_ptr = gb_data_buf b, buf_len = n - f \<rparr>]))"
proof -
  have f: "0 < f" "f \<le> n" "n - f \<le> 0 \<longleftrightarrow> p + n \<le> gb_reserved_buffer_size b"
    using assms(4) gb_pos_range [OF assms(1), of "off l"] by (auto simp: f_def p_def)
  have ps: "arr_list w' = arr_list w @ wb_pieces (gb_data_buf b + p) f @ wb_pieces (gb_data_buf b) (n - f)"
    using gb_get_log_buf_eq(2) [OF assms(1-9)] by (simp add: Let_def f_def p_def)
  moreover have "wb_pieces (gb_data_buf b + p) f = [\<lparr> buf_ptr = gb_data_buf b + p, buf_len = f \<rparr>]"
    "wb_pieces (gb_data_buf b) (n - f)
      = (if p + n \<le> gb_reserved_buffer_size b then [] else [\<lparr> buf_ptr = gb_data_buf b, buf_len = n - f \<rparr>])"
    if "n \<le> MAX_LOG_BUFFER_SIZE"
    using that f by (auto intro!: wb_pieces_small)
  ultimately show ?thesis using gb_get_log_buf_eq(1) [OF assms(1-9)] by simp
qed

theorem gb_log_buf_gathers_log_witness:
  "\<exists>w'. gb_get_log_buf (\<lambda>n. None) gb_example (LSN 1) 2 (wb_of []) = (OB_SUCCESS, w')
     \<and> gather (\<lambda>a. gb_mem gb_example ! nat (a - 4096)) (arr_list w') = [2, 3]
     \<and> arr_list w' = [\<lparr> buf_ptr = 4097, buf_len = 2 \<rparr>]"
proof -
  note i = gb_reach_inv [OF gb_example_reach, simplified]
  have o: "off (LSN 0) = 0" "off (LSN 1) = 1" by (simp_all add: off_def)
  have w: "wb_inv (wb_of [])" "arr_list (wb_of []) = []" by (simp_all add: wb_of_simps)
  have b: "gb_data_buf gb_example = 4096" "gb_start_lsn gb_example = LSN 0" "gb_is_inited gb_example"
    by (simp_all add: gb_example_def gb_write_def gb_init_def gb_zero_def Let_def lsn_is_valid_def LOG_INVALID_LSN_VAL_def)
  have d: "{1 ..< 3} \<subseteq> dom (log_write Map.empty 0 [1, 2, 3])" by (auto simp: log_write_def)
  have r: "log_read (log_write Map.empty 0 [1, 2, 3]) 1 2 = [2, 3]"
    by (simp add: log_read_def log_write_def upt_rec numeral_eq_Suc)
  obtain r w' where p: "wb_push_back (\<lambda>n. None) 4097 2 (wb_of []) = (r, w')" by fastforce
  moreover have "fst (wb_push_back (\<lambda>n. None) 4097 2 (wb_of [])) = OB_SUCCESS"
    by (simp add: wb_push_back_def wb_push_loop.simps wb_of_simps)
  ultimately have "gb_get_log_buf (\<lambda>n. None) gb_example (LSN 1) 2 (wb_of []) = (OB_SUCCESS, w')"
    using gb_get_buffer_pos_eq [OF i, of "LSN 1" 0] off_valid [of "LSN 1"]
    by (simp add: gb_get_log_buf_def b gb_example_fields o off_less gb_pos_def)
  moreover from this have "gather (\<lambda>a. gb_mem gb_example ! nat (a - 4096)) (arr_list w') = [2, 3]
      \<and> arr_list w' = [\<lparr> buf_ptr = 4097, buf_len = 2 \<rparr>]"
    using gb_log_buf_gathers_log [OF i _ _ _ _ _ _ w(1), of "LSN 1" 2 "\<lambda>a. gb_mem gb_example ! nat (a - 4096)" "\<lambda>n. None" w']
      d r by (auto simp: w(2) gb_example_fields o off_le b gb_pos_def palf_consts wb_pieces_small)
  ultimately show ?thesis by blast
qed

end
