(* ===== verification/Palf_Group_Buffer_Conc.thy ===== *)
theory Palf_Group_Buffer_Conc
  imports Palf_Group_Buffer
begin

section \<open>A reader among writers of the group buffer\<close>

text \<open>
  \<^verbatim>\<open>fill\<close> and \<^verbatim>\<open>read_data\<close> run without a common lock. A writer tests its range against
  \<^verbatim>\<open>reuse_lsn_\<close>, raises \<^verbatim>\<open>readable_begin_lsn_\<close>, and then copies; a reader loads \<^verbatim>\<open>reuse_lsn_\<close> and
  \<^verbatim>\<open>readable_begin_lsn_\<close>, copies, and loads \<^verbatim>\<open>readable_begin_lsn_\<close> again. Here each load, raise and
  copied byte is one step, and the steps of one reader and any number of writers interleave
  freely (sequentially consistent, as the \<^verbatim>\<open>ATOMIC_LOAD\<close> and \<^verbatim>\<open>ATOMIC_VCAS\<close> of the code are).

  \<open>L\<close> is the content of the log. Writers own disjoint ranges, handed out consecutively as
  \<^verbatim>\<open>LSNAllocator\<close> does (\<open>gc_end\<close>); \<open>gc_filled\<close> records the offsets copied so far, and
  \<^verbatim>\<open>reuse_lsn_\<close> is raised over copied offsets only. Truncation excludes the reader by
  \<^verbatim>\<open>truncate_lock_\<close> and is not a step here.
\<close>

datatype writer_pc =
    WIdle
  | WHas int nat
  | WTested int nat
  | WCopying int nat nat

datatype reader_pc =
    RIdle
  | RLoaded int int int
  | RCopying int nat "byte list"
  | RDone int "byte list"
  | RFailed

record gc_state =
  gc_buf :: LogGroupBuffer
  gc_end :: int
  gc_filled :: "int list"
  gc_writer :: "nat \<Rightarrow> writer_pc"
  gc_reader :: reader_pc

datatype gc_event =
    WAlloc nat nat
  | WTest nat
  | WRaise nat
  | WCopy nat
  | Flush int
  | RLoad int int
  | RTest
  | RCopy
  | RCheck

text \<open>The offset \<open>x\<close> as an LSN.\<close>

definition lsn_at :: "int \<Rightarrow> LSN" where "lsn_at x = LSN (word_of_int x)"

text \<open>
  \<^verbatim>\<open>fill\<close>: the range is known; the guards; the raise; the copy, byte by byte in ascending order
  (\<^verbatim>\<open>memcpy\<close> specifies none; one is fixed here). A writer whose guards do not pass tries again.
\<close>

definition gc_test :: "LogGroupBuffer \<Rightarrow> int \<Rightarrow> nat \<Rightarrow> bool" where
  "gc_test b x n \<longleftrightarrow> \<not> lsn_lt (lsn_at x) (gb_start_lsn b) \<and> \<not> lsn_le (lsn_add (lsn_at x) (int n)) (gb_reuse_lsn b)
     \<and> \<not> lsn_gt (lsn_add (lsn_at x) (int n)) (lsn_add (gb_reuse_lsn b) (gb_available_buffer_size b))"

definition gc_put :: "LogGroupBuffer \<Rightarrow> int \<Rightarrow> byte \<Rightarrow> LogGroupBuffer" where
  "gc_put b x v = b \<lparr> gb_mem := (gb_mem b)[nat (snd (gb_get_buffer_pos b (lsn_at x) 0)) := v] \<rparr>"

definition gc_get :: "LogGroupBuffer \<Rightarrow> int \<Rightarrow> byte" where
  "gc_get b x = gb_mem b ! nat (snd (gb_get_buffer_pos b (lsn_at x) 0))"

fun gc_write :: "(int \<Rightarrow> byte) \<Rightarrow> gc_event \<Rightarrow> gc_state \<Rightarrow> gc_state option" where
  "gc_write L (WAlloc i n) s =
     (case gc_writer s i of
        WIdle \<Rightarrow> if 0 < n \<and> gc_end s + int n < 2 ^ 62
          then Some (s \<lparr> gc_writer := (gc_writer s)(i := WHas (gc_end s) n), gc_end := gc_end s + int n \<rparr>) else None
      | _ \<Rightarrow> None)"
| "gc_write L (WTest i) s =
     (case gc_writer s i of
        WHas x n \<Rightarrow> if gc_test (gc_buf s) x n
          then Some (s \<lparr> gc_writer := (gc_writer s)(i := WTested x n) \<rparr>) else Some s
      | _ \<Rightarrow> None)"
| "gc_write L (WRaise i) s =
     (case gc_writer s i of
        WTested x n \<Rightarrow> Some (s \<lparr> gc_writer := (gc_writer s)(i := WCopying x n 0),
          gc_buf := gb_inc_update_readable
            (gb_gen_readable_begin_lsn_for_filling (gc_buf s) (lsn_add (lsn_at x) (int n))) (gc_buf s) \<rparr>)
      | _ \<Rightarrow> None)"
| "gc_write L (WCopy i) s =
     (case gc_writer s i of
        WCopying x n k \<Rightarrow> if k < n
          then Some (s \<lparr> gc_writer := (gc_writer s)(i := WCopying x n (Suc k)),
                 gc_buf := gc_put (gc_buf s) (x + int k) (L (x + int k)),
                 gc_filled := (x + int k) # gc_filled s \<rparr>)
          else Some (s \<lparr> gc_writer := (gc_writer s)(i := WIdle) \<rparr>)
      | _ \<Rightarrow> None)"
| "gc_write L (Flush y) s =
     (if off (gb_reuse_lsn (gc_buf s)) \<le> y \<and> y \<le> gc_end s
         \<and> list_all (\<lambda>z. z \<in> set (gc_filled s)) [off (gb_reuse_lsn (gc_buf s)) .. y - 1]
      then Some (s \<lparr> gc_buf := snd (gb_inc_update_reuse_lsn (lsn_at y) (gc_buf s)) \<rparr>) else None)"
| "gc_write L _ s = None"

text \<open>\<^verbatim>\<open>read_data\<close>: the two loads with their tests, the copy, and the double check.\<close>

fun gc_read :: "gc_event \<Rightarrow> gc_state \<Rightarrow> gc_state option" where
  "gc_read (RLoad x n) s =
     (if gc_reader s = RIdle \<and> off (gb_start_lsn (gc_buf s)) \<le> x \<and> x < 2 ^ 62 \<and> 0 < n
      then Some (s \<lparr> gc_reader := RLoaded x n (off (gb_reuse_lsn (gc_buf s))) \<rparr>) else None)"
| "gc_read RTest s =
     (case gc_reader s of
        RLoaded x n reuse \<Rightarrow>
          if lsn_lt (lsn_at x) (gb_readable_begin_lsn (gc_buf s)) then Some (s \<lparr> gc_reader := RFailed \<rparr>)
          else if reuse > x then Some (s \<lparr> gc_reader := RCopying x (nat (min (reuse - x) n)) [] \<rparr>)
          else Some (s \<lparr> gc_reader := RDone x [] \<rparr>)
      | _ \<Rightarrow> None)"
| "gc_read RCopy s =
     (case gc_reader s of
        RCopying x n bs \<Rightarrow> if length bs < n
          then Some (s \<lparr> gc_reader := RCopying x n (bs @ [gc_get (gc_buf s) (x + int (length bs))]) \<rparr>) else None
      | _ \<Rightarrow> None)"
| "gc_read RCheck s =
     (case gc_reader s of
        RCopying x n bs \<Rightarrow> if length bs = n
          then Some (s \<lparr> gc_reader := (if lsn_gt (gb_readable_begin_lsn (gc_buf s)) (lsn_at x) then RFailed else RDone x bs) \<rparr>)
          else None
      | _ \<Rightarrow> None)"
| "gc_read _ s = None"

definition gc_next :: "(int \<Rightarrow> byte) \<Rightarrow> gc_event \<Rightarrow> gc_state \<Rightarrow> gc_state option" where
  "gc_next L e s = (case gc_write L e s of Some t \<Rightarrow> Some t | None \<Rightarrow> gc_read e s)"

definition gc_start :: "LogGroupBuffer \<Rightarrow> gc_state" where
  "gc_start b = \<lparr> gc_buf = b, gc_end = off (gb_start_lsn b), gc_filled = [], gc_writer = (\<lambda>_. WIdle), gc_reader = RIdle \<rparr>"

fun gc_run :: "(int \<Rightarrow> byte) \<Rightarrow> gc_event list \<Rightarrow> gc_state \<Rightarrow> gc_state option" where
  "gc_run L [] s = Some s"
| "gc_run L (e # es) s = (case gc_next L e s of None \<Rightarrow> None | Some t \<Rightarrow> gc_run L es t)"

subsection \<open>Invariant\<close>

fun uncopied :: "writer_pc \<Rightarrow> int set" where
  "uncopied WIdle = {}"
| "uncopied (WHas x n) = {x ..< x + int n}"
| "uncopied (WTested x n) = {x ..< x + int n}"
| "uncopied (WCopying x n k) = {x + int k ..< x + int n}"

text \<open>What a writer relies on at each point: with \<open>r\<close> the reuse offset, \<open>a\<close> the available and
  \<open>N\<close> the reserved size and \<open>rb\<close> the readable begin.\<close>

fun writer_ok :: "int \<Rightarrow> int \<Rightarrow> int \<Rightarrow> int \<Rightarrow> int \<Rightarrow> writer_pc \<Rightarrow> bool" where
  "writer_ok r a N rb e WIdle = True"
| "writer_ok r a N rb e (WHas x n) = (0 \<le> x \<and> x + int n \<le> e)"
| "writer_ok r a N rb e (WTested x n) = (0 \<le> x \<and> x + int n \<le> e \<and> x + int n \<le> r + a)"
| "writer_ok r a N rb e (WCopying x n k) =
     (0 \<le> x \<and> k \<le> n \<and> x + int n \<le> e \<and> x + int n \<le> r + a \<and> x + int n \<le> rb + N)"

fun reader_ok :: "(int \<Rightarrow> byte) \<Rightarrow> int \<Rightarrow> int \<Rightarrow> int \<Rightarrow> reader_pc \<Rightarrow> bool" where
  "reader_ok L st r rb RIdle = True"
| "reader_ok L st r rb (RLoaded x n reuse) = (st \<le> x \<and> x < 2 ^ 62 \<and> reuse \<le> r)"
| "reader_ok L st r rb (RCopying x n bs) =
     (st \<le> x \<and> x < 2 ^ 62 \<and> length bs \<le> n \<and> x + int n \<le> r \<and> (rb \<le> x \<longrightarrow> bs = map (\<lambda>j. L (x + int j)) [0..<length bs]))"
| "reader_ok L st r rb (RDone x bs) = (bs = map (\<lambda>j. L (x + int j)) [0..<length bs])"
| "reader_ok L st r rb RFailed = True"

definition gc_inv :: "(int \<Rightarrow> byte) \<Rightarrow> gc_state \<Rightarrow> bool" where
  "gc_inv L s \<longleftrightarrow>
     (let b = gc_buf s; r = off (gb_reuse_lsn b); a = gb_available_buffer_size b; N = gb_reserved_buffer_size b;
          rb = off (gb_readable_begin_lsn b); F = set (gc_filled s) in
      gb_is_inited b \<and> 0 < N \<and> int (length (gb_mem b)) = N \<and> N < 2 ^ 62 \<and> 0 \<le> a \<and> a \<le> N
      \<and> off (gb_start_lsn b) \<le> rb \<and> rb \<le> r \<and> r \<le> gc_end s \<and> gc_end s < 2 ^ 62
      \<and> F \<subseteq> {off (gb_start_lsn b) ..< gc_end s} \<and> F \<subseteq> {..< r + a} \<and> {rb ..< r} \<subseteq> F
      \<and> (\<forall>x\<in>F. rb \<le> x \<longrightarrow> gb_mem b ! nat (gb_pos b x) = L x)
      \<and> (\<forall>i. uncopied (gc_writer s i) \<subseteq> {r ..} \<and> uncopied (gc_writer s i) \<inter> F = {}
          \<and> writer_ok r a N rb (gc_end s) (gc_writer s i))
      \<and> (\<forall>i j. i \<noteq> j \<longrightarrow> uncopied (gc_writer s i) \<inter> uncopied (gc_writer s j) = {})
      \<and> reader_ok L (off (gb_start_lsn b)) r rb (gc_reader s))"

lemma off_at: "0 \<le> x \<Longrightarrow> x < 2 ^ 63 \<Longrightarrow> off (lsn_at x) = x"
  by (simp add: lsn_at_def off_LSN)

lemma gc_pos:
  assumes "gb_is_inited b" "0 < gb_reserved_buffer_size b" "off (gb_start_lsn b) \<le> x" "x < 2 ^ 63"
  shows "snd (gb_get_buffer_pos b (lsn_at x) sp) = gb_pos b x"
proof -
  have "0 \<le> x" using assms(3) off_nonneg [of "gb_start_lsn b"] by linarith
  with assms(4) have x: "off (lsn_at x) = x" by (intro off_at)
  with assms show ?thesis using off_diff [of "gb_start_lsn b" "lsn_at x"] off_valid [of "lsn_at x"]
    by (simp add: gb_get_buffer_pos_def Let_def off_less gb_pos_def smod_pos)
qed

lemma gb_pos_inj:
  assumes "0 < gb_reserved_buffer_size b" "gb_pos b y = gb_pos b z"
    "z < y + gb_reserved_buffer_size b" "y < z + gb_reserved_buffer_size b"
  shows "y = z"
proof -
  have "(y - z) mod gb_reserved_buffer_size b = 0"
    using assms(2) ring_pos_diff [of y "off (gb_start_lsn b)" "gb_reserved_buffer_size b" z] by (simp add: gb_pos_def)
  moreover have "(y - z) mod gb_reserved_buffer_size b = (if z \<le> y then y - z else y - z + gb_reserved_buffer_size b)"
    using assms(3,4) by (auto simp: mod_wrap)
  ultimately show ?thesis using assms(3) by (auto split: if_splits)
qed

text \<open>The buffer fields that a step of the protocol leaves alone.\<close>

lemma gc_put_fields [simp]:
  "gb_is_inited (gc_put b x v) = gb_is_inited b" "gb_start_lsn (gc_put b x v) = gb_start_lsn b"
  "gb_reuse_lsn (gc_put b x v) = gb_reuse_lsn b" "gb_readable_begin_lsn (gc_put b x v) = gb_readable_begin_lsn b"
  "gb_reserved_buffer_size (gc_put b x v) = gb_reserved_buffer_size b"
  "gb_available_buffer_size (gc_put b x v) = gb_available_buffer_size b"
  "length (gb_mem (gc_put b x v)) = length (gb_mem b)" "gb_pos (gc_put b x v) = gb_pos b"
  by (simp_all add: gc_put_def gb_pos_def fun_eq_iff)

lemma gc_put_nth:
  assumes "gb_is_inited b" "0 < gb_reserved_buffer_size b" "int (length (gb_mem b)) = gb_reserved_buffer_size b"
    "off (gb_start_lsn b) \<le> y" "y < 2 ^ 63" "z < y + gb_reserved_buffer_size b" "y < z + gb_reserved_buffer_size b"
  shows "gb_mem (gc_put b y v) ! nat (gb_pos b z) = (if z = y then v else gb_mem b ! nat (gb_pos b z))"
proof -
  have p: "0 \<le> gb_pos b u" "gb_pos b u < gb_reserved_buffer_size b" for u using assms(2) by (simp_all add: gb_pos_def)
  have "nat (gb_pos b y) = nat (gb_pos b z) \<longleftrightarrow> z = y"
    using gb_pos_inj [of b y z] assms p by (auto simp: eq_nat_nat_iff)
  then show ?thesis using assms p [of y] by (simp add: gc_put_def gc_pos nth_list_update nat_less_iff)
qed

text \<open>\<open>gc_inv\<close> as facts about named quantities, and back.\<close>

definition gc_ring_ok :: "(int \<Rightarrow> byte) \<Rightarrow> LogGroupBuffer \<Rightarrow> int \<Rightarrow> int set \<Rightarrow> bool" where
  "gc_ring_ok L b e F \<longleftrightarrow>
     gb_is_inited b \<and> 0 < gb_reserved_buffer_size b \<and> int (length (gb_mem b)) = gb_reserved_buffer_size b
     \<and> gb_reserved_buffer_size b < 2 ^ 62 \<and> 0 \<le> gb_available_buffer_size b
     \<and> gb_available_buffer_size b \<le> gb_reserved_buffer_size b
     \<and> off (gb_start_lsn b) \<le> off (gb_readable_begin_lsn b)
     \<and> off (gb_readable_begin_lsn b) \<le> off (gb_reuse_lsn b) \<and> off (gb_reuse_lsn b) \<le> e \<and> e < 2 ^ 62
     \<and> F \<subseteq> {off (gb_start_lsn b) ..< e} \<and> F \<subseteq> {..< off (gb_reuse_lsn b) + gb_available_buffer_size b}
     \<and> {off (gb_readable_begin_lsn b) ..< off (gb_reuse_lsn b)} \<subseteq> F
     \<and> (\<forall>x\<in>F. off (gb_readable_begin_lsn b) \<le> x \<longrightarrow> gb_mem b ! nat (gb_pos b x) = L x)"

definition gc_writers_ok :: "LogGroupBuffer \<Rightarrow> int \<Rightarrow> int set \<Rightarrow> (nat \<Rightarrow> writer_pc) \<Rightarrow> bool" where
  "gc_writers_ok b e F w \<longleftrightarrow>
     (\<forall>i. uncopied (w i) \<subseteq> {off (gb_reuse_lsn b) ..} \<and> uncopied (w i) \<inter> F = {}
        \<and> writer_ok (off (gb_reuse_lsn b)) (gb_available_buffer_size b) (gb_reserved_buffer_size b)
            (off (gb_readable_begin_lsn b)) e (w i))
     \<and> (\<forall>i j. i \<noteq> j \<longrightarrow> uncopied (w i) \<inter> uncopied (w j) = {})"

lemma gc_inv_split:
  "gc_inv L s \<longleftrightarrow> gc_ring_ok L (gc_buf s) (gc_end s) (set (gc_filled s))
     \<and> gc_writers_ok (gc_buf s) (gc_end s) (set (gc_filled s)) (gc_writer s)
     \<and> reader_ok L (off (gb_start_lsn (gc_buf s))) (off (gb_reuse_lsn (gc_buf s)))
         (off (gb_readable_begin_lsn (gc_buf s))) (gc_reader s)"
  unfolding gc_inv_def gc_ring_ok_def gc_writers_ok_def Let_def by blast

lemma writer_ok_mono:
  "writer_ok r a N rb e w \<Longrightarrow> r \<le> r' \<Longrightarrow> rb \<le> rb' \<Longrightarrow> e \<le> e' \<Longrightarrow> writer_ok r' a N rb' e' w"
  by (cases w) auto

lemma reader_ok_mono:
  "reader_ok L st r rb d \<Longrightarrow> r \<le> r' \<Longrightarrow> rb \<le> rb' \<Longrightarrow> reader_ok L st r' rb' d"
  by (cases d) auto

lemma gc_writers_upd:
  assumes "gc_writers_ok b e F w" "e \<le> e'" "uncopied p \<subseteq> uncopied (w i) \<union> {e ..< e'}"
    and "uncopied p \<inter> F = {}" "off (gb_reuse_lsn b) \<le> e"
    and "writer_ok (off (gb_reuse_lsn b)) (gb_available_buffer_size b) (gb_reserved_buffer_size b)
            (off (gb_readable_begin_lsn b)) e' p"
  shows "gc_writers_ok b e' F (w(i := p))"
proof -
  have u: "uncopied (w j) \<subseteq> {..< e}" for j
  proof -
    have "writer_ok (off (gb_reuse_lsn b)) (gb_available_buffer_size b) (gb_reserved_buffer_size b)
            (off (gb_readable_begin_lsn b)) e (w j)" using assms(1) by (simp add: gc_writers_ok_def)
    then show ?thesis by (cases "w j") auto
  qed
  have d: "uncopied p \<inter> uncopied (w j) = {}" if "i \<noteq> j" for j
    using assms(1,3) u [of j] that unfolding gc_writers_ok_def by fastforce
  have r: "uncopied p \<subseteq> {off (gb_reuse_lsn b) ..}"
    using assms(1,3,5) unfolding gc_writers_ok_def by fastforce
  show ?thesis unfolding gc_writers_ok_def
  proof (intro conjI allI impI)
    fix j
    show "uncopied ((w(i := p)) j) \<subseteq> {off (gb_reuse_lsn b) ..}" "uncopied ((w(i := p)) j) \<inter> F = {}"
      using assms(1,4) r by (auto simp: gc_writers_ok_def)
    show "writer_ok (off (gb_reuse_lsn b)) (gb_available_buffer_size b) (gb_reserved_buffer_size b)
        (off (gb_readable_begin_lsn b)) e' ((w(i := p)) j)"
      using assms(1,2,6) by (auto simp: gc_writers_ok_def intro: writer_ok_mono)
    fix k assume "j \<noteq> k"
    then show "uncopied ((w(i := p)) j) \<inter> uncopied ((w(i := p)) k) = {}"
      using assms(1) d by (auto simp: gc_writers_ok_def Int_commute)
  qed
qed

lemma gc_write_alloc:
  assumes "gc_inv L s" "gc_write L (WAlloc i n) s = Some t"
  shows "gc_inv L t"
proof -
  from assms(2) have w: "gc_writer s i = WIdle" "0 < n" "gc_end s + int n < 2 ^ 62"
    "t = s \<lparr> gc_writer := (gc_writer s)(i := WHas (gc_end s) n), gc_end := gc_end s + int n \<rparr>"
    by (auto split: writer_pc.splits if_splits)
  have r: "gc_ring_ok L (gc_buf s) (gc_end s) (set (gc_filled s))" using assms(1) by (simp add: gc_inv_split)
  then have "gc_ring_ok L (gc_buf s) (gc_end s + int n) (set (gc_filled s))"
    using w(3) by (auto simp: gc_ring_ok_def)
  moreover have "gc_writers_ok (gc_buf s) (gc_end s + int n) (set (gc_filled s)) ((gc_writer s)(i := WHas (gc_end s) n))"
  proof (rule gc_writers_upd)
    show "uncopied (WHas (gc_end s) n) \<inter> set (gc_filled s) = {}" using r by (auto simp: gc_ring_ok_def)
    have "0 \<le> gc_end s" using r off_nonneg [of "gb_reuse_lsn (gc_buf s)"] unfolding gc_ring_ok_def by linarith
    then show "writer_ok (off (gb_reuse_lsn (gc_buf s))) (gb_available_buffer_size (gc_buf s))
        (gb_reserved_buffer_size (gc_buf s)) (off (gb_readable_begin_lsn (gc_buf s))) (gc_end s + int n) (WHas (gc_end s) n)"
      by simp
  qed (use assms(1) r in \<open>auto simp: gc_inv_split gc_ring_ok_def\<close>)
  ultimately show ?thesis using assms(1) by (simp add: gc_inv_split w)
qed

lemma gc_write_test:
  assumes "gc_inv L s" "gc_write L (WTest i) s = Some t"
  shows "gc_inv L t"
proof -
  from assms(2) obtain x n where w: "gc_writer s i = WHas x n"
    "t = (if gc_test (gc_buf s) x n then s \<lparr> gc_writer := (gc_writer s)(i := WTested x n) \<rparr> else s)"
    by (auto split: writer_pc.splits if_splits)
  note r = assms(1) [unfolded gc_inv_split]
  have u: "uncopied (gc_writer s i) \<inter> set (gc_filled s) = {}" "0 \<le> x" "x + int n \<le> gc_end s"
    using r w(1) by (auto simp: gc_writers_ok_def dest!: spec [of _ i])
  have o: "off (lsn_add (lsn_at x) (int n)) = x + int n"
    "off (lsn_add (gb_reuse_lsn (gc_buf s)) (gb_available_buffer_size (gc_buf s)))
      = off (gb_reuse_lsn (gc_buf s)) + gb_available_buffer_size (gc_buf s)"
    using r u off_at [of x] off_add [of "int n" "lsn_at x"]
      off_add [of "gb_available_buffer_size (gc_buf s)" "gb_reuse_lsn (gc_buf s)"] by (auto simp: gc_ring_ok_def)
  have "gc_writers_ok (gc_buf s) (gc_end s) (set (gc_filled s)) ((gc_writer s)(i := WTested x n))"
    if "gc_test (gc_buf s) x n"
    using r u w(1) that by (intro gc_writers_upd [of _ "gc_end s"]) (auto simp: gc_ring_ok_def gc_test_def off_less o)
  then show ?thesis using r by (auto simp: gc_inv_split w(2))
qed

lemma gc_write_raise:
  assumes "gc_inv L s" "gc_write L (WRaise i) s = Some t"
  shows "gc_inv L t"
proof -
  note r = assms(1) [unfolded gc_inv_split]
  define b where "b = gc_buf s"
  from assms(2) obtain x n where w: "gc_writer s i = WTested x n"
    "t = s \<lparr> gc_writer := (gc_writer s)(i := WCopying x n 0),
          gc_buf := gb_inc_update_readable (gb_gen_readable_begin_lsn_for_filling b (lsn_add (lsn_at x) (int n))) b \<rparr>"
    by (auto simp: b_def split: writer_pc.splits)
  have u: "uncopied (gc_writer s i) \<inter> set (gc_filled s) = {}" "0 \<le> x" "x + int n \<le> gc_end s"
    "x + int n \<le> off (gb_reuse_lsn b) + gb_available_buffer_size b"
    using r w(1) by (auto simp: gc_writers_ok_def b_def dest!: spec [of _ i])
  define b' where "b' = gb_inc_update_readable (gb_gen_readable_begin_lsn_for_filling b (lsn_add (lsn_at x) (int n))) b"
  have R: "gc_ring_ok L b (gc_end s) (set (gc_filled s))" using r by (simp add: b_def)
  have "off (lsn_add (lsn_at x) (int n)) = x + int n"
    using R u off_at [of x] off_add [of "int n" "lsn_at x"] by (auto simp: gc_ring_ok_def)
  then have rb: "off (gb_readable_begin_lsn b') = max (off (gb_readable_begin_lsn b)) (max 0 (x + int n - gb_reserved_buffer_size b))"
    using off_gen_readable [of b "lsn_add (lsn_at x) (int n)"] R
    by (auto simp: b'_def gb_inc_update_readable_def off_max gc_ring_ok_def)
  have f: "gb_is_inited b' = gb_is_inited b" "gb_start_lsn b' = gb_start_lsn b" "gb_reuse_lsn b' = gb_reuse_lsn b"
    "gb_reserved_buffer_size b' = gb_reserved_buffer_size b" "gb_available_buffer_size b' = gb_available_buffer_size b"
    "gb_mem b' = gb_mem b" "gb_pos b' = gb_pos b"
    by (simp_all add: b'_def gb_inc_update_readable_def gb_pos_def fun_eq_iff)
  have le: "off (gb_readable_begin_lsn b) \<le> off (gb_readable_begin_lsn b')" by (simp add: rb)
  have sub: "{off (gb_readable_begin_lsn b') ..< off (gb_reuse_lsn b)} \<subseteq> set (gc_filled s)"
    using R le by (force simp: gc_ring_ok_def)
  have ring: "gc_ring_ok L b' (gc_end s) (set (gc_filled s))"
    using R u(4) le sub unfolding gc_ring_ok_def f by (auto simp: rb)
  have "gc_writers_ok b' (gc_end s) (set (gc_filled s)) (gc_writer s)"
    using r le unfolding gc_writers_ok_def f b_def by (blast intro: writer_ok_mono order_refl)
  then have "gc_writers_ok b' (gc_end s) (set (gc_filled s)) ((gc_writer s)(i := WCopying x n 0))"
    using u w(1) R f by (intro gc_writers_upd [of _ "gc_end s"]) (auto simp: gc_ring_ok_def rb)
  moreover have "reader_ok L (off (gb_start_lsn b')) (off (gb_reuse_lsn b')) (off (gb_readable_begin_lsn b')) (gc_reader s)"
    using r le unfolding f b_def by (blast intro: reader_ok_mono order_refl)
  ultimately show ?thesis using ring by (simp add: gc_inv_split w(2) b'_def [symmetric])
qed

lemma gc_write_copy:
  assumes "gc_inv L s" "gc_write L (WCopy i) s = Some t"
  shows "gc_inv L t"
proof -
  note r = assms(1) [unfolded gc_inv_split]
  define b where "b = gc_buf s"
  from assms(2) obtain x n k where w: "gc_writer s i = WCopying x n k"
    "t = (if k < n then s \<lparr> gc_writer := (gc_writer s)(i := WCopying x n (Suc k)),
                 gc_buf := gc_put b (x + int k) (L (x + int k)), gc_filled := (x + int k) # gc_filled s \<rparr>
          else s \<lparr> gc_writer := (gc_writer s)(i := WIdle) \<rparr>)"
    by (auto simp: b_def split: writer_pc.splits if_splits)
  define y where "y = x + int k"
  have W: "gc_writers_ok b (gc_end s) (set (gc_filled s)) (gc_writer s)" using r by (simp add: b_def)
  have R: "gc_ring_ok L b (gc_end s) (set (gc_filled s))" using r by (simp add: b_def)
  have u: "uncopied (gc_writer s i) \<inter> set (gc_filled s) = {}" "0 \<le> x" "x + int n \<le> gc_end s" "k \<le> n"
    "x + int n \<le> off (gb_reuse_lsn b) + gb_available_buffer_size b"
    "x + int n \<le> off (gb_readable_begin_lsn b) + gb_reserved_buffer_size b"
    "uncopied (gc_writer s i) \<subseteq> {off (gb_reuse_lsn b) ..}"
    using W w(1) by (auto simp: gc_writers_ok_def dest!: spec [of _ i])
  show ?thesis
  proof (cases "k < n")
    case True
    have y1: "y \<in> uncopied (gc_writer s i)" using True w(1) by (simp add: y_def)
    have y: "y \<in> uncopied (gc_writer s i)" "off (gb_reuse_lsn b) \<le> y" "y < x + int n"
      using True subsetD [OF u(7) y1] y1 by (simp_all add: y_def)
    have yb: "off (gb_start_lsn b) \<le> y" "y < 2 ^ 63" using R y u(3) by (auto simp: gc_ring_ok_def)
    have "gc_writers_ok b (gc_end s) (set (gc_filled s)) ((gc_writer s)(i := WCopying x n (Suc k)))"
    proof (rule gc_writers_upd [OF W order_refl])
      have "uncopied (WCopying x n (Suc k)) \<subseteq> uncopied (gc_writer s i)" using w(1) by auto
      then show "uncopied (WCopying x n (Suc k)) \<inter> set (gc_filled s) = {}" using u(1) by blast
    qed (use u True w(1) R in \<open>auto simp: gc_ring_ok_def\<close>)
    moreover have "y \<notin> uncopied (((gc_writer s)(i := WCopying x n (Suc k))) j)" for j
    proof (cases "j = i")
      case False
      then have "uncopied (gc_writer s i) \<inter> uncopied (gc_writer s j) = {}" using W by (simp add: gc_writers_ok_def)
      then show ?thesis using y(1) False by auto
    qed (simp add: y_def)
    ultimately have w': "gc_writers_ok (gc_put b y (L y)) (gc_end s) (set (y # gc_filled s)) ((gc_writer s)(i := WCopying x n (Suc k)))"
      unfolding gc_writers_ok_def gc_put_fields by simp
    have m: "gb_mem (gc_put b y (L y)) ! nat (gb_pos b z) = L z"
      if "z \<in> set (y # gc_filled s)" "off (gb_readable_begin_lsn b) \<le> z" for z
    proof -
      have "z < y + gb_reserved_buffer_size b" "y < z + gb_reserved_buffer_size b"
        using that R y u(6) by (auto simp: gc_ring_ok_def)
      then show ?thesis using gc_put_nth [of b y z "L y"] that R yb by (auto simp: gc_ring_ok_def)
    qed
    have "gc_ring_ok L (gc_put b y (L y)) (gc_end s) (set (y # gc_filled s))"
      using R m yb y u(3,5) unfolding gc_ring_ok_def gc_put_fields by auto
    with w' r True show ?thesis by (simp add: gc_inv_split w(2) y_def b_def)
  next
    case False
    have "gc_writers_ok b (gc_end s) (set (gc_filled s)) ((gc_writer s)(i := WIdle))"
      using W R by (intro gc_writers_upd [of _ "gc_end s"]) (auto simp: gc_ring_ok_def)
    with r False show ?thesis by (simp add: gc_inv_split w(2) b_def)
  qed
qed

lemma gc_write_flush:
  assumes "gc_inv L s" "gc_write L (Flush y) s = Some t"
  shows "gc_inv L t"
proof -
  note r = assms(1) [unfolded gc_inv_split]
  define b where "b = gc_buf s"
  from assms(2) have w: "off (gb_reuse_lsn b) \<le> y" "y \<le> gc_end s"
    "list_all (\<lambda>z. z \<in> set (gc_filled s)) [off (gb_reuse_lsn b) .. y - 1]"
    "t = s \<lparr> gc_buf := snd (gb_inc_update_reuse_lsn (lsn_at y) b) \<rparr>"
    by (auto simp: b_def split: if_splits)
  have R: "gc_ring_ok L b (gc_end s) (set (gc_filled s))" using r by (simp add: b_def)
  have W: "gc_writers_ok b (gc_end s) (set (gc_filled s)) (gc_writer s)" using r by (simp add: b_def)
  have "0 \<le> y" using w(1) off_nonneg [of "gb_reuse_lsn b"] by linarith
  then have y: "off (lsn_at y) = y" "lsn_is_valid (lsn_at y)"
    using w(2) R off_at [of y] off_valid [of "lsn_at y"] by (auto simp: gc_ring_ok_def)
  define b' where "b' = b \<lparr> gb_reuse_lsn := max (gb_reuse_lsn b) (lsn_at y) \<rparr>"
  have t: "t = s \<lparr> gc_buf := b' \<rparr>" using y by (simp add: w(4) b'_def gb_inc_update_reuse_lsn_def)
  have o: "off (gb_reuse_lsn b') = y" using w(1) y(1) by (simp add: b'_def off_max)
  have f: "gb_is_inited b' = gb_is_inited b" "gb_start_lsn b' = gb_start_lsn b" "gb_readable_begin_lsn b' = gb_readable_begin_lsn b"
    "gb_reserved_buffer_size b' = gb_reserved_buffer_size b" "gb_available_buffer_size b' = gb_available_buffer_size b"
    "gb_mem b' = gb_mem b" "gb_pos b' = gb_pos b"
    by (simp_all add: b'_def gb_pos_def fun_eq_iff)
  have filled: "z \<in> set (gc_filled s)" if "off (gb_reuse_lsn b) \<le> z" "z < y" for z
    using w(3) that by (auto simp: list_all_iff)
  have "{off (gb_readable_begin_lsn b) ..< y} \<subseteq> set (gc_filled s)"
  proof
    fix z assume "z \<in> {off (gb_readable_begin_lsn b) ..< y}"
    then show "z \<in> set (gc_filled s)"
      using R filled [of z] by (cases "off (gb_reuse_lsn b) \<le> z") (auto simp: gc_ring_ok_def subset_iff)
  qed
  then have ring: "gc_ring_ok L b' (gc_end s) (set (gc_filled s))"
    using R w(1,2) unfolding gc_ring_ok_def f o by force
  have "uncopied (gc_writer s i) \<subseteq> {y ..}" for i
  proof
    fix z assume z: "z \<in> uncopied (gc_writer s i)"
    then have "off (gb_reuse_lsn b) \<le> z" "z \<notin> set (gc_filled s)" using W by (auto simp: gc_writers_ok_def)
    then show "z \<in> {y ..}" using filled [of z] by force
  qed
  then have "gc_writers_ok b' (gc_end s) (set (gc_filled s)) (gc_writer s)"
    using W w(1) unfolding gc_writers_ok_def f o by (blast intro: writer_ok_mono order_refl)
  moreover have "reader_ok L (off (gb_start_lsn b')) (off (gb_reuse_lsn b')) (off (gb_readable_begin_lsn b')) (gc_reader s)"
    using r w(1) unfolding f o b_def by (blast intro: reader_ok_mono order_refl)
  ultimately show ?thesis using ring by (simp add: gc_inv_split t)
qed

lemma gc_write_inv:
  assumes "gc_inv L s" "gc_write L e s = Some t"
  shows "gc_inv L t"
proof (cases e)
  case (WAlloc i n) then show ?thesis using gc_write_alloc assms by blast
next
  case (WTest i) then show ?thesis using gc_write_test assms by blast
next
  case (WRaise i) then show ?thesis using gc_write_raise assms by blast
next
  case (WCopy i) then show ?thesis using gc_write_copy assms by blast
next
  case (Flush y) then show ?thesis using gc_write_flush assms by blast
qed (use assms in auto)

lemma gc_read_inv:
  assumes "gc_inv L s" "gc_read e s = Some t"
  shows "gc_inv L t"
proof -
  note r = assms(1) [unfolded gc_inv_split]
  define b where "b = gc_buf s"
  have R: "gc_ring_ok L b (gc_end s) (set (gc_filled s))" using r by (simp add: b_def)
  have D: "reader_ok L (off (gb_start_lsn b)) (off (gb_reuse_lsn b)) (off (gb_readable_begin_lsn b)) (gc_reader s)"
    using r by (simp add: b_def)
  have t: "gc_inv L t" if "t = s \<lparr> gc_reader := d \<rparr>"
    "reader_ok L (off (gb_start_lsn b)) (off (gb_reuse_lsn b)) (off (gb_readable_begin_lsn b)) d" for d
    using r that by (simp add: gc_inv_split b_def)
  have at: "off (lsn_at x) = x" if "off (gb_start_lsn b) \<le> x" "x < 2 ^ 62" for x
    using that off_nonneg [of "gb_start_lsn b"] order_trans [of 0 "off (gb_start_lsn b)" x] by (intro off_at) auto
  show ?thesis
  proof (cases e)
    case (RLoad x n)
    with assms(2) R show ?thesis
      by (intro t [of "RLoaded x n (off (gb_reuse_lsn b))"]) (auto simp: b_def split: if_splits)
  next
    case RTest
    with assms(2) obtain x n reuse where d: "gc_reader s = RLoaded x n reuse" by (auto split: reader_pc.splits)
    have x: "off (gb_start_lsn b) \<le> x" "x < 2 ^ 62" "reuse \<le> off (gb_reuse_lsn b)" using D d by auto
    from assms(2) RTest d have "t = s \<lparr> gc_reader := (if lsn_lt (lsn_at x) (gb_readable_begin_lsn b) then RFailed
        else if reuse > x then RCopying x (nat (min (reuse - x) n)) [] else RDone x []) \<rparr>"
      by (auto simp: b_def split: if_splits)
    then show ?thesis by (rule t) (use x in \<open>auto simp: min_def\<close>)
  next
    case RCopy
    with assms(2) obtain x n bs where d: "gc_reader s = RCopying x n bs" "length bs < n"
      "t = s \<lparr> gc_reader := RCopying x n (bs @ [gc_get b (x + int (length bs))]) \<rparr>"
      by (auto simp: b_def split: reader_pc.splits if_splits)
    have x: "off (gb_start_lsn b) \<le> x" "x < 2 ^ 62" "x + int n \<le> off (gb_reuse_lsn b)"
      "off (gb_readable_begin_lsn b) \<le> x \<Longrightarrow> bs = map (\<lambda>j. L (x + int j)) [0..<length bs]" using D d(1) by auto
    have g: "gc_get b (x + int (length bs)) = L (x + int (length bs))" if "off (gb_readable_begin_lsn b) \<le> x"
    proof -
      have "x + int (length bs) \<in> set (gc_filled s)" using R x(3) d(2) that by (auto simp: gc_ring_ok_def subset_iff)
      then have "gb_mem b ! nat (gb_pos b (x + int (length bs))) = L (x + int (length bs))"
        using R that by (auto simp: gc_ring_ok_def)
      then show ?thesis using gc_pos [of b "x + int (length bs)" 0] R x d(2) by (simp add: gc_get_def gc_ring_ok_def)
    qed
    from d(3) show ?thesis by (rule t) (use x d(2) g in \<open>auto simp: map_append [symmetric]\<close>)
  next
    case RCheck
    with assms(2) obtain x bs where d: "gc_reader s = RCopying x (length bs) bs"
      "t = s \<lparr> gc_reader := (if lsn_gt (gb_readable_begin_lsn b) (lsn_at x) then RFailed else RDone x bs) \<rparr>"
      by (auto simp: b_def split: reader_pc.splits if_splits)
    from d(2) show ?thesis by (rule t) (use D d(1) at [of x] in \<open>auto simp: off_less\<close>)
  qed (use assms in auto)
qed

lemma gc_run_inv: "gc_inv L s \<Longrightarrow> gc_run L es s = Some t \<Longrightarrow> gc_inv L t"
proof (induction es arbitrary: s)
  case (Cons e es)
  from Cons.prems(2) obtain u where u: "gc_next L e s = Some u" "gc_run L es u = Some t"
    by (auto split: option.splits)
  then have "gc_inv L u" using gc_write_inv [OF Cons.prems(1)] gc_read_inv [OF Cons.prems(1)]
    by (cases "gc_write L e s") (simp_all add: gc_next_def)
  with Cons.IH u(2) show ?case by blast
qed simp

lemma gc_start_inv:
  assumes "gb_inv b Map.empty" "gb_readable_begin_lsn b = gb_start_lsn b" "gb_reuse_lsn b = gb_start_lsn b"
    "gb_reserved_buffer_size b < 2 ^ 62" "off (gb_start_lsn b) < 2 ^ 62"
  shows "gc_inv L (gc_start b)"
  using assms by (simp add: gc_inv_split gc_start_def gc_ring_ok_def gc_writers_ok_def gb_inv_def)

subsection \<open>Property\<close>

text \<open>
  C6. A reader that runs among any number of writers and flushes never returns torn or
  overwritten data: whatever the interleaving of the single loads, raises and copied bytes, if
  \<^verbatim>\<open>read_data\<close> reports success the bytes it returns are the log's bytes at the requested offsets;
  a read whose source was overwritten meanwhile is caught by the double check.
\<close>

theorem gc_read_never_torn:
  assumes "gb_inv b Map.empty" "gb_readable_begin_lsn b = gb_start_lsn b" "gb_reuse_lsn b = gb_start_lsn b"
    "gb_reserved_buffer_size b < 2 ^ 62" "off (gb_start_lsn b) < 2 ^ 62"
    and "gc_run L es (gc_start b) = Some t" "gc_reader t = RDone x bs"
  shows "bs = map (\<lambda>j. L (x + int j)) [0..<length bs]"
  using gc_run_inv [OF gc_start_inv [OF assms(1-5)] assms(6)] assms(7) by (simp add: gc_inv_split)

definition gc_example :: LogGroupBuffer where
  "gc_example = \<lparr> gb_start_lsn = LSN 0, gb_reuse_lsn = LSN 0, gb_readable_begin_lsn = LSN 0,
     gb_reserved_buffer_size = 4, gb_available_buffer_size = 4, gb_data_buf = 4096, gb_mem = replicate 4 0, gb_is_inited = True \<rparr>"

text \<open>
  Two writers fill three and two bytes; the second one overwrites the first byte of the ring
  after the reader has copied it. The reader of offset 1 succeeds, the reader of offset 0 fails.
\<close>

definition gc_schedule :: "int \<Rightarrow> gc_event list" where
  "gc_schedule x = [WAlloc 1 3, WAlloc 2 2, WTest 2, WTest 1, WRaise 1, WCopy 1, WCopy 1, WCopy 1, Flush 3,
     RLoad x 2, RTest, RCopy, WTest 2, WRaise 2, WCopy 2, WCopy 2, RCopy, RCheck]"

lemma gc_schedule_outcomes:
  "map_option gc_reader (gc_run (\<lambda>x. word_of_int (x + 10)) (gc_schedule 1) (gc_start gc_example)) = Some (RDone 1 [11, 12])"
  "map_option gc_reader (gc_run (\<lambda>x. word_of_int (x + 10)) (gc_schedule 0) (gc_start gc_example)) = Some RFailed"
  by code_simp+

theorem gc_read_never_torn_witness:
  "\<exists>t bs. gc_run (\<lambda>x. word_of_int (x + 10)) (gc_schedule 1) (gc_start gc_example) = Some t
     \<and> gc_reader t = RDone 1 bs \<and> bs = map (\<lambda>j. word_of_int (1 + int j + 10)) [0..<length bs] \<and> length bs = 2"
proof -
  obtain t where t: "gc_run (\<lambda>x. word_of_int (x + 10)) (gc_schedule 1) (gc_start gc_example) = Some t"
    "gc_reader t = RDone 1 [11, 12]" using gc_schedule_outcomes(1) by auto
  have i: "gb_inv gc_example Map.empty" "gb_readable_begin_lsn gc_example = gb_start_lsn gc_example"
    "gb_reuse_lsn gc_example = gb_start_lsn gc_example" "gb_reserved_buffer_size gc_example < 2 ^ 62"
    "off (gb_start_lsn gc_example) < 2 ^ 62"
    by (simp_all add: gc_example_def gb_inv_def off_def)
  show ?thesis using gc_read_never_torn [OF i t] t by auto
qed

end
