(* ===== verification/Palf_Sliding_Window.thy ===== *)
theory Palf_Sliding_Window
  imports Palf_Lsn
begin

section \<open>The fixed sliding window: \<^verbatim>\<open>logservice/palf/fixed_sliding_window.h\<close>\<close>

text \<open>
  \<^verbatim>\<open>FixedSlidingWindow\<close> keeps the log tasks with ids in \<open>[begin_sn, end_sn)\<close> in an array of
  \<open>2 ^ k\<close> reference-counted slots; the slot of an id is its low \<open>k\<close> bits. \<^verbatim>\<open>slide\<close> moves
  \<^verbatim>\<open>begin_sn_\<close> over finished tasks; a slot is reset and \<^verbatim>\<open>end_sn_\<close> moved over it only when no
  reference is left, by the slide itself or by the last \<^verbatim>\<open>revert\<close>.

  The operations here are atomic; the interleaving of their steps is in
  \<open>Palf_Sliding_Window_Conc\<close>. The slot type is a parameter: \<open>d0\<close> is what
  \<^verbatim>\<open>T::reset\<close> leaves, \<open>slidable\<close> is \<^verbatim>\<open>can_be_slid\<close>, and \<open>cb\<close> the sliding callback. A
  call that waits for a reference count that no one lowers does not return (\<open>None\<close>), and the
  number of iterations that \<^verbatim>\<open>slide\<close> makes before its timeout is an argument.
\<close>

record 'd sw_slot =
  slot_ref :: int
  slot_data :: 'd

record 'd FixedSlidingWindow =
  sw_is_inited :: bool
  begin_sn :: int
  end_sn :: int
  sw_size :: int
  sw_array :: "'d sw_slot list"

definition OB_INVALID_SIZE :: int where "OB_INVALID_SIZE = - 1"

definition sw_new :: "'d FixedSlidingWindow" where
  "sw_new = \<lparr> sw_is_inited = False, begin_sn = OB_INVALID_LOG_ID, end_sn = OB_INVALID_LOG_ID,
     sw_size = OB_INVALID_SIZE, sw_array = [] \<rparr>"

text \<open>\<open>mem\<close> tells whether \<^verbatim>\<open>ge_alloc\<close> grants the array, \<open>mgr\<close> whether an allocator was given.\<close>

definition sw_init :: "'d \<Rightarrow> bool \<Rightarrow> bool \<Rightarrow> int \<Rightarrow> int \<Rightarrow> 'd FixedSlidingWindow \<Rightarrow> ob_ret \<times> 'd FixedSlidingWindow" where
  "sw_init d0 mgr mem start_id sz w =
     (if sw_is_inited w then (OB_INIT_TWICE, w)
      else if 0 > start_id \<or> 1 \<ge> sz \<or> 0 \<noteq> (sz AND (sz - 1)) \<or> \<not> mgr then (OB_INVALID_ARGUMENT, w)
      else if \<not> mem then (OB_ALLOCATE_MEMORY_FAILED, w)
      else (OB_SUCCESS, w \<lparr> sw_array := replicate (nat sz) \<lparr> slot_ref = 0, slot_data = d0 \<rparr>, sw_is_inited := True,
             begin_sn := start_id, end_sn := start_id + sz, sw_size := sz \<rparr>))"

definition calc_idx :: "'d FixedSlidingWindow \<Rightarrow> int \<Rightarrow> int" where
  "calc_idx w log_id = log_id AND (sw_size w - 1)"

definition check_id_in_range :: "'d FixedSlidingWindow \<Rightarrow> int \<Rightarrow> ob_ret" where
  "check_id_in_range w sn =
     (if sn < begin_sn w then OB_ERR_OUT_OF_LOWER_BOUND
      else if sn \<ge> end_sn w then OB_ERR_OUT_OF_UPPER_BOUND else OB_SUCCESS)"

definition sw_slot_at :: "'d FixedSlidingWindow \<Rightarrow> int \<Rightarrow> 'd sw_slot" where
  "sw_slot_at w idx = sw_array w ! nat idx"

definition sw_set_ref :: "int \<Rightarrow> int \<Rightarrow> 'd FixedSlidingWindow \<Rightarrow> 'd FixedSlidingWindow" where
  "sw_set_ref idx r w = w \<lparr> sw_array := (sw_array w)[nat idx := (sw_slot_at w idx) \<lparr> slot_ref := r \<rparr>] \<rparr>"

definition sw_set_data :: "int \<Rightarrow> 'd \<Rightarrow> 'd FixedSlidingWindow \<Rightarrow> 'd FixedSlidingWindow" where
  "sw_set_data idx d w = w \<lparr> sw_array := (sw_array w)[nat idx := (sw_slot_at w idx) \<lparr> slot_data := d \<rparr>] \<rparr>"

text \<open>
  The loop of \<^verbatim>\<open>revert_\<close>: from slot \<open>i\<close> on, slots that have been slid and are not referenced are
  reset and \<^verbatim>\<open>end_sn_\<close> is moved over them.
\<close>

function revert_loop :: "'d \<Rightarrow> int \<Rightarrow> int \<Rightarrow> 'd FixedSlidingWindow \<Rightarrow> 'd FixedSlidingWindow" where
  "revert_loop d0 i tmp_id w =
     (if i = calc_idx w (end_sn w) \<and> tmp_id < begin_sn w then
        if slot_ref (sw_slot_at w i) \<noteq> 0 then w
        else let w1 = sw_set_data i d0 w in
          revert_loop d0 (calc_idx w (i + 1)) (tmp_id + 1) (w1 \<lparr> end_sn := end_sn w1 + 1 \<rparr>)
      else w)"
  by pat_completeness auto
termination
  by (relation "measure (\<lambda>(d0, i, tmp_id, w). nat (begin_sn w - tmp_id))") (auto simp: sw_set_data_def)

declare revert_loop.simps [simp del]

definition sw_revert_ref :: "'d \<Rightarrow> int \<Rightarrow> 'd FixedSlidingWindow \<Rightarrow> ob_ret \<times> 'd FixedSlidingWindow" where
  "sw_revert_ref d0 r_id w =
     (if r_id \<ge> end_sn w then (OB_ERR_UNEXPECTED, w)
      else let idx = calc_idx w r_id;
               curr_ref = slot_ref (sw_slot_at w idx) - 1;
               w1 = sw_set_ref idx curr_ref w in
        if 0 > curr_ref then (OB_ERR_UNEXPECTED, w1)
        else if 0 = curr_ref then (OB_SUCCESS, revert_loop d0 idx r_id w1)
        else (OB_SUCCESS, w1))"

definition sw_revert :: "'d \<Rightarrow> int \<Rightarrow> 'd FixedSlidingWindow \<Rightarrow> ob_ret \<times> 'd FixedSlidingWindow" where
  "sw_revert d0 r_id w =
     (if \<not> sw_is_inited w then (OB_NOT_INIT, w)
      else if r_id < begin_sn w - sw_size w then (OB_ERR_UNEXPECTED, w)
      else sw_revert_ref d0 r_id w)"

text \<open>The result of \<^verbatim>\<open>get\<close> is the slot index, which stands for the pointer \<^verbatim>\<open>&array_[idx]\<close>.\<close>

definition sw_get :: "'d \<Rightarrow> int \<Rightarrow> 'd FixedSlidingWindow \<Rightarrow> ob_ret \<times> int option \<times> 'd FixedSlidingWindow" where
  "sw_get d0 g_id w =
     (if \<not> sw_is_inited w then (OB_NOT_INIT, None, w)
      else if check_id_in_range w g_id \<noteq> OB_SUCCESS then (check_id_in_range w g_id, None, w)
      else let idx = calc_idx w g_id;
               w1 = sw_set_ref idx (slot_ref (sw_slot_at w idx) + 1) w in
        if check_id_in_range w1 g_id = OB_SUCCESS then (OB_SUCCESS, Some idx, w1)
        else case sw_revert_ref d0 g_id w1 of (ret, w2) \<Rightarrow>
          if ret = OB_SUCCESS then (OB_ERR_OUT_OF_LOWER_BOUND, None, w2) else (ret, None, w2))"

definition slide_one :: "'d \<Rightarrow> 'd FixedSlidingWindow \<Rightarrow> 'd FixedSlidingWindow" where
  "slide_one d0 w =
     (let idx = calc_idx w (begin_sn w); w1 = w \<lparr> begin_sn := begin_sn w + 1 \<rparr> in
      if 0 = slot_ref (sw_slot_at w1 idx) \<and> calc_idx w1 (end_sn w1) = idx
      then let w2 = sw_set_data idx d0 w1 in w2 \<lparr> end_sn := end_sn w2 + 1 \<rparr>
      else w1)"

text \<open>The slid ids are returned in the order of their callbacks.\<close>

fun slide_loop ::
  "'d \<Rightarrow> ('d \<Rightarrow> bool) \<Rightarrow> (int \<Rightarrow> 'd \<Rightarrow> ob_ret) \<Rightarrow> nat \<Rightarrow> 'd FixedSlidingWindow \<Rightarrow> ob_ret \<times> int list \<times> 'd FixedSlidingWindow" where
  "slide_loop d0 slidable cb 0 w = (OB_SUCCESS, [], w)"
| "slide_loop d0 slidable cb (Suc n) w =
     (if end_sn w - begin_sn w \<le> 0 then slide_loop d0 slidable cb n w
      else let d = slot_data (sw_slot_at w (calc_idx w (begin_sn w))) in
        if \<not> slidable d then (OB_SUCCESS, [], w)
        else if cb (begin_sn w) d \<noteq> OB_SUCCESS then (cb (begin_sn w) d, [], w)
        else case slide_loop d0 slidable cb n (slide_one d0 w) of (ret, ids, w') \<Rightarrow> (ret, begin_sn w # ids, w'))"

text \<open>\<open>got_lock\<close>: whether the read lock was taken before the timeout.\<close>

definition sw_slide ::
  "'d \<Rightarrow> ('d \<Rightarrow> bool) \<Rightarrow> (int \<Rightarrow> 'd \<Rightarrow> ob_ret) \<Rightarrow> bool \<Rightarrow> nat \<Rightarrow> 'd FixedSlidingWindow \<Rightarrow> ob_ret \<times> int list \<times> 'd FixedSlidingWindow" where
  "sw_slide d0 slidable cb got_lock n w =
     (if \<not> sw_is_inited w then (OB_NOT_INIT, [], w)
      else if \<not> got_lock then (OB_SUCCESS, [], w)
      else slide_loop d0 slidable cb n w)"

function range_truncate :: "'d \<Rightarrow> int \<Rightarrow> int \<Rightarrow> 'd FixedSlidingWindow \<Rightarrow> (ob_ret \<times> 'd FixedSlidingWindow) option" where
  "range_truncate d0 i end_tid w =
     (if \<not> sw_is_inited w then Some (OB_NOT_INIT, w)
      else if i < end_tid then
        let idx = calc_idx w i in
        if slot_ref (sw_slot_at w idx) \<noteq> 0 then None
        else range_truncate d0 (i + 1) end_tid (sw_set_data idx d0 w)
      else Some (OB_SUCCESS, w))"
  by pat_completeness auto
termination
  by (relation "measure (\<lambda>(d0, i, e, w). nat (e - i))") auto

declare range_truncate.simps [simp del]

definition sw_truncate :: "'d \<Rightarrow> int \<Rightarrow> 'd FixedSlidingWindow \<Rightarrow> (ob_ret \<times> 'd FixedSlidingWindow) option" where
  "sw_truncate d0 t_id w =
     (if \<not> sw_is_inited w then Some (OB_NOT_INIT, w)
      else let ret = check_id_in_range w t_id in
        if ret \<noteq> OB_SUCCESS then
          Some (if ret = OB_ERR_OUT_OF_UPPER_BOUND then OB_SUCCESS
                else if ret = OB_ERR_OUT_OF_LOWER_BOUND then OB_ERR_UNEXPECTED else ret, w)
        else range_truncate d0 t_id (end_sn w) w)"

definition truncate_and_reset_begin_sn :: "'d \<Rightarrow> int \<Rightarrow> 'd FixedSlidingWindow \<Rightarrow> (ob_ret \<times> 'd FixedSlidingWindow) option" where
  "truncate_and_reset_begin_sn d0 t_id w =
     (if \<not> sw_is_inited w then Some (OB_SUCCESS, w)
      else if t_id < begin_sn w then Some (OB_INVALID_ARGUMENT, w)
      else if calc_idx w (begin_sn w) \<noteq> calc_idx w (end_sn w) then Some (OB_ERR_UNEXPECTED, w)
      else let stop = (if check_id_in_range w t_id \<noteq> OB_SUCCESS then end_sn w else t_id) in
        case range_truncate d0 (begin_sn w) stop w of
          None \<Rightarrow> None
        | Some (ret, w') \<Rightarrow>
            Some (if ret \<noteq> OB_SUCCESS then (ret, w')
                  else (OB_SUCCESS, w' \<lparr> begin_sn := t_id, end_sn := t_id + sw_size w' \<rparr>)))"

definition sw_clear :: "'d \<Rightarrow> 'd FixedSlidingWindow \<Rightarrow> (ob_ret \<times> 'd FixedSlidingWindow) option" where
  "sw_clear d0 w = range_truncate d0 (begin_sn w) (end_sn w) w"

definition sw_destroy :: "'d \<Rightarrow> 'd FixedSlidingWindow \<Rightarrow> 'd FixedSlidingWindow option" where
  "sw_destroy d0 w =
     (if \<not> sw_is_inited w then Some w
      else case sw_clear d0 w of
        None \<Rightarrow> None
      | Some (ret, w') \<Rightarrow>
          Some (if ret \<noteq> OB_SUCCESS then w'
                else w' \<lparr> sw_is_inited := False, sw_array := [], begin_sn := OB_INVALID_LOG_ID,
                          end_sn := OB_INVALID_LOG_ID, sw_size := OB_INVALID_SIZE \<rparr>))"

subsection \<open>Invariant\<close>

text \<open>
  The window never exceeds the array, and \<^verbatim>\<open>end_sn_\<close> lags behind \<open>begin_sn + size\<close> only while
  the slot it stands at is still referenced.
\<close>

definition sw_inv :: "'d FixedSlidingWindow \<Rightarrow> bool" where
  "sw_inv w \<longleftrightarrow> sw_is_inited w \<and> (\<exists>k. 0 < k \<and> sw_size w = 2 ^ k) \<and> int (length (sw_array w)) = sw_size w
     \<and> 0 \<le> begin_sn w \<and> begin_sn w \<le> end_sn w \<and> end_sn w \<le> begin_sn w + sw_size w
     \<and> (\<forall>s\<in>set (sw_array w). 0 \<le> slot_ref s)
     \<and> (end_sn w < begin_sn w + sw_size w \<longrightarrow> 0 < slot_ref (sw_slot_at w (calc_idx w (end_sn w))))"

text \<open>The slot of an id.\<close>

definition sw_at :: "'d FixedSlidingWindow \<Rightarrow> int \<Rightarrow> 'd sw_slot" where
  "sw_at w sn = sw_slot_at w (calc_idx w sn)"

lemma power_of_two:
  "0 < x \<Longrightarrow> x AND (x - 1) = (0 :: int) \<Longrightarrow> \<exists>k. x = 2 ^ k"
proof (induction "nat x" arbitrary: x rule: less_induct)
  case less
  define y where "y = x div 2"
  show ?case
  proof (cases "even x")
    case True
    then have x: "x = 2 * y" by (simp add: y_def)
    have "(2 * y - 1) div 2 = y - 1" by presburger
    then have "x AND (x - 1) = 2 * (y AND (y - 1))" by (subst and_int_rec) (simp add: x)
    with less.prems have "y AND (y - 1) = 0" "0 < y" "nat y < nat x" by (auto simp: x)
    then obtain k where "y = 2 ^ k" using less.hyps by blast
    then show ?thesis using x by (auto intro: exI [of _ "Suc k"])
  next
    case False
    then have x: "x = 2 * y + 1" using odd_two_times_div_two_succ [of x] by (simp add: y_def)
    have "x AND (x - 1) = 2 * (y AND y)" by (subst and_int_rec) (simp add: x)
    with less.prems have "y = 0" by simp
    then show ?thesis using x by (auto intro: exI [of _ 0])
  qed
qed

lemma calc_idx_mod: "sw_size w = 2 ^ k \<Longrightarrow> calc_idx w sn = sn mod sw_size w"
  by (simp add: calc_idx_def take_bit_eq_mod flip: take_bit_eq_mask mask_eq_exp_minus_1)

lemma sw_inv_idx:
  assumes "sw_inv w"
  shows "calc_idx w sn = sn mod sw_size w" "0 \<le> calc_idx w sn" "calc_idx w sn < sw_size w" "1 < sw_size w"
    "nat (calc_idx w sn) < length (sw_array w)"
proof -
  obtain k where k: "0 < k" "sw_size w = 2 ^ k" "int (length (sw_array w)) = sw_size w"
    using assms by (auto simp: sw_inv_def)
  then show c: "calc_idx w sn = sn mod sw_size w" by (simp add: calc_idx_mod)
  show "1 < sw_size w" using k by (simp add: one_less_power)
  then show "0 \<le> calc_idx w sn" "calc_idx w sn < sw_size w" by (simp_all add: c)
  then show "nat (calc_idx w sn) < length (sw_array w)" using k(3) by linarith
qed

lemma sw_set_fields [simp]:
  "sw_is_inited (sw_set_ref i r w) = sw_is_inited w" "begin_sn (sw_set_ref i r w) = begin_sn w"
  "end_sn (sw_set_ref i r w) = end_sn w" "sw_size (sw_set_ref i r w) = sw_size w"
  "length (sw_array (sw_set_ref i r w)) = length (sw_array w)" "calc_idx (sw_set_ref i r w) = calc_idx w"
  "sw_is_inited (sw_set_data i d w) = sw_is_inited w" "begin_sn (sw_set_data i d w) = begin_sn w"
  "end_sn (sw_set_data i d w) = end_sn w" "sw_size (sw_set_data i d w) = sw_size w"
  "length (sw_array (sw_set_data i d w)) = length (sw_array w)" "calc_idx (sw_set_data i d w) = calc_idx w"
  "calc_idx (w \<lparr> begin_sn := b \<rparr>) = calc_idx w" "calc_idx (w \<lparr> end_sn := e \<rparr>) = calc_idx w"
  "sw_slot_at (w \<lparr> begin_sn := b \<rparr>) = sw_slot_at w" "sw_slot_at (w \<lparr> end_sn := e \<rparr>) = sw_slot_at w"
  "sw_at (w \<lparr> begin_sn := b \<rparr>) = sw_at w" "sw_at (w \<lparr> end_sn := e \<rparr>) = sw_at w"
  by (simp_all add: sw_set_ref_def sw_set_data_def calc_idx_def sw_slot_at_def sw_at_def fun_eq_iff)

text \<open>What every operation keeps, apart from the clause on the slot at \<^verbatim>\<open>end_sn_\<close>.\<close>

definition sw_pre :: "'d FixedSlidingWindow \<Rightarrow> bool" where
  "sw_pre w \<longleftrightarrow> sw_is_inited w \<and> (\<exists>k. 0 < k \<and> sw_size w = 2 ^ k) \<and> int (length (sw_array w)) = sw_size w
     \<and> 0 \<le> begin_sn w \<and> begin_sn w \<le> end_sn w \<and> end_sn w \<le> begin_sn w + sw_size w
     \<and> (\<forall>s\<in>set (sw_array w). 0 \<le> slot_ref s)"

lemma sw_inv_pre: "sw_inv w \<longleftrightarrow> sw_pre w \<and> (end_sn w < begin_sn w + sw_size w \<longrightarrow> 0 < slot_ref (sw_at w (end_sn w)))"
  by (auto simp: sw_inv_def sw_pre_def sw_at_def)

lemma sw_pre_idx:
  assumes "sw_pre w"
  shows "calc_idx w sn = sn mod sw_size w" "0 \<le> calc_idx w sn" "calc_idx w sn < sw_size w" "1 < sw_size w"
    "nat (calc_idx w sn) < length (sw_array w)"
proof -
  obtain k where k: "0 < k" "sw_size w = 2 ^ k" "int (length (sw_array w)) = sw_size w"
    using assms by (auto simp: sw_pre_def)
  then show c: "calc_idx w sn = sn mod sw_size w" by (simp add: calc_idx_mod)
  show "1 < sw_size w" using k by (simp add: one_less_power)
  then show "0 \<le> calc_idx w sn" "calc_idx w sn < sw_size w" by (simp_all add: c)
  then show "nat (calc_idx w sn) < length (sw_array w)" using k(3) by linarith
qed

lemma sw_at_set_ref:
  assumes "sw_pre w"
  shows "sw_at (sw_set_ref (calc_idx w u) r w) v =
    (if u mod sw_size w = v mod sw_size w then (sw_at w v) \<lparr> slot_ref := r \<rparr> else sw_at w v)"
  using sw_pre_idx(1,2,5) [OF assms, of u] sw_pre_idx(1,2,5) [OF assms, of v]
  by (auto simp: sw_at_def sw_slot_at_def sw_set_ref_def calc_idx_def nth_list_update eq_nat_nat_iff)

lemma sw_at_set_data:
  assumes "sw_pre w"
  shows "sw_at (sw_set_data (calc_idx w u) d w) v =
    (if u mod sw_size w = v mod sw_size w then (sw_at w v) \<lparr> slot_data := d \<rparr> else sw_at w v)"
  using sw_pre_idx(1,2,5) [OF assms, of u] sw_pre_idx(1,2,5) [OF assms, of v]
  by (auto simp: sw_at_def sw_slot_at_def sw_set_data_def calc_idx_def nth_list_update eq_nat_nat_iff)

lemma sw_pre_set:
  assumes "sw_pre w"
  shows "0 \<le> r \<Longrightarrow> sw_pre (sw_set_ref (calc_idx w u) r w)" "sw_pre (sw_set_data (calc_idx w u) d w)"
    "begin_sn w \<le> end_sn w + 1 \<Longrightarrow> end_sn w < begin_sn w + sw_size w \<Longrightarrow> sw_pre (w \<lparr> end_sn := end_sn w + 1 \<rparr>)"
proof -
  have s: "0 \<le> slot_ref (sw_slot_at w (calc_idx w u))"
    using assms sw_pre_idx(5) [OF assms, of u] by (auto simp: sw_pre_def sw_slot_at_def)
  have "\<forall>s\<in>set ((sw_array w)[i := x]). 0 \<le> slot_ref s" if "0 \<le> slot_ref x" for i and x :: "'a sw_slot"
    using assms that by (auto simp: sw_pre_def dest!: subsetD [OF set_update_subset_insert])
  note upd = this
  show "0 \<le> r \<Longrightarrow> sw_pre (sw_set_ref (calc_idx w u) r w)" "sw_pre (sw_set_data (calc_idx w u) d w)"
    using assms s upd [of "(sw_slot_at w (calc_idx w u)) \<lparr> slot_ref := r \<rparr>" "nat (calc_idx w u)"]
      upd [of "(sw_slot_at w (calc_idx w u)) \<lparr> slot_data := d \<rparr>" "nat (calc_idx w u)"]
    unfolding sw_pre_def sw_set_fields by (simp_all add: sw_set_ref_def sw_set_data_def)
  show "begin_sn w \<le> end_sn w + 1 \<Longrightarrow> end_sn w < begin_sn w + sw_size w \<Longrightarrow> sw_pre (w \<lparr> end_sn := end_sn w + 1 \<rparr>)"
    using assms by (auto simp: sw_pre_def)
qed

lemma same_slot_iff:
  assumes "0 < N" "(u :: int) < v + N" "v < u + N"
  shows "u mod N = v mod N \<longleftrightarrow> u = v"
proof
  assume "u mod N = v mod N"
  then have "N dvd u - v" by (simp add: mod_eq_dvd_iff)
  then have "N dvd u - v" "N dvd v - u" by (simp_all add: dvd_diff_commute)
  then show "u = v" using assms zdvd_imp_le [of N "u - v"] zdvd_imp_le [of N "v - u"] by linarith
qed simp

lemma sw_ref_nonneg: "sw_pre w \<Longrightarrow> 0 \<le> slot_ref (sw_at w u)"
  using sw_pre_idx(5) [of w u] by (auto simp: sw_pre_def sw_at_def sw_slot_at_def)

lemma revert_loop_spec:
  assumes "sw_pre w" "i = calc_idx w (end_sn w)" "tmp_id = end_sn w - sw_size w"
  shows "case revert_loop d0 i tmp_id w of w' \<Rightarrow> sw_inv w' \<and> begin_sn w' = begin_sn w \<and> sw_size w' = sw_size w
    \<and> end_sn w \<le> end_sn w'
    \<and> (\<forall>u. slot_ref (sw_at w' u) = slot_ref (sw_at w u))
    \<and> (\<forall>u. end_sn w \<le> u \<and> u < end_sn w' \<longrightarrow> sw_at w' u = \<lparr> slot_ref = 0, slot_data = d0 \<rparr>)
    \<and> (\<forall>u. end_sn w' - sw_size w \<le> u \<and> u < end_sn w \<longrightarrow> sw_at w' u = sw_at w u)"
  using assms
proof (induction d0 i tmp_id w rule: revert_loop.induct)
  case (1 d0 i tmp_id w)
  note pre = "1.prems"(1)
  define N where "N = sw_size w"
  have N: "1 < N" using sw_pre_idx(4) [OF pre] by (simp add: N_def)
  show ?case
  proof (cases "tmp_id < begin_sn w \<and> slot_ref (sw_slot_at w i) = 0")
    case True
    define w2 where "w2 = (sw_set_data i d0 w) \<lparr> end_sn := end_sn (sw_set_data i d0 w) + 1 \<rparr>"
    have u: "revert_loop d0 i tmp_id w = revert_loop d0 (calc_idx w (i + 1)) (tmp_id + 1) w2"
      using True "1.prems"(2) by (subst revert_loop.simps) (simp add: w2_def Let_def)
    have p1: "sw_pre (sw_set_data i d0 w)" using sw_pre_set(2) [OF pre] "1.prems"(2) by simp
    have p2: "sw_pre w2" using sw_pre_set(3) [OF p1] True "1.prems"(3) pre by (simp add: w2_def sw_pre_def)
    have at: "sw_at w2 v = (if end_sn w mod N = v mod N then (sw_at w v) \<lparr> slot_data := d0 \<rparr> else sw_at w v)" for v
      using sw_at_set_data [OF pre, of "end_sn w" d0 v] "1.prems"(2) by (simp add: w2_def N_def)
    have f: "begin_sn w2 = begin_sn w" "sw_size w2 = N" "end_sn w2 = end_sn w + 1" "calc_idx w2 = calc_idx w"
      by (simp_all add: w2_def N_def)
    have i: "calc_idx w (i + 1) = calc_idx w2 (end_sn w2)"
      using sw_pre_idx(1) [OF pre] "1.prems"(2) by (simp add: f mod_add_left_eq)
    obtain w' where w': "w' = revert_loop d0 (calc_idx w (i + 1)) (tmp_id + 1) w2" by simp
    have IH: "sw_inv w' \<and> begin_sn w' = begin_sn w2 \<and> sw_size w' = sw_size w2 \<and> end_sn w2 \<le> end_sn w'
      \<and> (\<forall>u. slot_ref (sw_at w' u) = slot_ref (sw_at w2 u))
      \<and> (\<forall>u. end_sn w2 \<le> u \<and> u < end_sn w' \<longrightarrow> sw_at w' u = \<lparr> slot_ref = 0, slot_data = d0 \<rparr>)
      \<and> (\<forall>u. end_sn w' - sw_size w2 \<le> u \<and> u < end_sn w2 \<longrightarrow> sw_at w' u = sw_at w2 u)"
      using "1.IH" [OF _ _ refl, folded w2_def] True "1.prems"(2,3) p2 i f by (simp add: N_def w')
    have bnd: "end_sn w' \<le> begin_sn w + N" "begin_sn w \<le> end_sn w" "end_sn w < begin_sn w + N"
      using IH f pre True "1.prems"(3) by (auto simp: sw_inv_def sw_pre_def N_def)
    have "slot_ref (sw_at w (end_sn w)) = 0" using True "1.prems"(2) by (simp add: sw_at_def)
    then have fresh: "sw_at w2 (end_sn w) = \<lparr> slot_ref = 0, slot_data = d0 \<rparr>" by (simp add: at)
    have "sw_at w' v = \<lparr> slot_ref = 0, slot_data = d0 \<rparr>" if "end_sn w \<le> v" "v < end_sn w'" for v
    proof (cases "v = end_sn w")
      case True
      then show ?thesis using IH f fresh bnd by simp
    qed (use IH f that in auto)
    moreover have "sw_at w' v = sw_at w v" if "end_sn w' - N \<le> v" "v < end_sn w" for v
    proof -
      have "end_sn w mod N \<noteq> v mod N"
        using that IH f N same_slot_iff [of N "end_sn w" v] by auto
      then show ?thesis using IH f that by (simp add: at)
    qed
    ultimately show ?thesis using IH f unfolding u w' [symmetric] by (auto simp: at N_def)
  next
    case False
    then have "revert_loop d0 i tmp_id w = w" using "1.prems"(2) by (subst revert_loop.simps) auto
    moreover have "sw_inv w" using False pre "1.prems"(2,3) sw_ref_nonneg [OF pre, of "end_sn w"]
      by (auto simp: sw_inv_pre sw_at_def)
    ultimately show ?thesis by auto
  qed
qed

subsection \<open>Every operation against the invariant\<close>

lemma sw_init_inv:
  assumes "sw_init d0 mgr mem start sz w = (OB_SUCCESS, w')"
  shows "sw_inv w' \<and> begin_sn w' = start \<and> end_sn w' = start + sz \<and> sw_size w' = sz
    \<and> (\<forall>u. sw_at w' u = \<lparr> slot_ref = 0, slot_data = d0 \<rparr>)"
proof -
  from assms have g: "0 \<le> start" "1 < sz" "sz AND (sz - 1) = 0"
    "w' = w \<lparr> sw_array := replicate (nat sz) \<lparr> slot_ref = 0, slot_data = d0 \<rparr>, sw_is_inited := True,
             begin_sn := start, end_sn := start + sz, sw_size := sz \<rparr>"
    by (auto simp: sw_init_def split: if_splits)
  obtain k where k: "sz = 2 ^ k" using power_of_two [of sz] g by auto
  with g(2) have "0 < k" by (cases k) auto
  with g k have i: "sw_inv w'" by (auto simp: sw_inv_def)
  have "nat (calc_idx w' u) < nat sz" for u using sw_inv_idx(5) [OF i] by (simp add: g(4))
  then show ?thesis using i by (simp add: g(4) sw_at_def sw_slot_at_def)
qed

lemma sw_get_eq:
  assumes "sw_inv w"
  shows "sw_get d0 g w = (if g < begin_sn w then (OB_ERR_OUT_OF_LOWER_BOUND, None, w)
    else if g \<ge> end_sn w then (OB_ERR_OUT_OF_UPPER_BOUND, None, w)
    else (OB_SUCCESS, Some (calc_idx w g), sw_set_ref (calc_idx w g) (slot_ref (sw_at w g) + 1) w))"
  using assms by (auto simp: sw_get_def sw_inv_def check_id_in_range_def Let_def sw_at_def)

lemma sw_ref_inv:
  assumes "sw_inv w" "slot_ref (sw_at w g) \<le> r"
  shows "sw_inv (sw_set_ref (calc_idx w g) r w)"
proof -
  have p: "sw_pre w" using assms(1) by (simp add: sw_inv_pre)
  have "0 \<le> r" using sw_ref_nonneg [OF p, of g] assms(2) by linarith
  moreover have "slot_ref (sw_at w g) = slot_ref (sw_at w (end_sn w))" if "g mod sw_size w = end_sn w mod sw_size w"
    using that sw_pre_idx(1) [OF p] by (simp add: sw_at_def)
  ultimately show ?thesis using assms sw_pre_set(1) [OF p, of r g]
    by (auto simp: sw_inv_pre sw_at_set_ref [OF p])
qed

text \<open>A caller that holds a reference gives it back.\<close>

lemma sw_revert_held:
  assumes inv: "sw_inv w" and r: "end_sn w - sw_size w \<le> r" "r < end_sn w" and held: "0 < slot_ref (sw_at w r)"
  shows "\<exists>w'. sw_revert d0 r w = (OB_SUCCESS, w') \<and> sw_inv w' \<and> begin_sn w' = begin_sn w \<and> sw_size w' = sw_size w
    \<and> end_sn w \<le> end_sn w'
    \<and> (\<forall>u. slot_ref (sw_at w' u) = slot_ref (sw_at w u) - (if u mod sw_size w = r mod sw_size w then 1 else 0))
    \<and> (\<forall>u. end_sn w \<le> u \<and> u < end_sn w' \<longrightarrow> sw_at w' u = \<lparr> slot_ref = 0, slot_data = d0 \<rparr>)
    \<and> (\<forall>u. end_sn w' - sw_size w \<le> u \<and> u < end_sn w \<longrightarrow> slot_data (sw_at w' u) = slot_data (sw_at w u))"
proof -
  have p: "sw_pre w" using inv by (simp add: sw_inv_pre)
  define N where "N = sw_size w"
  define c where "c = slot_ref (sw_at w r) - 1"
  define w1 where "w1 = sw_set_ref (calc_idx w r) c w"
  have N: "1 < N" using sw_pre_idx(4) [OF p] by (simp add: N_def)
  have c: "0 \<le> c" using held by (simp add: c_def)
  have p1: "sw_pre w1" using sw_pre_set(1) [OF p c] by (simp add: w1_def)
  have at: "sw_at w1 u = (if r mod N = u mod N then (sw_at w u) \<lparr> slot_ref := c \<rparr> else sw_at w u)" for u
    using sw_at_set_ref [OF p] by (simp add: w1_def N_def)
  have same: "slot_ref (sw_at w u) = slot_ref (sw_at w r)" if "u mod N = r mod N" for u
    using that sw_pre_idx(1) [OF p] by (simp add: sw_at_def N_def)
  have refs: "slot_ref (sw_at w1 u) = slot_ref (sw_at w u) - (if u mod N = r mod N then 1 else 0)" for u
    using same [of u] by (auto simp: at c_def)
  have f: "begin_sn w1 = begin_sn w" "end_sn w1 = end_sn w" "sw_size w1 = N" "calc_idx w1 = calc_idx w"
    by (simp_all add: w1_def N_def)
  have b: "\<not> r < begin_sn w - N" "sw_is_inited w" using inv r by (auto simp: sw_inv_def N_def)
  have e: "sw_revert d0 r w = (OB_SUCCESS, if c = 0 then revert_loop d0 (calc_idx w r) r w1 else w1)"
    using b r c by (auto simp: sw_revert_def sw_revert_ref_def N_def [symmetric] Let_def w1_def c_def sw_at_def)
  show ?thesis
  proof (cases "c = 0 \<and> r = end_sn w - N")
    case True
    then have "calc_idx w r = calc_idx w1 (end_sn w1)" using sw_pre_idx(1) [OF p] by (simp add: f N_def)
    then show ?thesis
      using revert_loop_spec [OF p1, of "calc_idx w r" r d0] True e refs at f by (auto simp: N_def Let_def)
  next
    case False
    have "sw_inv w1 \<and> (c = 0 \<longrightarrow> revert_loop d0 (calc_idx w r) r w1 = w1)"
    proof (cases "c = 0")
      case T: True
      then have ne: "r mod N \<noteq> end_sn w mod N"
        using False r N same_slot_iff [of N r "end_sn w - N"] by (auto simp: N_def)
      then have "calc_idx w r \<noteq> calc_idx w1 (end_sn w1)" using sw_pre_idx(1) [OF p] by (simp add: f N_def)
      then have "revert_loop d0 (calc_idx w r) r w1 = w1" by (subst revert_loop.simps) simp
      moreover have "sw_inv w1" using p1 inv ne by (auto simp: sw_inv_pre f at N_def)
      ultimately show ?thesis by simp
    next
      case F: False
      then show ?thesis using p1 inv c same [of "end_sn w"] by (auto simp: sw_inv_pre f at N_def)
    qed
    then show ?thesis using e refs at f by (auto simp: N_def)
  qed
qed

lemma slide_one_spec:
  assumes inv: "sw_inv w" and ne: "begin_sn w < end_sn w"
  shows "case slide_one d0 w of w' \<Rightarrow> sw_inv w' \<and> begin_sn w' = begin_sn w + 1 \<and> sw_size w' = sw_size w
    \<and> end_sn w' = (if end_sn w = begin_sn w + sw_size w \<and> slot_ref (sw_at w (begin_sn w)) = 0 then end_sn w + 1 else end_sn w)
    \<and> (\<forall>u. slot_ref (sw_at w' u) = slot_ref (sw_at w u))
    \<and> (end_sn w' = end_sn w + 1 \<longrightarrow> sw_at w' (end_sn w) = \<lparr> slot_ref = 0, slot_data = d0 \<rparr>)
    \<and> (\<forall>u. begin_sn w < u \<and> u < end_sn w \<longrightarrow> sw_at w' u = sw_at w u)"
proof -
  have p: "sw_pre w" using inv by (simp add: sw_inv_pre)
  define N where "N = sw_size w"
  define w1 where "w1 = w \<lparr> begin_sn := begin_sn w + 1 \<rparr>"
  have N: "1 < N" using sw_pre_idx(4) [OF p] by (simp add: N_def)
  have b: "begin_sn w \<le> end_sn w" "end_sn w \<le> begin_sn w + N" "0 \<le> begin_sn w" using p by (simp_all add: sw_pre_def N_def)
  have p1: "sw_pre w1" using p ne b by (auto simp: sw_pre_def w1_def)
  have f: "begin_sn w1 = begin_sn w + 1" "end_sn w1 = end_sn w" "sw_size w1 = N" "calc_idx w1 = calc_idx w" "sw_at w1 = sw_at w"
    by (simp_all add: w1_def N_def)
  have full: "calc_idx w (end_sn w) = calc_idx w (begin_sn w) \<longleftrightarrow> end_sn w = begin_sn w + N"
  proof -
    have "end_sn w mod N = begin_sn w mod N \<longleftrightarrow> end_sn w = begin_sn w + N"
      using ne b N same_slot_iff [of N "end_sn w" "begin_sn w + N"] by auto
    then show ?thesis using sw_pre_idx(1) [OF p] by (simp add: N_def)
  qed
  show ?thesis
  proof (cases "slot_ref (sw_at w (begin_sn w)) = 0 \<and> end_sn w = begin_sn w + N")
    case True
    define w2 where "w2 = sw_set_data (calc_idx w (begin_sn w)) d0 w1"
    have s: "slide_one d0 w = w2 \<lparr> end_sn := end_sn w + 1 \<rparr>"
      using True full by (simp add: slide_one_def Let_def w1_def w2_def sw_at_def)
    have p2: "sw_pre w2" using sw_pre_set(2) [OF p1] by (simp add: w2_def w1_def)
    have at: "sw_at w2 u = (if begin_sn w mod N = u mod N then (sw_at w u) \<lparr> slot_data := d0 \<rparr> else sw_at w u)" for u
      using sw_at_set_data [OF p1, of "begin_sn w" d0 u] by (simp add: w2_def f)
    have r0: "slot_ref (sw_at w (end_sn w)) = 0" using True full by (simp add: sw_at_def)
    have "sw_at w2 (end_sn w) = \<lparr> slot_ref = 0, slot_data = d0 \<rparr>" using True r0 by (simp add: at)
    moreover have "sw_at w2 u = sw_at w u" if "begin_sn w < u" "u < end_sn w" for u
      using that True N same_slot_iff [of N "begin_sn w" u] by (auto simp: at)
    moreover have "sw_pre (w2 \<lparr> end_sn := end_sn w + 1 \<rparr>)"
      using sw_pre_set(3) [OF p2] True N f by (simp add: w2_def)
    ultimately show ?thesis using True f by (auto simp: s sw_inv_pre w2_def at [unfolded w2_def] N_def)
  next
    case False
    then have "slide_one d0 w = w1" using full by (auto simp: slide_one_def Let_def w1_def sw_at_def)
    moreover have "0 < slot_ref (sw_at w (end_sn w))"
    proof (cases "end_sn w = begin_sn w + N")
      case True
      then show ?thesis using False full sw_ref_nonneg [OF p, of "begin_sn w"] by (auto simp: sw_at_def)
    qed (use inv b in \<open>auto simp: sw_inv_pre N_def\<close>)
    ultimately show ?thesis using False p1 f by (auto simp: sw_inv_pre N_def)
  qed
qed

text \<open>
  What a slide does, for slots that are not slidable when reset: the slid ids are the ids from
  \<^verbatim>\<open>begin_sn_\<close> on, each was slidable and its callback succeeded, and the slide stops at the end of
  the window, at the first id that is not slidable or whose callback fails, or at its timeout.
\<close>

definition slide_ok ::
  "'d \<Rightarrow> ('d \<Rightarrow> bool) \<Rightarrow> (int \<Rightarrow> 'd \<Rightarrow> ob_ret) \<Rightarrow> nat \<Rightarrow> 'd FixedSlidingWindow \<Rightarrow> ob_ret \<times> int list \<times> 'd FixedSlidingWindow \<Rightarrow> bool" where
  "slide_ok d0 slidable cb n w r \<longleftrightarrow> (case r of (ret, ids, w') \<Rightarrow>
     sw_inv w' \<and> sw_size w' = sw_size w \<and> end_sn w \<le> end_sn w' \<and> begin_sn w' \<le> end_sn w
     \<and> ids = [begin_sn w .. begin_sn w' - 1] \<and> begin_sn w \<le> begin_sn w'
     \<and> (\<forall>u. slot_ref (sw_at w' u) = slot_ref (sw_at w u))
     \<and> (\<forall>u\<in>set ids. slidable (slot_data (sw_at w u)) \<and> cb u (slot_data (sw_at w u)) = OB_SUCCESS)
     \<and> (\<forall>u. begin_sn w' \<le> u \<and> u < end_sn w \<longrightarrow> sw_at w' u = sw_at w u)
     \<and> (\<forall>u. end_sn w \<le> u \<and> u < end_sn w' \<longrightarrow> sw_at w' u = \<lparr> slot_ref = 0, slot_data = d0 \<rparr>)
     \<and> length ids \<le> n
     \<and> (if ret = OB_SUCCESS
        then begin_sn w' = end_sn w \<or> \<not> slidable (slot_data (sw_at w (begin_sn w'))) \<or> n \<le> length ids
        else length ids < n \<and> begin_sn w' < end_sn w \<and> slidable (slot_data (sw_at w (begin_sn w')))
          \<and> ret = cb (begin_sn w') (slot_data (sw_at w (begin_sn w')))))"

lemma slide_loop_empty:
  "end_sn w \<le> begin_sn w \<Longrightarrow> slide_loop d0 slidable cb n w = (OB_SUCCESS, [], w)"
  by (induction n) simp_all

lemma slide_loop_spec:
  assumes "\<not> slidable d0"
  shows "sw_inv w \<Longrightarrow> slide_ok d0 slidable cb n w (slide_loop d0 slidable cb n w)"
proof (induction n arbitrary: w)
  case 0
  then show ?case by (auto simp: slide_ok_def sw_inv_def)
next
  case (Suc n)
  define d where "d = slot_data (sw_at w (begin_sn w))"
  have d: "slot_data (sw_slot_at w (calc_idx w (begin_sn w))) = d" by (simp add: d_def sw_at_def)
  have le: "begin_sn w \<le> end_sn w" using Suc.prems by (simp add: sw_inv_def)
  consider "end_sn w \<le> begin_sn w" | "begin_sn w < end_sn w" "\<not> slidable d"
    | "begin_sn w < end_sn w" "slidable d" "cb (begin_sn w) d \<noteq> OB_SUCCESS"
    | "begin_sn w < end_sn w" "slidable d" "cb (begin_sn w) d = OB_SUCCESS" by linarith
  then show ?case
  proof cases
    case 1
    then have "begin_sn w = end_sn w" using le by simp
    then show ?thesis using Suc.prems slide_loop_empty [OF 1] by (auto simp: slide_ok_def)
  next
    case 2
    then have "slide_loop d0 slidable cb (Suc n) w = (OB_SUCCESS, [], w)" by (simp add: d Let_def)
    then show ?thesis using Suc.prems 2 le by (auto simp: slide_ok_def d_def)
  next
    case 3
    then have "slide_loop d0 slidable cb (Suc n) w = (cb (begin_sn w) d, [], w)" by (simp add: d Let_def)
    then show ?thesis using Suc.prems 3 le by (auto simp: slide_ok_def d_def)
  next
    case 4
    define w1 where "w1 = slide_one d0 w"
    obtain ret ids w' where r: "slide_loop d0 slidable cb n w1 = (ret, ids, w')" by (metis prod_cases3)
    have u: "slide_loop d0 slidable cb (Suc n) w = (ret, begin_sn w # ids, w')"
      using 4 r by (simp add: d Let_def w1_def)
    have s: "sw_inv w1 \<and> begin_sn w1 = begin_sn w + 1 \<and> sw_size w1 = sw_size w
      \<and> end_sn w1 = (if end_sn w = begin_sn w + sw_size w \<and> slot_ref (sw_at w (begin_sn w)) = 0 then end_sn w + 1 else end_sn w)
      \<and> (\<forall>u. slot_ref (sw_at w1 u) = slot_ref (sw_at w u))
      \<and> (end_sn w1 = end_sn w + 1 \<longrightarrow> sw_at w1 (end_sn w) = \<lparr> slot_ref = 0, slot_data = d0 \<rparr>)
      \<and> (\<forall>u. begin_sn w < u \<and> u < end_sn w \<longrightarrow> sw_at w1 u = sw_at w u)"
      using slide_one_spec [OF Suc.prems 4(1), of d0] by (simp add: w1_def)
    have IH: "slide_ok d0 slidable cb n w1 (ret, ids, w')" using Suc.IH [of w1] s r by simp
    have lt: "begin_sn w' \<le> end_sn w"
    proof (rule ccontr)
      assume c: "\<not> begin_sn w' \<le> end_sn w"
      then have e: "end_sn w1 = end_sn w + 1" using IH s by (auto simp: slide_ok_def split: if_splits)
      then have "end_sn w \<in> set ids" using c IH s 4(1) by (auto simp: slide_ok_def)
      then have "slidable (slot_data (sw_at w1 (end_sn w)))" using IH by (auto simp: slide_ok_def)
      then show False using s e assms by simp
    qed
    have stop: "begin_sn w' = end_sn w \<or> \<not> slidable (slot_data (sw_at w (begin_sn w'))) \<or> Suc n \<le> length (begin_sn w # ids)"
      if "ret = OB_SUCCESS"
    proof (cases "begin_sn w' = end_sn w")
      case False
      then have "begin_sn w < begin_sn w'" "begin_sn w' < end_sn w" using lt IH s by (auto simp: slide_ok_def)
      then show ?thesis using IH s that by (auto simp: slide_ok_def split: if_splits)
    qed simp
    have err: "begin_sn w' < end_sn w \<and> slidable (slot_data (sw_at w (begin_sn w')))
        \<and> ret = cb (begin_sn w') (slot_data (sw_at w (begin_sn w')))" if "ret \<noteq> OB_SUCCESS"
    proof -
      have x: "begin_sn w' < end_sn w1" "slidable (slot_data (sw_at w1 (begin_sn w')))"
        "ret = cb (begin_sn w') (slot_data (sw_at w1 (begin_sn w')))" "begin_sn w < begin_sn w'"
        using IH s that by (auto simp: slide_ok_def)
      have "begin_sn w' \<noteq> end_sn w"
      proof
        assume "begin_sn w' = end_sn w"
        then show False using x(1,2) s assms by (auto split: if_splits)
      qed
      then have "begin_sn w' < end_sn w" using lt by simp
      then show ?thesis using x s by auto
    qed
    have ids: "begin_sn w # ids = [begin_sn w .. begin_sn w' - 1]" "begin_sn w < begin_sn w'"
    proof -
      show b: "begin_sn w < begin_sn w'" using IH s by (auto simp: slide_ok_def)
      show "begin_sn w # ids = [begin_sn w .. begin_sn w' - 1]"
        using IH s upto_rec1 [of "begin_sn w" "begin_sn w' - 1"] b by (simp add: slide_ok_def)
    qed
    have each: "\<forall>u\<in>set (begin_sn w # ids). slidable (slot_data (sw_at w u)) \<and> cb u (slot_data (sw_at w u)) = OB_SUCCESS"
    proof
      fix v assume "v \<in> set (begin_sn w # ids)"
      then consider "v = begin_sn w" | "v \<in> set ids" by auto
      then show "slidable (slot_data (sw_at w v)) \<and> cb v (slot_data (sw_at w v)) = OB_SUCCESS"
      proof cases
        case 2
        then have "begin_sn w < v" "v < end_sn w" using IH s lt by (auto simp: slide_ok_def)
        then have "sw_at w1 v = sw_at w v" using s by simp
        moreover have "slidable (slot_data (sw_at w1 v)) \<and> cb v (slot_data (sw_at w1 v)) = OB_SUCCESS"
          using IH 2 by (simp add: slide_ok_def)
        ultimately show ?thesis by simp
      qed (use 4 in \<open>simp add: d_def\<close>)
    qed
    have rest: "\<forall>u. begin_sn w' \<le> u \<and> u < end_sn w \<longrightarrow> sw_at w' u = sw_at w u"
      using IH s ids(2) by (auto simp: slide_ok_def split: if_splits)
    have reset: "sw_at w' u = \<lparr> slot_ref = 0, slot_data = d0 \<rparr>" if "end_sn w \<le> u" "u < end_sn w'" for u
    proof (cases "u < end_sn w1")
      case True
      then have "u = end_sn w" "end_sn w1 = end_sn w + 1" using that s by (auto split: if_splits)
      then show ?thesis using IH s lt by (auto simp: slide_ok_def)
    qed (use IH that in \<open>auto simp: slide_ok_def\<close>)
    have len: "length (begin_sn w # ids) \<le> Suc n" "ret \<noteq> OB_SUCCESS \<Longrightarrow> length (begin_sn w # ids) < Suc n"
      using IH by (auto simp: slide_ok_def)
    show ?thesis unfolding u slide_ok_def prod.case
      using IH s lt ids each rest reset stop err len by (auto simp: slide_ok_def split: if_splits)
  qed
qed



lemma range_truncate_spec:
  "sw_pre w \<Longrightarrow> range_truncate d0 i e w = Some (ret, w') \<Longrightarrow>
   ret = OB_SUCCESS \<and> sw_pre w' \<and> begin_sn w' = begin_sn w \<and> end_sn w' = end_sn w \<and> sw_size w' = sw_size w
   \<and> (\<forall>u. slot_ref (sw_at w' u) = slot_ref (sw_at w u))
   \<and> (\<forall>u. i \<le> u \<and> u < e \<longrightarrow> sw_at w' u = \<lparr> slot_ref = 0, slot_data = d0 \<rparr>)
   \<and> (\<forall>u. e - sw_size w \<le> u \<and> u < i \<longrightarrow> sw_at w' u = sw_at w u)"
proof (induction d0 i e w rule: range_truncate.induct)
  case (1 d0 i e w)
  have ini: "sw_is_inited w" using "1.prems"(1) by (simp add: sw_pre_def)
  define N where "N = sw_size w"
  have N: "1 < N" using sw_pre_idx(4) [OF "1.prems"(1)] by (simp add: N_def)
  show ?case
  proof (cases "i < e")
    case True
    define w1 where "w1 = sw_set_data (calc_idx w i) d0 w"
    have r: "slot_ref (sw_at w i) = 0" "range_truncate d0 (i + 1) e w1 = Some (ret, w')"
      using "1.prems"(2) True ini by (auto simp: range_truncate.simps [of d0 i e w] Let_def sw_at_def w1_def split: if_splits)
    have p1: "sw_pre w1" using sw_pre_set(2) [OF "1.prems"(1)] by (simp add: w1_def)
    have at: "sw_at w1 u = (if i mod N = u mod N then (sw_at w u) \<lparr> slot_data := d0 \<rparr> else sw_at w u)" for u
      using sw_at_set_data [OF "1.prems"(1)] by (simp add: w1_def N_def)
    have f: "begin_sn w1 = begin_sn w" "end_sn w1 = end_sn w" "sw_size w1 = N" by (simp_all add: w1_def N_def)
    have IH: "ret = OB_SUCCESS \<and> sw_pre w' \<and> begin_sn w' = begin_sn w1 \<and> end_sn w' = end_sn w1 \<and> sw_size w' = sw_size w1
      \<and> (\<forall>u. slot_ref (sw_at w' u) = slot_ref (sw_at w1 u))
      \<and> (\<forall>u. i + 1 \<le> u \<and> u < e \<longrightarrow> sw_at w' u = \<lparr> slot_ref = 0, slot_data = d0 \<rparr>)
      \<and> (\<forall>u. e - sw_size w1 \<le> u \<and> u < i + 1 \<longrightarrow> sw_at w' u = sw_at w1 u)"
      using "1.IH" [OF _ True refl, folded w1_def] ini r p1 by (simp add: sw_at_def)
    have fresh: "sw_at w1 i = \<lparr> slot_ref = 0, slot_data = d0 \<rparr>" using r(1) by (simp add: at)
    have "sw_at w' u = \<lparr> slot_ref = 0, slot_data = d0 \<rparr>" if "i \<le> u" "u < e" for u
    proof (cases "u = i")
      case True
      show ?thesis
      proof (cases "e - N \<le> i")
        case False
        then have "i + 1 \<le> i + N \<and> i + N < e" using N by simp
        then have "sw_at w' (i + N) = \<lparr> slot_ref = 0, slot_data = d0 \<rparr>" using IH by blast
        moreover have "sw_at w' (i + N) = sw_at w' i"
          using IH sw_pre_idx(1) [of w'] f by (simp add: sw_at_def)
        ultimately show ?thesis using True by simp
      qed (use IH f fresh True in auto)
    qed (use IH that in auto)
    moreover have "sw_at w' u = sw_at w u" if "e - N \<le> u" "u < i" for u
      using that IH f True N same_slot_iff [of N i u] by (auto simp: at)
    ultimately show ?thesis using IH f by (auto simp: at N_def)
  qed (use "1.prems" ini in \<open>auto simp: range_truncate.simps [of d0 i e w]\<close>)
qed

subsection \<open>Histories\<close>

text \<open>
  The steps of the window's clients: references are taken and given back by who holds them, slots
  are written through a held reference, and the window slides and is truncated.
\<close>

inductive sw_step :: "'d \<Rightarrow> ('d \<Rightarrow> bool) \<Rightarrow> (int \<Rightarrow> 'd \<Rightarrow> ob_ret) \<Rightarrow> 'd FixedSlidingWindow \<Rightarrow> 'd FixedSlidingWindow \<Rightarrow> bool"
  for d0 :: 'd and slidable :: "'d \<Rightarrow> bool" and cb :: "int \<Rightarrow> 'd \<Rightarrow> ob_ret"
where
  get: "sw_get d0 g w = (ret, p, w') \<Longrightarrow> sw_step d0 slidable cb w w'"
| revert: "sw_revert d0 r w = (ret, w') \<Longrightarrow> end_sn w - sw_size w \<le> r \<Longrightarrow> r < end_sn w \<Longrightarrow>
    0 < slot_ref (sw_at w r) \<Longrightarrow> sw_step d0 slidable cb w w'"
| put: "0 < slot_ref (sw_at w u) \<Longrightarrow> sw_step d0 slidable cb w (sw_set_data (calc_idx w u) d w)"
| slide: "sw_slide d0 slidable cb got_lock n w = (ret, ids, w') \<Longrightarrow> sw_step d0 slidable cb w w'"
| truncate: "sw_truncate d0 t w = Some (ret, w') \<Longrightarrow> sw_step d0 slidable cb w w'"
| forward: "truncate_and_reset_begin_sn d0 t w = Some (ret, w') \<Longrightarrow> sw_step d0 slidable cb w w'"

inductive sw_reach :: "'d \<Rightarrow> ('d \<Rightarrow> bool) \<Rightarrow> (int \<Rightarrow> 'd \<Rightarrow> ob_ret) \<Rightarrow> 'd FixedSlidingWindow \<Rightarrow> bool"
  for d0 :: 'd and slidable :: "'d \<Rightarrow> bool" and cb :: "int \<Rightarrow> 'd \<Rightarrow> ob_ret"
where
  start: "sw_init d0 mgr mem st sz sw_new = (OB_SUCCESS, w) \<Longrightarrow> sw_reach d0 slidable cb w"
| step: "sw_reach d0 slidable cb w \<Longrightarrow> sw_step d0 slidable cb w w' \<Longrightarrow> sw_reach d0 slidable cb w'"

lemma sw_truncate_inv:
  assumes "sw_inv w" "sw_truncate d0 t w = Some (ret, w')"
  shows "sw_inv w'"
proof -
  have i: "sw_is_inited w" "sw_pre w" using assms(1) by (simp_all add: sw_inv_pre sw_pre_def)
  show ?thesis
  proof (cases "check_id_in_range w t = OB_SUCCESS")
    case True
    then have "range_truncate d0 t (end_sn w) w = Some (ret, w')" using assms(2) i by (simp add: sw_truncate_def Let_def)
    from range_truncate_spec [OF i(2) this] show ?thesis using assms(1) by (simp add: sw_inv_pre)
  qed (use assms i in \<open>auto simp: sw_truncate_def Let_def\<close>)
qed

lemma sw_forward_inv:
  assumes "sw_inv w" "truncate_and_reset_begin_sn d0 t w = Some (ret, w')"
  shows "sw_inv w'"
proof -
  have i: "sw_is_inited w" "sw_pre w" "0 \<le> begin_sn w" using assms(1) by (simp_all add: sw_inv_pre sw_pre_def)
  show ?thesis
  proof (cases "t < begin_sn w \<or> calc_idx w (begin_sn w) \<noteq> calc_idx w (end_sn w)")
    case False
    define e where "e = (if check_id_in_range w t \<noteq> OB_SUCCESS then end_sn w else t)"
    from False assms(2) i obtain r v where v: "range_truncate d0 (begin_sn w) e w = Some (r, v)"
      by (auto simp: truncate_and_reset_begin_sn_def Let_def e_def split: option.splits)
    note s = range_truncate_spec [OF i(2) v]
    have "w' = v \<lparr> begin_sn := t, end_sn := t + sw_size v \<rparr>"
      using False assms(2) i v s by (auto simp: truncate_and_reset_begin_sn_def Let_def e_def)
    then show ?thesis using s False i(3) sw_pre_idx(4) [OF i(2)] by (auto simp: sw_inv_pre sw_pre_def)
  qed (use assms i in \<open>auto simp: truncate_and_reset_begin_sn_def split: if_splits\<close>)
qed

lemma sw_write_inv:
  assumes "sw_inv w"
  shows "sw_inv (sw_set_data (calc_idx w u) d w)"
  using assms sw_pre_set(2) [of w u d] sw_at_set_data [of w u d] by (auto simp: sw_inv_pre)

lemma sw_step_inv:
  assumes "sw_step d0 slidable cb w w'" "sw_inv w" "\<not> slidable d0"
  shows "sw_inv w'"
  using assms(1)
proof cases
  case (get g ret p)
  then show ?thesis using sw_get_eq [OF assms(2)] assms(2) sw_ref_inv [OF assms(2), of g "slot_ref (sw_at w g) + 1"]
    by (auto split: if_splits)
next
  case (revert r ret)
  then show ?thesis using sw_revert_held [OF assms(2), of r d0] by auto
next
  case (put u d)
  then show ?thesis using sw_write_inv [OF assms(2)] by simp
next
  case (slide got_lock n ret ids)
  then show ?thesis using slide_loop_spec [of slidable, OF assms(3,2), of cb n] assms(2)
    by (auto simp: sw_slide_def slide_ok_def split: if_splits)
next
  case (truncate t ret)
  then show ?thesis using sw_truncate_inv [OF assms(2)] by blast
next
  case (forward t ret)
  then show ?thesis using sw_forward_inv [OF assms(2)] by blast
qed

lemma sw_reach_inv: "sw_reach d0 slidable cb w \<Longrightarrow> \<not> slidable d0 \<Longrightarrow> sw_inv w"
proof (induction rule: sw_reach.induct)
  case (start mgr mem st sz w)
  then show ?case using sw_init_inv [OF start.hyps] by blast
next
  case (step w w')
  then show ?case using sw_step_inv [of d0 slidable cb w w'] by simp
qed

subsection \<open>Properties\<close>

text \<open>
  C13. Over every history of gets, reverts, writes, slides and truncations the window stays
  within its array, \<open>begin_sn \<le> end_sn \<le> begin_sn + size\<close>, no reference count goes negative, and no
  capacity is lost: as soon as no slot is referenced the window is full size again, since
  \<^verbatim>\<open>end_sn_\<close> lags only behind a slot that is still referenced. Ids in the window have slots of
  their own.
\<close>

theorem sw_capacity_recovered:
  assumes "sw_reach d0 slidable cb w" "\<not> slidable d0"
  shows "begin_sn w \<le> end_sn w \<and> end_sn w \<le> begin_sn w + sw_size w \<and> 0 \<le> slot_ref (sw_at w u)
    \<and> (end_sn w = begin_sn w + sw_size w \<or> 0 < slot_ref (sw_at w (end_sn w)))
    \<and> (begin_sn w \<le> g \<and> g < end_sn w \<and> begin_sn w \<le> h \<and> h < end_sn w \<and> calc_idx w g = calc_idx w h \<longrightarrow> g = h)"
proof -
  note i = sw_reach_inv [OF assms]
  have p: "sw_pre w" using i by (simp add: sw_inv_pre)
  have "g = h" if "begin_sn w \<le> g" "g < end_sn w" "begin_sn w \<le> h" "h < end_sn w" "calc_idx w g = calc_idx w h"
    using that i sw_pre_idx(1,4) [OF p] same_slot_iff [of "sw_size w" g h] by (auto simp: sw_inv_def)
  then show ?thesis using i sw_ref_nonneg [OF p] by (auto simp: sw_inv_pre sw_pre_def)
qed

text \<open>A window of two slots from id 1 on; slots hold a number, and positive ones are slidable.\<close>

definition sw_example :: "nat FixedSlidingWindow" where
  "sw_example = snd (sw_init 0 True True 1 2 sw_new)"

definition sw_example_held :: "nat FixedSlidingWindow" where
  "sw_example_held =
     (case sw_get 0 1 sw_example of (_, _, w1) \<Rightarrow>
      case sw_get 0 2 (sw_set_data (calc_idx w1 1) 7 w1) of (_, _, w2) \<Rightarrow>
      case sw_revert 0 2 (sw_set_data (calc_idx w2 2) 8 w2) of (_, w3) \<Rightarrow>
      snd (snd (sw_slide 0 (\<lambda>d. 0 < d) (\<lambda>sn d. OB_SUCCESS) True 3 w3)))"

lemma sw_example_facts:
  "sw_init 0 True True 1 2 sw_new = (OB_SUCCESS, sw_example)"
  "begin_sn sw_example_held = 3" "end_sn sw_example_held = 3" "slot_ref (sw_at sw_example_held 1) = 1"
  "slot_data (sw_at sw_example_held 1) = 7" "sw_size sw_example_held = 2"
  by code_simp+

lemma sw_example_reach: "sw_reach 0 (\<lambda>d. 0 < d) (\<lambda>sn d. OB_SUCCESS) sw_example"
  using sw_example_facts(1) by (rule sw_reach.start)

lemma sw_example_held_reach: "sw_reach 0 (\<lambda>d. 0 < d) (\<lambda>sn d. OB_SUCCESS) sw_example_held"
proof -
  define w1 where "w1 = snd (snd (sw_get 0 1 sw_example))"
  define w1' where "w1' = sw_set_data (calc_idx w1 1) 7 w1"
  define w2 where "w2 = snd (snd (sw_get 0 2 w1'))"
  define w2' where "w2' = sw_set_data (calc_idx w2 2) 8 w2"
  define w3 where "w3 = snd (sw_revert 0 2 w2')"
  note defs = w1_def w1'_def w2_def w2'_def w3_def
  let ?reach = "sw_reach 0 (\<lambda>d. 0 < d) (\<lambda>sn d. OB_SUCCESS)"
  have r1: "?reach w1" using sw_example_reach sw_step.get [of 0 1 sw_example "fst (sw_get 0 1 sw_example)"
      "fst (snd (sw_get 0 1 sw_example))" w1] by (auto simp: w1_def intro: sw_reach.step)
  have "0 < slot_ref (sw_at w1 1)" unfolding defs by code_simp
  then have r1': "?reach w1'" unfolding w1'_def by (rule sw_reach.step [OF r1 sw_step.put])
  have r2: "?reach w2" using r1' sw_step.get [of 0 2 w1' "fst (sw_get 0 2 w1')"
      "fst (snd (sw_get 0 2 w1'))" w2] by (auto simp: w2_def intro: sw_reach.step)
  have "0 < slot_ref (sw_at w2 2)" unfolding defs by code_simp
  then have r2': "?reach w2'" unfolding w2'_def by (rule sw_reach.step [OF r2 sw_step.put])
  have "end_sn w2' - sw_size w2' \<le> 2" "2 < end_sn w2'" "0 < slot_ref (sw_at w2' 2)" unfolding defs by code_simp+
  then have r3: "?reach w3" using r2' sw_step.revert [of 0 2 w2' "fst (sw_revert 0 2 w2')" w3]
    by (auto simp: w3_def intro: sw_reach.step)
  have e: "sw_example_held = snd (snd (sw_slide 0 (\<lambda>d. 0 < d) (\<lambda>sn d. OB_SUCCESS) True 3 w3))"
    by (simp add: sw_example_held_def defs split_beta)
  show ?thesis using r3 sw_step.slide [of 0 "\<lambda>d. 0 < d" "\<lambda>sn d. OB_SUCCESS" True 3 w3
      "fst (sw_slide 0 (\<lambda>d. 0 < d) (\<lambda>sn d. OB_SUCCESS) True 3 w3)"
      "fst (snd (sw_slide 0 (\<lambda>d. 0 < d) (\<lambda>sn d. OB_SUCCESS) True 3 w3))" sw_example_held]
    by (auto simp: e intro: sw_reach.step)
qed

theorem sw_capacity_recovered_witness:
  "sw_reach 0 (\<lambda>d. 0 < d) (\<lambda>sn d. OB_SUCCESS) sw_example_held \<and> \<not> 0 < (0 :: nat)
   \<and> 0 < slot_ref (sw_at sw_example_held (end_sn sw_example_held))"
  using sw_capacity_recovered [OF sw_example_held_reach] sw_example_held_reach sw_example_facts(2,3,6) by simp

text \<open>Taking a reference and giving it back at once changes nothing in the window.\<close>

lemma sw_get_then_revert:
  assumes "sw_inv w" "begin_sn w \<le> g" "g < end_sn w"
  shows "\<exists>w1. sw_get d0 g w = (OB_SUCCESS, Some (calc_idx w g), w1) \<and> sw_inv w1
    \<and> (\<forall>u. sw_at w1 u = (if calc_idx w u = calc_idx w g then (sw_at w u) \<lparr> slot_ref := slot_ref (sw_at w u) + 1 \<rparr> else sw_at w u))
    \<and> (\<exists>w2. sw_revert d0 g w1 = (OB_SUCCESS, w2) \<and> sw_inv w2 \<and> begin_sn w2 = begin_sn w \<and> end_sn w2 = end_sn w
        \<and> (\<forall>u. begin_sn w \<le> u \<and> u < end_sn w \<longrightarrow> sw_at w2 u = sw_at w u))"
proof -
  have p: "sw_pre w" using assms(1) by (simp add: sw_inv_pre)
  define r where "r = slot_ref (sw_at w g) + 1"
  define w1 where "w1 = sw_set_ref (calc_idx w g) r w"
  have i1: "sw_inv w1" using sw_ref_inv [OF assms(1), of g r] by (simp add: w1_def r_def)
  have f: "begin_sn w1 = begin_sn w" "end_sn w1 = end_sn w" "sw_size w1 = sw_size w" by (simp_all add: w1_def)
  have same: "slot_ref (sw_at w u) = slot_ref (sw_at w g)" if "u mod sw_size w = g mod sw_size w" for u
    using that sw_pre_idx(1) [OF p] by (simp add: sw_at_def)
  have at: "sw_at w1 u = (if u mod sw_size w = g mod sw_size w then (sw_at w u) \<lparr> slot_ref := slot_ref (sw_at w u) + 1 \<rparr> else sw_at w u)" for u
    using sw_at_set_ref [OF p, of g r u] same [of u] by (auto simp: w1_def r_def)
  have "end_sn w1 - sw_size w1 \<le> g" "g < end_sn w1" "0 < slot_ref (sw_at w1 g)"
    using assms p sw_ref_nonneg [OF p, of g] by (auto simp: f at sw_pre_def)
  from sw_revert_held [OF i1 this, of d0] obtain w2 where w2: "sw_revert d0 g w1 = (OB_SUCCESS, w2)" "sw_inv w2"
    "begin_sn w2 = begin_sn w" "sw_size w2 = sw_size w" "end_sn w \<le> end_sn w2"
    "\<forall>u. slot_ref (sw_at w2 u) = slot_ref (sw_at w1 u) - (if u mod sw_size w = g mod sw_size w then 1 else 0)"
    "\<forall>u. end_sn w \<le> u \<and> u < end_sn w2 \<longrightarrow> sw_at w2 u = \<lparr> slot_ref = 0, slot_data = d0 \<rparr>"
    "\<forall>u. end_sn w2 - sw_size w \<le> u \<and> u < end_sn w \<longrightarrow> slot_data (sw_at w2 u) = slot_data (sw_at w1 u)"
    by (auto simp: f)
  have refs: "slot_ref (sw_at w2 u) = slot_ref (sw_at w u)" for u using w2(6) by (simp add: at)
  have e: "end_sn w2 = end_sn w"
  proof (rule ccontr)
    assume c: "end_sn w2 \<noteq> end_sn w"
    then have "slot_ref (sw_at w (end_sn w)) = 0" using w2(5,7) refs [of "end_sn w"] by simp
    moreover have "end_sn w < begin_sn w + sw_size w" using c w2(2-5) by (auto simp: sw_inv_def)
    ultimately show False using assms(1) by (simp add: sw_inv_pre)
  qed
  have "sw_at w2 u = sw_at w u" if "begin_sn w \<le> u" "u < end_sn w" for u
  proof -
    have "slot_data (sw_at w2 u) = slot_data (sw_at w1 u)" using w2(8) that e p by (auto simp: sw_pre_def)
    then show ?thesis using refs [of u] by (simp add: at)
  qed
  then show ?thesis
    using sw_get_eq [OF assms(1), of d0 g] assms i1 at w2(1-3) e sw_pre_idx(1) [OF p]
    by (auto simp: w1_def r_def)
qed

text \<open>
  C16. \<^verbatim>\<open>get\<close> answers exactly by the range of the id: ids below and above the window are refused with
  the two codes and change nothing, and for an id of the window exactly the count of its slot is raised. A
  reference given back at once leaves the window as it was. A reference held while the window moved on
  is given back by \<^verbatim>\<open>revert\<close>, which lowers exactly this count, leaves the data of all
  slots of the window alone, and moves \<^verbatim>\<open>end_sn_\<close> on: up to the full width of the window or to the next
  slot that is still referenced, over slots that are each reset.
\<close>

theorem sw_get_revert_exact:
  assumes "sw_inv w"
  shows "(g < begin_sn w \<longrightarrow> sw_get d0 g w = (OB_ERR_OUT_OF_LOWER_BOUND, None, w))
    \<and> (end_sn w \<le> g \<longrightarrow> sw_get d0 g w = (OB_ERR_OUT_OF_UPPER_BOUND, None, w))
    \<and> (begin_sn w \<le> g \<and> g < end_sn w \<longrightarrow> (\<exists>w1. sw_get d0 g w = (OB_SUCCESS, Some (calc_idx w g), w1) \<and> sw_inv w1
        \<and> (\<forall>u. sw_at w1 u = (if calc_idx w u = calc_idx w g then (sw_at w u) \<lparr> slot_ref := slot_ref (sw_at w u) + 1 \<rparr> else sw_at w u))
        \<and> (\<exists>w2. sw_revert d0 g w1 = (OB_SUCCESS, w2) \<and> sw_inv w2 \<and> begin_sn w2 = begin_sn w \<and> end_sn w2 = end_sn w
            \<and> (\<forall>u. begin_sn w \<le> u \<and> u < end_sn w \<longrightarrow> sw_at w2 u = sw_at w u))))
    \<and> (end_sn w - sw_size w \<le> r \<and> r < end_sn w \<and> 0 < slot_ref (sw_at w r) \<longrightarrow> (\<exists>w'. sw_revert d0 r w = (OB_SUCCESS, w')
        \<and> begin_sn w' = begin_sn w \<and> sw_size w' = sw_size w \<and> end_sn w \<le> end_sn w' \<and> sw_inv w'
        \<and> (\<forall>u. slot_ref (sw_at w' u) = slot_ref (sw_at w u) - of_bool (calc_idx w u = calc_idx w r))
        \<and> (end_sn w' = begin_sn w + sw_size w \<or> 0 < slot_ref (sw_at w' (end_sn w')))
        \<and> (\<forall>u. end_sn w \<le> u \<and> u < end_sn w' \<longrightarrow> sw_at w' u = \<lparr> slot_ref = 0, slot_data = d0 \<rparr>)
        \<and> (\<forall>u. begin_sn w \<le> u \<and> u < end_sn w \<longrightarrow> slot_data (sw_at w' u) = slot_data (sw_at w u))))"
proof (intro conjI impI)
  assume a: "end_sn w - sw_size w \<le> r \<and> r < end_sn w \<and> 0 < slot_ref (sw_at w r)"
  have p: "sw_pre w" using assms by (simp add: sw_inv_pre)
  obtain w' where w': "sw_revert d0 r w = (OB_SUCCESS, w')" "sw_inv w'" "begin_sn w' = begin_sn w" "sw_size w' = sw_size w"
    "end_sn w \<le> end_sn w'"
    "\<forall>u. slot_ref (sw_at w' u) = slot_ref (sw_at w u) - (if u mod sw_size w = r mod sw_size w then 1 else 0)"
    "\<forall>u. end_sn w \<le> u \<and> u < end_sn w' \<longrightarrow> sw_at w' u = \<lparr> slot_ref = 0, slot_data = d0 \<rparr>"
    "\<forall>u. end_sn w' - sw_size w \<le> u \<and> u < end_sn w \<longrightarrow> slot_data (sw_at w' u) = slot_data (sw_at w u)"
    using sw_revert_held [OF assms, of r d0] a by blast
  have e: "end_sn w' \<le> begin_sn w + sw_size w" using w'(2-4) by (simp add: sw_inv_def)
  have "end_sn w' = begin_sn w + sw_size w \<or> 0 < slot_ref (sw_at w' (end_sn w'))"
    using w'(2-4) by (auto simp: sw_inv_pre sw_pre_def)
  then show "\<exists>w'. sw_revert d0 r w = (OB_SUCCESS, w')
        \<and> begin_sn w' = begin_sn w \<and> sw_size w' = sw_size w \<and> end_sn w \<le> end_sn w' \<and> sw_inv w'
        \<and> (\<forall>u. slot_ref (sw_at w' u) = slot_ref (sw_at w u) - of_bool (calc_idx w u = calc_idx w r))
        \<and> (end_sn w' = begin_sn w + sw_size w \<or> 0 < slot_ref (sw_at w' (end_sn w')))
        \<and> (\<forall>u. end_sn w \<le> u \<and> u < end_sn w' \<longrightarrow> sw_at w' u = \<lparr> slot_ref = 0, slot_data = d0 \<rparr>)
        \<and> (\<forall>u. begin_sn w \<le> u \<and> u < end_sn w \<longrightarrow> slot_data (sw_at w' u) = slot_data (sw_at w u))"
    using w' e by (intro exI [of _ w']) (auto simp: sw_pre_idx(1) [OF p])
next
  have "begin_sn w \<le> end_sn w" using assms by (simp add: sw_inv_def)
  then show "g < begin_sn w \<Longrightarrow> sw_get d0 g w = (OB_ERR_OUT_OF_LOWER_BOUND, None, w)"
    "end_sn w \<le> g \<Longrightarrow> sw_get d0 g w = (OB_ERR_OUT_OF_UPPER_BOUND, None, w)"
    by (simp_all add: sw_get_eq [OF assms])
qed (rule sw_get_then_revert [OF assms]; simp)

text \<open>Log 1 is held while the window slides over it and the next log; giving it back admits two ids.\<close>

theorem sw_get_revert_exact_witness:
  "(\<exists>w1 w2. sw_get 0 2 sw_example = (OB_SUCCESS, Some 0, w1) \<and> sw_revert 0 2 w1 = (OB_SUCCESS, w2) \<and> end_sn w2 = 3)
   \<and> sw_get 0 3 sw_example = (OB_ERR_OUT_OF_UPPER_BOUND, None, sw_example)
   \<and> end_sn sw_example_held = 3 \<and> (\<exists>w'. sw_revert 0 1 sw_example_held = (OB_SUCCESS, w') \<and> slot_ref (sw_at w' 1) = 0 \<and> end_sn w' = 5)"
proof -
  have b: "begin_sn sw_example = 1" "end_sn sw_example = 3" "calc_idx sw_example 2 = 0" by code_simp+
  have i: "sw_inv sw_example" "sw_inv sw_example_held" using sw_reach_inv [OF sw_example_reach] sw_reach_inv [OF sw_example_held_reach] by simp_all
  obtain w' where w': "sw_revert 0 1 sw_example_held = (OB_SUCCESS, w')" "begin_sn w' = 3" "sw_inv w'"
    "\<forall>u. slot_ref (sw_at w' u) = slot_ref (sw_at sw_example_held u) - of_bool (calc_idx sw_example_held u = calc_idx sw_example_held 1)"
    "end_sn w' = 5 \<or> 0 < slot_ref (sw_at w' (end_sn w'))" "sw_size w' = 2" "3 \<le> end_sn w'"
    using sw_get_revert_exact [OF i(2), of 0 0 1] sw_example_facts(2-6) by auto
  have r: "slot_ref (sw_at sw_example_held 3) = 1" "slot_ref (sw_at sw_example_held 4) = 0"
    "calc_idx sw_example_held 3 = calc_idx sw_example_held 1" "calc_idx sw_example_held 4 \<noteq> calc_idx sw_example_held 1" by code_simp+
  have "end_sn w' \<le> 5" using w'(2,3,6) by (simp add: sw_inv_def)
  then have "end_sn w' = 3 \<or> end_sn w' = 4 \<or> end_sn w' = 5" using w'(7) by linarith
  then have "end_sn w' = 5" using w'(4,5) r by auto
  moreover have "slot_ref (sw_at w' 1) = 0" using w'(4) sw_example_facts by simp
  ultimately show ?thesis
    using sw_get_revert_exact [OF i(1), of 2 0 2] sw_get_revert_exact [OF i(1), of 3 0 2] b w'(1) sw_example_facts(3) by auto
qed




text \<open>
  The guard of \<^verbatim>\<open>truncate_and_reset_begin_sn\<close> compares slot indices, which are equal also when
  every id has been slid and the oldest slot is still referenced (\<open>begin_sn = end_sn\<close>). Then the
  call succeeds, and a slot that a caller still references, with the data of the old id in it,
  becomes the slot of an id of the new window.
\<close>

theorem sw_forward_truncate_keeps_reference:
  "sw_reach 0 (\<lambda>d. 0 < d) (\<lambda>sn d. OB_SUCCESS) sw_example_held
   \<and> (\<exists>w'. truncate_and_reset_begin_sn 0 5 sw_example_held = Some (OB_SUCCESS, w')
        \<and> begin_sn w' = 5 \<and> end_sn w' = 7 \<and> slot_ref (sw_at w' 5) = 1 \<and> slot_data (sw_at w' 5) = 7)"
proof -
  have "case truncate_and_reset_begin_sn 0 5 sw_example_held of None \<Rightarrow> False | Some (ret, w') \<Rightarrow>
      ret = OB_SUCCESS \<and> begin_sn w' = 5 \<and> end_sn w' = 7 \<and> slot_ref (sw_at w' 5) = 1 \<and> slot_data (sw_at w' 5) = 7"
    by code_simp
  then show ?thesis using sw_example_held_reach by (auto split: option.splits)
qed

end
