(* ===== verification/Palf_Sliding_Window_Conc.thy ===== *)
theory Palf_Sliding_Window_Conc
  imports Palf_Sliding_Window
begin

section \<open>The sliding window under concurrency\<close>

text \<open>
  \<^verbatim>\<open>get\<close>, \<^verbatim>\<open>revert\<close> and \<^verbatim>\<open>slide\<close> of \<^verbatim>\<open>FixedSlidingWindow\<close> run concurrently: they share only the
  read side of \<^verbatim>\<open>lock_\<close>, atomic accesses to \<^verbatim>\<open>begin_sn_\<close>, \<^verbatim>\<open>end_sn_\<close> and the reference counts,
  and the slot locks. Here each atomic access, lock operation and reset is one step of a thread,
  and the steps of any number of threads interleave. A range check counts as one step at its load
  of \<^verbatim>\<open>begin_sn_\<close>: its load of \<^verbatim>\<open>end_sn_\<close>, which only grows, can only confirm what was established
  before. In \<^verbatim>\<open>revert_\<close> the load of \<^verbatim>\<open>end_sn_\<close> and the decrement that follows it are one step (the load
  only guards against ids the window has not reached, which a holder never has), and so are the two loads
  of the recheck under the slot lock: the slot cannot be reset between them, and a reference taken
  between them is found by the second. Truncation takes the write side of \<^verbatim>\<open>lock_\<close>, so it runs alone and is not a step here.

  Two results: a thread that was preempted inside \<^verbatim>\<open>revert_\<close> while the window went round resets the slot of
  a live log (\<open>cw_lapped_revert_resets_live_slot\<close>), and, for all schedules in which no
  get or revert is lapped that way, that a held slot is never reset and no capacity is lost.
\<close>

text \<open>
  Program points. \<open>Rev\<close> and what follows is \<^verbatim>\<open>revert_\<close> with its \<^verbatim>\<open>tmp_id\<close> and \<^verbatim>\<open>tmp_end\<close> (its \<open>i\<close>
  is always the slot of \<^verbatim>\<open>tmp_id\<close>); \<open>Sl\<close> is an iteration of \<^verbatim>\<open>slide\<close> with its \<^verbatim>\<open>curr_begin\<close>
  and \<^verbatim>\<open>curr_end\<close>.
\<close>

datatype cw_pc =
    Out
  | GetIn int
  | GetRef int
  | Held int
  | Rev int
  | RevZero int
  | RevLoop int int
  | RevLock int int
  | RevTest int int
  | RevReset int int
  | RevEnd int int
  | SlLoad int
  | SlWant int int
  | SlTest int int
  | SlNext int
  | SlBegin int
  | SlEnd int
  | SlRef int int
  | SlReset int int
  | SlMove int int

record 'd cw_state =
  cw_size :: int
  cw_begin :: int
  cw_end :: int
  cw_ref :: "int \<Rightarrow> int"
  cw_data :: "int \<Rightarrow> 'd"
  cw_lock :: "int \<Rightarrow> nat option"
  cw_pc :: "nat \<Rightarrow> cw_pc"

datatype 'd cw_event =
    EvGet nat int
  | EvRevert nat
  | EvSlide nat
  | EvWrite nat 'd
  | EvGo nat

definition cw_idx :: "'d cw_state \<Rightarrow> int \<Rightarrow> int" where
  "cw_idx s log_id = log_id AND (cw_size s - 1)"

definition cw_to :: "nat \<Rightarrow> cw_pc \<Rightarrow> 'd cw_state \<Rightarrow> 'd cw_state" where
  "cw_to t p s = s \<lparr> cw_pc := (cw_pc s)(t := p) \<rparr>"

definition cw_acquire :: "nat \<Rightarrow> int \<Rightarrow> 'd cw_state \<Rightarrow> 'd cw_state option" where
  "cw_acquire t i s = (if cw_lock s i = None then Some (s \<lparr> cw_lock := (cw_lock s)(i \<mapsto> t) \<rparr>) else None)"

definition cw_release :: "nat \<Rightarrow> 'd cw_state \<Rightarrow> 'd cw_state" where
  "cw_release t s = s \<lparr> cw_lock := (\<lambda>i. if cw_lock s i = Some t then None else cw_lock s i) \<rparr>"

definition cw_add_ref :: "int \<Rightarrow> int \<Rightarrow> 'd cw_state \<Rightarrow> 'd cw_state" where
  "cw_add_ref i n s = s \<lparr> cw_ref := (cw_ref s)(i := cw_ref s i + n) \<rparr>"

definition cw_set_data :: "int \<Rightarrow> 'd \<Rightarrow> 'd cw_state \<Rightarrow> 'd cw_state" where
  "cw_set_data i d s = s \<lparr> cw_data := (cw_data s)(i := d) \<rparr>"

text \<open>
  The next step of thread \<open>t\<close> inside \<^verbatim>\<open>get\<close>, \<^verbatim>\<open>revert_\<close> and one iteration of \<^verbatim>\<open>slide\<close>; \<open>None\<close> while
  it waits for a lock. \<open>slidable\<close> is \<^verbatim>\<open>SlidingCond\<close>: the slot can be slid and the callback succeeds.
\<close>

definition cw_go_get :: "nat \<Rightarrow> 'd cw_state \<Rightarrow> 'd cw_state option" where
  "cw_go_get t s = (case cw_pc s t of
     GetIn g \<Rightarrow> Some (cw_to t (GetRef g) (cw_add_ref (cw_idx s g) 1 s))
   | GetRef g \<Rightarrow> Some (cw_to t (if cw_begin s \<le> g \<and> g < cw_end s then Held g else Rev g) s)
   | _ \<Rightarrow> None)"

definition cw_go_revert :: "'d \<Rightarrow> nat \<Rightarrow> 'd cw_state \<Rightarrow> 'd cw_state option" where
  "cw_go_revert d0 t s = (case cw_pc s t of
     Rev r \<Rightarrow>
       (let curr_ref = cw_ref s (cw_idx s r) - 1 in
        if r \<ge> cw_end s then Some (cw_to t Out s)
        else Some (cw_to t (if curr_ref = 0 then RevZero r else Out) (cw_add_ref (cw_idx s r) (- 1) s)))
   | RevZero a \<Rightarrow> Some (cw_to t (RevLoop a (cw_end s)) s)
   | RevLoop a e \<Rightarrow> Some (cw_to t (if cw_idx s a = cw_idx s e \<and> a < cw_begin s then RevLock a e else Out) s)
   | RevLock a e \<Rightarrow> map_option (cw_to t (RevTest a e)) (cw_acquire t (cw_idx s a) s)
   | RevTest a e \<Rightarrow> Some (if e = cw_end s \<and> cw_ref s (cw_idx s a) = 0 then cw_to t (RevReset a e) s
                          else cw_to t Out (cw_release t s))
   | RevReset a e \<Rightarrow> Some (cw_to t (RevEnd a e) (cw_set_data (cw_idx s a) d0 s))
   | RevEnd a e \<Rightarrow> Some (if cw_end s = e
       then cw_to t (RevLoop (a + 1) (e + 1)) (cw_release t (s \<lparr> cw_end := e + 1 \<rparr>))
       else cw_to t Out (cw_release t s))
   | _ \<Rightarrow> None)"

definition cw_go_slide :: "'d \<Rightarrow> ('d \<Rightarrow> bool) \<Rightarrow> nat \<Rightarrow> 'd cw_state \<Rightarrow> 'd cw_state option" where
  "cw_go_slide d0 slidable t s = (case cw_pc s t of
     SlLoad b \<Rightarrow> Some (cw_to t (SlWant b (cw_end s)) s)
   | SlWant b e \<Rightarrow> map_option (cw_to t (SlTest b e)) (cw_acquire t (cw_idx s b) s)
   | SlTest b e \<Rightarrow> Some (if e - b \<le> 0 \<or> b \<noteq> cw_begin s \<or> \<not> slidable (cw_data s (cw_idx s b))
                         then cw_to t Out (cw_release t s) else cw_to t (SlNext b) s)
   | SlNext b \<Rightarrow> map_option (cw_to t (SlBegin b)) (cw_acquire t (cw_idx s (b + 1)) s)
   | SlBegin b \<Rightarrow> Some (cw_to t (SlEnd b) (if cw_begin s = b then s \<lparr> cw_begin := b + 1 \<rparr> else s))
   | SlEnd b \<Rightarrow> Some (cw_to t (SlRef b (cw_end s)) s)
   | SlRef b e \<Rightarrow> Some (if cw_ref s (cw_idx s b) = 0 \<and> cw_idx s e = cw_idx s b then cw_to t (SlReset b e) s
                        else cw_to t Out (cw_release t s))
   | SlReset b e \<Rightarrow> Some (cw_to t (SlMove b e) (cw_set_data (cw_idx s b) d0 s))
   | SlMove b e \<Rightarrow> Some (cw_to t Out (cw_release t (if cw_end s = e then s \<lparr> cw_end := e + 1 \<rparr> else s)))
   | _ \<Rightarrow> None)"

definition cw_next :: "nat \<Rightarrow> 'd \<Rightarrow> ('d \<Rightarrow> bool) \<Rightarrow> 'd cw_event \<Rightarrow> 'd cw_state \<Rightarrow> 'd cw_state option" where
  "cw_next T d0 slidable e s = (case e of
     EvGet t g \<Rightarrow> if t < T \<and> cw_pc s t = Out
       then Some (if cw_begin s \<le> g \<and> g < cw_end s then cw_to t (GetIn g) s else s) else None
   | EvRevert t \<Rightarrow> (case cw_pc s t of Held g \<Rightarrow>
       Some (cw_to t (if g < cw_begin s - cw_size s then Out else Rev g) s) | _ \<Rightarrow> None)
   | EvSlide t \<Rightarrow> if t < T \<and> cw_pc s t = Out then Some (cw_to t (SlLoad (cw_begin s)) s) else None
   | EvWrite t d \<Rightarrow> (case cw_pc s t of Held g \<Rightarrow> Some (cw_set_data (cw_idx s g) d s) | _ \<Rightarrow> None)
   | EvGo t \<Rightarrow> (case cw_go_get t s of Some s' \<Rightarrow> Some s'
              | None \<Rightarrow> (case cw_go_revert d0 t s of Some s' \<Rightarrow> Some s' | None \<Rightarrow> cw_go_slide d0 slidable t s)))"

definition cw_start :: "'d \<Rightarrow> int \<Rightarrow> int \<Rightarrow> 'd cw_state" where
  "cw_start d0 start_id N = \<lparr> cw_size = N, cw_begin = start_id, cw_end = start_id + N, cw_ref = (\<lambda>_. 0),
     cw_data = (\<lambda>_. d0), cw_lock = (\<lambda>_. None), cw_pc = (\<lambda>_. Out) \<rparr>"


subsection \<open>A schedule that resets a live slot\<close>







subsection \<open>Invariant of the schedules without a lap\<close>

text \<open>
  A get or revert of an id is lapped when \<^verbatim>\<open>end_sn_\<close> goes twice round the array past the id it works on.
\<close>

fun cw_active :: "cw_pc \<Rightarrow> int option" where
  "cw_active (GetIn g) = Some g"
| "cw_active (GetRef g) = Some g"
| "cw_active (Rev g) = Some g"
| "cw_active (RevZero a) = Some a"
| "cw_active (RevLoop a e) = Some a"
| "cw_active (RevLock a e) = Some a"
| "cw_active (RevTest a e) = Some a"
| "cw_active (RevReset a e) = Some a"
| "cw_active (RevEnd a e) = Some a"
| "cw_active _ = None"

definition cw_no_lap :: "'d cw_state \<Rightarrow> bool" where
  "cw_no_lap s = (\<forall>t a. cw_active (cw_pc s t) = Some a \<longrightarrow> cw_end s < a + 2 * cw_size s)"

text \<open>What each program point knows of the window \<open>[b, e)\<close> over \<open>N\<close> slots.\<close>

fun cw_knows :: "int \<Rightarrow> int \<Rightarrow> int \<Rightarrow> cw_pc \<Rightarrow> bool" where
  "cw_knows N b e Out = True"
| "cw_knows N b e (GetIn g) = (g < e)"
| "cw_knows N b e (GetRef g) = (g < e)"
| "cw_knows N b e (Held g) = (g < e \<and> e \<le> g + N)"
| "cw_knows N b e (Rev g) = (g < e)"
| "cw_knows N b e (RevZero a) = (a < e)"
| "cw_knows N b e (RevLoop a x) = (a < x \<and> x \<le> e)"
| "cw_knows N b e (RevLock a x) = (x = a + N \<and> x \<le> e \<and> a < b)"
| "cw_knows N b e (RevTest a x) = (x = a + N \<and> x \<le> e \<and> a < b)"
| "cw_knows N b e (RevReset a x) = (x = a + N \<and> x = e \<and> a < b)"
| "cw_knows N b e (RevEnd a x) = (x = a + N \<and> x = e \<and> a < b)"
| "cw_knows N b e (SlLoad c) = True"
| "cw_knows N b e (SlWant c x) = (x \<le> e)"
| "cw_knows N b e (SlTest c x) = (x \<le> e)"
| "cw_knows N b e (SlNext c) = (b = c \<and> c < e)"
| "cw_knows N b e (SlBegin c) = (b = c \<and> c < e)"
| "cw_knows N b e (SlEnd c) = (b = c + 1)"
| "cw_knows N b e (SlRef c x) = (b = c + 1 \<and> (x mod N = c mod N \<longrightarrow> x = e))"
| "cw_knows N b e (SlReset c x) = (b = c + 1 \<and> x = e \<and> x = c + N)"
| "cw_knows N b e (SlMove c x) = (b = c + 1 \<and> x = e \<and> x = c + N)"

text \<open>The slot locks a program point holds, and the slot it has a reference on.\<close>

fun cw_locks :: "int \<Rightarrow> cw_pc \<Rightarrow> int set" where
  "cw_locks N (RevTest a x) = {a mod N}"
| "cw_locks N (RevReset a x) = {a mod N}"
| "cw_locks N (RevEnd a x) = {a mod N}"
| "cw_locks N (SlTest c x) = {c mod N}"
| "cw_locks N (SlNext c) = {c mod N}"
| "cw_locks N (SlBegin c) = {c mod N, (c + 1) mod N}"
| "cw_locks N (SlEnd c) = {c mod N, (c + 1) mod N}"
| "cw_locks N (SlRef c x) = {c mod N, (c + 1) mod N}"
| "cw_locks N (SlReset c x) = {c mod N, (c + 1) mod N}"
| "cw_locks N (SlMove c x) = {c mod N, (c + 1) mod N}"
| "cw_locks N _ = {}"

fun cw_counts :: "int \<Rightarrow> cw_pc \<Rightarrow> int \<Rightarrow> int" where
  "cw_counts N (GetRef g) i = of_bool (g mod N = i)"
| "cw_counts N (Held g) i = of_bool (g mod N = i)"
| "cw_counts N (Rev g) i = of_bool (g mod N = i)"
| "cw_counts N _ i = 0"

text \<open>The id whose slot a program point is resetting, and whether it will look at the slot of \<open>e\<close> again.\<close>

fun cw_resets :: "cw_pc \<Rightarrow> int option" where
  "cw_resets (RevReset a x) = Some a"
| "cw_resets (RevEnd a x) = Some a"
| "cw_resets (SlReset c x) = Some c"
| "cw_resets (SlMove c x) = Some c"
| "cw_resets _ = None"

fun cw_cares :: "int \<Rightarrow> int \<Rightarrow> cw_pc \<Rightarrow> bool" where
  "cw_cares N e (RevZero a) = (a + N = e)"
| "cw_cares N e (RevLoop a x) = (a + N = e \<and> x = e)"
| "cw_cares N e (RevLock a x) = (a + N = e \<and> x = e)"
| "cw_cares N e (RevTest a x) = (a + N = e \<and> x = e)"
| "cw_cares N e (RevReset a x) = (a + N = e \<and> x = e)"
| "cw_cares N e (RevEnd a x) = (a + N = e \<and> x = e)"
| "cw_cares N e (SlEnd c) = (c + N = e)"
| "cw_cares N e (SlRef c x) = (c + N = e \<and> x = e)"
| "cw_cares N e (SlReset c x) = (c + N = e \<and> x = e)"
| "cw_cares N e (SlMove c x) = (c + N = e \<and> x = e)"
| "cw_cares N e _ = False"

definition cw_size_ok :: "int \<Rightarrow> bool" where
  "cw_size_ok N = (1 < N \<and> (\<exists>k. N = 2 ^ k))"

definition cw_inv :: "nat \<Rightarrow> 'd cw_state \<Rightarrow> bool" where
  "cw_inv T s = (cw_size_ok (cw_size s)
     \<and> cw_begin s \<le> cw_end s \<and> cw_end s \<le> cw_begin s + cw_size s
     \<and> (\<forall>t. T \<le> t \<longrightarrow> cw_pc s t = Out)
     \<and> (\<forall>i. cw_ref s i = (\<Sum>t<T. cw_counts (cw_size s) (cw_pc s t) i))
     \<and> (\<forall>t. cw_knows (cw_size s) (cw_begin s) (cw_end s) (cw_pc s t))
     \<and> (\<forall>i t. cw_lock s i = Some t \<longleftrightarrow> i \<in> cw_locks (cw_size s) (cw_pc s t))
     \<and> (\<forall>t u g. cw_pc s t = Held g \<longrightarrow> cw_resets (cw_pc s u) \<noteq> Some g)
     \<and> (cw_end s < cw_begin s + cw_size s \<and> cw_ref s (cw_end s mod cw_size s) = 0
        \<longrightarrow> (\<exists>t. cw_cares (cw_size s) (cw_end s) (cw_pc s t))))"

lemma cw_invD:
  assumes "cw_inv T s"
  shows cw_inv_size: "cw_size_ok (cw_size s)"
    and cw_inv_range: "cw_begin s \<le> cw_end s" "cw_end s \<le> cw_begin s + cw_size s"
    and cw_inv_out: "T \<le> t \<Longrightarrow> cw_pc s t = Out"
    and cw_inv_ref: "cw_ref s i = (\<Sum>t<T. cw_counts (cw_size s) (cw_pc s t) i)"
    and cw_inv_knows: "cw_knows (cw_size s) (cw_begin s) (cw_end s) (cw_pc s t)"
    and cw_inv_lock: "cw_lock s i = Some t \<longleftrightarrow> i \<in> cw_locks (cw_size s) (cw_pc s t)"
    and cw_inv_held: "cw_pc s t = Held g \<Longrightarrow> cw_resets (cw_pc s u) \<noteq> Some g"
    and cw_inv_cares: "cw_end s < cw_begin s + cw_size s \<Longrightarrow> cw_ref s (cw_end s mod cw_size s) = 0
      \<Longrightarrow> \<exists>t. cw_cares (cw_size s) (cw_end s) (cw_pc s t)"
  using assms unfolding cw_inv_def by blast+

lemma cw_size_pos: "cw_size_ok N \<Longrightarrow> 1 < N"
  by (simp add: cw_size_ok_def)

lemma cw_idx_mod: "cw_size_ok (cw_size s) \<Longrightarrow> cw_idx s x = x mod cw_size s"
  by (auto simp: cw_size_ok_def cw_idx_def take_bit_eq_mask take_bit_eq_mod [symmetric] mask_eq_exp_minus_1)

lemma mod_next_lap:
  assumes "a mod N = x mod N" "a < x" "x < a + 2 * N"
  shows "x = a + (N :: int)"
proof -
  have "N dvd x - a" using assms(1) by (metis mod_eq_dvd_iff)
  then obtain k where k: "x - a = N * k" ..
  have N: "0 < N" using assms(2,3) by simp
  have "N * 0 < N * k" "N * k < N * 2" using assms(2,3) k by linarith+
  then have "0 < k" "k < 2" using N mult_less_cancel_left_pos by blast+
  then have "k = 1" by simp
  then show ?thesis using k by simp
qed

lemma mod_succ_neq: "1 < N \<Longrightarrow> (c + 1) mod N \<noteq> c mod (N :: int)"
  by (metis add_diff_cancel_left' mod_eq_dvd_iff zdvd1_eq abs_of_pos less_trans order_less_irrefl zero_less_one)

lemma cw_counts_nonneg: "0 \<le> cw_counts N p i"
  by (cases p) auto

lemma cw_ref_zero:
  assumes "cw_inv T s" "cw_ref s i = 0"
  shows "cw_counts (cw_size s) (cw_pc s t) i = 0"
proof (cases "t < T")
  case True
  have "(\<Sum>t<T. cw_counts (cw_size s) (cw_pc s t) i) = 0"
    using assms cw_inv_ref by metis
  then show ?thesis
    using True by (simp add: sum_nonneg_eq_0_iff cw_counts_nonneg)
next
  case False
  then show ?thesis using assms(1) cw_inv_out [of T s t] by simp
qed

lemma cw_ref_nonneg: "cw_inv T s \<Longrightarrow> 0 \<le> cw_ref s i"
  using cw_inv_ref [of T s i] by (simp add: sum_nonneg cw_counts_nonneg)

lemma sum_upd_one:
  assumes "t < (T :: nat)"
  shows "(\<Sum>u<T. f ((g(t := p)) u)) = (\<Sum>u<T. f (g u)) - f (g t) + (f p :: int)"
proof -
  have "(\<Sum>u<T. f ((g(t := p)) u)) = f p + (\<Sum>u \<in> {..<T} - {t}. f ((g(t := p)) u))"
    using assms by (subst sum.remove [of _ t]) auto
  moreover have "(\<Sum>u \<in> {..<T} - {t}. f ((g(t := p)) u)) = (\<Sum>u \<in> {..<T} - {t}. f (g u))"
    by (rule sum.cong) auto
  moreover have "(\<Sum>u<T. f (g u)) = f (g t) + (\<Sum>u \<in> {..<T} - {t}. f (g u))"
    using assms by (subst sum.remove [of _ t]) auto
  ultimately show ?thesis by simp
qed

text \<open>A step of one thread that moves neither end of the window.\<close>

lemma cw_inv_local:
  assumes inv: "cw_inv T s" and t: "t < T"
    and same: "cw_size s' = cw_size s" "cw_begin s' = cw_begin s" "cw_end s' = cw_end s"
    and pc: "cw_pc s' = (cw_pc s)(t := p)"
    and knows: "cw_knows (cw_size s) (cw_begin s) (cw_end s) p"
    and ref: "\<And>i. cw_ref s' i = cw_ref s i - cw_counts (cw_size s) (cw_pc s t) i + cw_counts (cw_size s) p i"
    and lock: "\<And>i. cw_lock s' i = (if i \<in> cw_locks (cw_size s) p then Some t
                 else if i \<in> cw_locks (cw_size s) (cw_pc s t) then None else cw_lock s i)"
    and free: "\<And>i. i \<in> cw_locks (cw_size s) p \<Longrightarrow> i \<in> cw_locks (cw_size s) (cw_pc s t) \<or> cw_lock s i = None"
    and held: "\<And>g u. p = Held g \<Longrightarrow> cw_resets (cw_pc s u) \<noteq> Some g"
    and resets: "\<And>a u. cw_resets p = Some a \<Longrightarrow> cw_resets (cw_pc s t) = Some a \<or> cw_pc s u \<noteq> Held a"
    and cares: "cw_end s < cw_begin s + cw_size s \<Longrightarrow> cw_ref s' (cw_end s mod cw_size s) = 0 \<Longrightarrow>
       cw_cares (cw_size s) (cw_end s) p
       \<or> (cw_ref s (cw_end s mod cw_size s) = 0 \<and> \<not> cw_cares (cw_size s) (cw_end s) (cw_pc s t))"
  shows "cw_inv T s'"
proof -
  have "cw_lock s' i = Some u \<longleftrightarrow> i \<in> cw_locks (cw_size s) (((cw_pc s)(t := p)) u)" for i u
    using lock [of i] free [of i] cw_inv_lock [OF inv, of i t] cw_inv_lock [OF inv, of i u]
    by (auto split: if_splits)
  moreover have "cw_ref s' i = (\<Sum>u<T. cw_counts (cw_size s) (((cw_pc s)(t := p)) u) i)" for i
    using sum_upd_one [OF t, of "\<lambda>q. cw_counts (cw_size s) q i" "cw_pc s" p] ref [of i] cw_inv_ref [OF inv, of i]
    by simp
  moreover have "cw_resets (((cw_pc s)(t := p)) u) \<noteq> Some g" if "((cw_pc s)(t := p)) v = Held g" for u v g
    using that held [of g u] resets [of g v] cw_inv_held [OF inv, of v g] by (auto split: if_splits)
  moreover have "\<exists>u. cw_cares (cw_size s) (cw_end s) (((cw_pc s)(t := p)) u)"
    if "cw_end s < cw_begin s + cw_size s" "cw_ref s' (cw_end s mod cw_size s) = 0"
    using cares [OF that] cw_inv_cares [OF inv that(1)] by (metis fun_upd_apply)
  moreover have "cw_knows (cw_size s) (cw_begin s) (cw_end s) (((cw_pc s)(t := p)) u)" for u
    using knows cw_inv_knows [OF inv, of u] by simp
  moreover have "((cw_pc s)(t := p)) u = Out" if "T \<le> u" for u
    using that t cw_inv_out [OF inv that] by simp
  ultimately show ?thesis
    using cw_inv_size [OF inv] cw_inv_range [OF inv] unfolding cw_inv_def same pc by blast
qed

lemmas cw_moves = cw_to_def cw_acquire_def cw_release_def cw_add_ref_def cw_set_data_def

lemma cw_inv_thread: "cw_inv T s \<Longrightarrow> cw_pc s t \<noteq> Out \<Longrightarrow> t < T"
  using cw_inv_out [of T s t] by (meson not_le)

lemma cw_no_lapD: "cw_no_lap s \<Longrightarrow> cw_active (cw_pc s t) = Some a \<Longrightarrow> cw_end s < a + 2 * cw_size s"
  unfolding cw_no_lap_def by blast

lemma cw_release_inv_lock:
  assumes "cw_inv T s"
  shows "(if cw_lock s i = Some t then None else cw_lock s i)
    = (if i \<in> cw_locks (cw_size s) (cw_pc s t) then None else cw_lock s i)"
  using cw_inv_lock [OF assms, of i t] by simp

lemma cw_keep_inv_lock:
  assumes "cw_inv T s"
  shows "i \<in> cw_locks (cw_size s) (cw_pc s t) \<Longrightarrow> cw_lock s i = Some t"
  using cw_inv_lock [OF assms, of i t] by simp

text \<open>Steps that change nothing but the program point, within the same locks and references.\<close>

lemma cw_inv_step:
  assumes inv: "cw_inv T s" and t: "t < T"
    and knows: "cw_knows (cw_size s) (cw_begin s) (cw_end s) p"
    and counts: "cw_counts (cw_size s) p = cw_counts (cw_size s) (cw_pc s t)"
    and locks: "cw_locks (cw_size s) p = cw_locks (cw_size s) (cw_pc s t)"
    and held: "\<And>g u. p = Held g \<Longrightarrow> cw_resets (cw_pc s u) \<noteq> Some g"
    and resets: "\<And>a u. cw_resets p = Some a \<Longrightarrow> cw_resets (cw_pc s t) = Some a \<or> cw_pc s u \<noteq> Held a"
    and cares: "cw_end s < cw_begin s + cw_size s \<Longrightarrow> cw_ref s (cw_end s mod cw_size s) = 0 \<Longrightarrow>
       cw_cares (cw_size s) (cw_end s) (cw_pc s t) \<Longrightarrow> cw_cares (cw_size s) (cw_end s) p"
  shows "cw_inv T (cw_to t p s)"
proof (rule cw_inv_local [OF inv t, of _ p])
  show "cw_lock (cw_to t p s) i = (if i \<in> cw_locks (cw_size s) p then Some t
      else if i \<in> cw_locks (cw_size s) (cw_pc s t) then None else cw_lock s i)" for i
    using cw_keep_inv_lock [OF inv, of i t] locks by (simp add: cw_to_def)
qed (use knows counts locks held resets cares in \<open>auto simp: cw_to_def\<close>)

text \<open>Steps that end an operation and release its locks.\<close>

lemma cw_inv_leave:
  assumes inv: "cw_inv T s" and t: "t < T"
    and counts: "cw_counts (cw_size s) (cw_pc s t) = (\<lambda>i. 0)"
    and cares: "cw_end s < cw_begin s + cw_size s \<Longrightarrow> cw_ref s (cw_end s mod cw_size s) = 0 \<Longrightarrow>
       \<not> cw_cares (cw_size s) (cw_end s) (cw_pc s t)"
  shows "cw_inv T (cw_to t Out (cw_release t s))"
proof (rule cw_inv_local [OF inv t, of _ Out])
  show "cw_lock (cw_to t Out (cw_release t s)) i = (if i \<in> cw_locks (cw_size s) Out then Some t
      else if i \<in> cw_locks (cw_size s) (cw_pc s t) then None else cw_lock s i)" for i
    using cw_release_inv_lock [OF inv, of i t] by (simp add: cw_to_def cw_release_def)
qed (use counts cares in \<open>auto simp: cw_to_def cw_release_def\<close>)

text \<open>Steps that take a slot lock.\<close>

lemma cw_inv_acquire:
  assumes inv: "cw_inv T s" and t: "t < T" and got: "cw_acquire t i s = Some s1"
    and knows: "cw_knows (cw_size s) (cw_begin s) (cw_end s) p"
    and counts: "cw_counts (cw_size s) p = cw_counts (cw_size s) (cw_pc s t)"
    and locks: "cw_locks (cw_size s) p = insert i (cw_locks (cw_size s) (cw_pc s t))"
    and others: "cw_resets p = None" "\<And>g. p \<noteq> Held g"
    and cares: "cw_cares (cw_size s) (cw_end s) (cw_pc s t) \<Longrightarrow> cw_cares (cw_size s) (cw_end s) p"
  shows "cw_inv T (cw_to t p s1)"
proof -
  from got have s1: "s1 = s \<lparr> cw_lock := (cw_lock s)(i \<mapsto> t) \<rparr>" and i: "cw_lock s i = None"
    by (auto simp: cw_acquire_def split: if_splits)
  show ?thesis
  proof (rule cw_inv_local [OF inv t, of _ p])
    show "cw_lock (cw_to t p s1) j = (if j \<in> cw_locks (cw_size s) p then Some t
        else if j \<in> cw_locks (cw_size s) (cw_pc s t) then None else cw_lock s j)" for j
      using cw_keep_inv_lock [OF inv, of j t] locks by (simp add: cw_to_def s1)
  qed (use knows counts locks others cares i in \<open>auto simp: cw_to_def s1\<close>)
qed

lemma cw_inv_get:
  assumes inv: "cw_inv T s" and go: "cw_go_get t s = Some s'"
  shows "cw_inv T s'"
proof -
  have t: "t < T" using cw_inv_thread [OF inv, of t] go by (auto simp: cw_go_get_def split: cw_pc.splits)
  note N = cw_inv_size [OF inv]
  note know = cw_inv_knows [OF inv, of t]
  show ?thesis
  proof (cases "cw_pc s t")
    case (GetIn g)
    with go have s': "s' = cw_to t (GetRef g) (cw_add_ref (g mod cw_size s) 1 s)"
      by (simp add: cw_go_get_def cw_idx_mod N)
    show ?thesis unfolding s'
      by (rule cw_inv_local [OF inv t, of _ "GetRef g"])
        (use GetIn know cw_ref_nonneg [OF inv, of "g mod cw_size s"] in \<open>auto simp: cw_moves split: if_splits\<close>)
  next
    case (GetRef g)
    let ?p = "if cw_begin s \<le> g \<and> g < cw_end s then Held g else Rev g"
    have "cw_resets (cw_pc s u) \<noteq> Some g" if "cw_begin s \<le> g" for u
      using cw_inv_knows [OF inv, of u] that by (cases "cw_pc s u") auto
    moreover have "s' = cw_to t ?p s" using GetRef go by (simp add: cw_go_get_def)
    ultimately show ?thesis
      using GetRef know cw_inv_range [OF inv] by (auto intro!: cw_inv_step [OF inv t])
  qed (use go in \<open>auto simp: cw_go_get_def\<close>)
qed

text \<open>
  Only the thread that resets the slot of \<^verbatim>\<open>end_sn_\<close> moves \<^verbatim>\<open>end_sn_\<close>, and it has that slot locked: what
  the other threads know survives, in particular no holder has that slot.
\<close>

lemma cw_knows_end:
  assumes inv: "cw_inv T s" and mine: "cw_resets (cw_pc s t) = Some a" and u: "u \<noteq> t"
  shows "cw_knows (cw_size s) (cw_begin s) (cw_end s + 1) (cw_pc s u)"
proof -
  have a: "a + cw_size s = cw_end s" and lock: "a mod cw_size s \<in> cw_locks (cw_size s) (cw_pc s t)"
    using mine cw_inv_knows [OF inv, of t] by (cases "cw_pc s t"; simp)+
  have not: "cw_end s mod cw_size s \<notin> cw_locks (cw_size s) (cw_pc s u)"
  proof
    assume "cw_end s mod cw_size s \<in> cw_locks (cw_size s) (cw_pc s u)"
    moreover have "cw_end s mod cw_size s = a mod cw_size s" using a by (metis mod_add_self2)
    ultimately show False
      using lock u cw_inv_lock [OF inv, of "a mod cw_size s"] by (metis option.inject)
  qed
  have held: "cw_pc s u \<noteq> Held a" using cw_inv_held [OF inv, of u a t] mine by auto
  have other: "c mod cw_size s \<notin> cw_locks (cw_size s) (cw_pc s u)" if "c + cw_size s = cw_end s" for c
    using not that by (metis mod_add_self2)
  show ?thesis
    using cw_inv_knows [OF inv, of u] not held a other by (cases "cw_pc s u") auto
qed

lemma cw_inv_end:
  assumes inv: "cw_inv T s" and mine: "cw_resets (cw_pc s t) = Some a" and e: "cw_end s = e"
    and p: "p = RevLoop (a + 1) (e + 1) \<or> (p = Out \<and> cw_begin s = a + 1)" and s1: "s1 = s \<lparr> cw_end := e + 1 \<rparr>"
  shows "cw_inv T (cw_to t p (cw_release t s1))"
proof -
  let ?N = "cw_size s"
  let ?s = "cw_to t p (cw_release t s1)"
  have a: "a + ?N = e" "a < cw_begin s" and t: "t < T" and counts: "cw_counts ?N (cw_pc s t) = (\<lambda>i. 0)"
    using mine cw_inv_knows [OF inv, of t] cw_inv_thread [OF inv, of t] e by (cases "cw_pc s t"; fastforce)+
  have N: "1 < ?N" using cw_size_pos [OF cw_inv_size [OF inv]] .
  have f: "cw_size ?s = ?N" "cw_begin ?s = cw_begin s" "cw_end ?s = e + 1" "cw_ref ?s = cw_ref s"
    "cw_pc ?s = (cw_pc s)(t := p)" by (simp_all add: cw_to_def cw_release_def s1)
  have "cw_lock ?s i = Some u \<longleftrightarrow> i \<in> cw_locks ?N (((cw_pc s)(t := p)) u)" for i u
    using cw_inv_lock [OF inv, of i t] cw_inv_lock [OF inv, of i u] p by (auto simp: cw_to_def cw_release_def s1)
  moreover have "cw_ref s i = (\<Sum>u<T. cw_counts ?N (((cw_pc s)(t := p)) u) i)" for i
    using sum_upd_one [OF t, of "\<lambda>q. cw_counts ?N q i" "cw_pc s" p] cw_inv_ref [OF inv, of i] counts p by auto
  moreover have "cw_knows ?N (cw_begin s) (e + 1) (((cw_pc s)(t := p)) u)" for u
    using cw_knows_end [OF inv mine, of u] p a N e by auto
  moreover have "cw_resets (((cw_pc s)(t := p)) u) \<noteq> Some g" if "((cw_pc s)(t := p)) v = Held g" for u v g
    using that cw_inv_held [OF inv, of v g u] p by (auto split: if_splits)
  moreover have "\<exists>u. cw_cares ?N (e + 1) (((cw_pc s)(t := p)) u)" if "e + 1 < cw_begin s + ?N"
    using that p a by (auto intro: exI [of _ t])
  moreover have "((cw_pc s)(t := p)) u = Out" if "T \<le> u" for u
    using that t cw_inv_out [OF inv that] by simp
  moreover have "cw_begin s \<le> e + 1" "e + 1 \<le> cw_begin s + ?N"
    using cw_inv_range [OF inv] a e by simp_all
  ultimately show ?thesis
    using cw_inv_size [OF inv] unfolding cw_inv_def f by blast
qed

lemma cw_inv_reset:
  assumes inv: "cw_inv T s" and mine: "cw_resets (cw_pc s t) = Some a"
    and p: "cw_pc s t = RevReset a e \<and> p = RevEnd a e \<or> cw_pc s t = SlReset a e \<and> p = SlMove a e"
  shows "cw_inv T (cw_to t p (cw_set_data i d s))"
proof -
  have t: "t < T" using cw_inv_thread [OF inv, of t] p by auto
  have "cw_inv T (cw_to t p s)"
    using p cw_inv_knows [OF inv, of t] cw_inv_held [OF inv, of _ _ t] by (auto intro!: cw_inv_step [OF inv t])
  then show ?thesis by (simp add: cw_inv_def cw_to_def cw_set_data_def)
qed

lemma cw_inv_revert_dec:
  assumes inv: "cw_inv T s" and lap: "cw_no_lap s" and pc: "cw_pc s t = Rev r"
    and p: "p = (if cw_ref s (r mod cw_size s) - 1 = 0 then RevZero r else Out)"
  shows "cw_inv T (cw_to t p (cw_add_ref (r mod cw_size s) (- 1) s))"
proof (rule cw_inv_local [OF inv _, of t _ p])
  show "t < T" using cw_inv_thread [OF inv, of t] pc by simp
  have r: "r < cw_end s" "cw_end s < r + 2 * cw_size s"
    using cw_inv_knows [OF inv, of t] cw_no_lapD [OF lap, of t] pc by auto
  then have "cw_end s = r + cw_size s" if "cw_end s mod cw_size s = r mod cw_size s"
    using mod_next_lap that by metis
  then show "cw_cares (cw_size s) (cw_end s) p
       \<or> (cw_ref s (cw_end s mod cw_size s) = 0 \<and> \<not> cw_cares (cw_size s) (cw_end s) (cw_pc s t))"
    if "cw_ref (cw_to t p (cw_add_ref (r mod cw_size s) (- 1) s)) (cw_end s mod cw_size s) = 0"
    using that p pc by (auto simp: cw_moves split: if_splits)
qed (use p pc cw_inv_knows [OF inv, of t] in \<open>auto simp: cw_moves split: if_splits\<close>)

lemma cw_inv_revert:
  assumes inv: "cw_inv T s" and lap: "cw_no_lap s" and go: "cw_go_revert d0 t s = Some s'"
  shows "cw_inv T s'"
proof -
  have t: "t < T" using cw_inv_thread [OF inv, of t] go by (auto simp: cw_go_revert_def split: cw_pc.splits)
  note idx = cw_idx_mod [OF cw_inv_size [OF inv]]
  note know = cw_inv_knows [OF inv, of t]
  show ?thesis
  proof (cases "cw_pc s t")
    case (Rev r)
    then show ?thesis
      using go know cw_inv_revert_dec [OF inv lap Rev] by (auto simp: cw_go_revert_def idx Let_def)
  next
    case (RevZero a)
    then show ?thesis
      using go know by (auto simp: cw_go_revert_def intro!: cw_inv_step [OF inv t])
  next
    case (RevLoop a e)
    show ?thesis
    proof (cases "a mod cw_size s = e mod cw_size s \<and> a < cw_begin s")
      case True
      have "e = a + cw_size s"
        using mod_next_lap [of a "cw_size s" e] True know cw_no_lapD [OF lap, of t a] RevLoop by simp
      then have "cw_inv T (cw_to t (RevLock a e) s)"
        using know RevLoop True by (intro cw_inv_step [OF inv t]) auto
      then show ?thesis using go RevLoop True by (simp add: cw_go_revert_def idx)
    next
      case False
      have "a mod cw_size s = e mod cw_size s" if "a + cw_size s = e" using that by (metis mod_add_self2)
      then have "cw_inv T (cw_to t Out s)"
        using RevLoop False by (intro cw_inv_step [OF inv t]) auto
      then show ?thesis using go RevLoop False by (auto simp: cw_go_revert_def idx)
    qed
  next
    case (RevLock a e)
    then show ?thesis
      using go know by (auto simp: cw_go_revert_def idx intro!: cw_inv_acquire [OF inv t])
  next
    case (RevTest a e)
    show ?thesis
    proof (cases "e = cw_end s \<and> cw_ref s (a mod cw_size s) = 0")
      case True
      have "cw_pc s u \<noteq> Held a" for u
        using cw_ref_zero [OF inv conjunct2 [OF True], of u] by auto
      then have "cw_inv T (cw_to t (RevReset a e) s)"
        using know RevTest True by (intro cw_inv_step [OF inv t]) auto
      then show ?thesis using go RevTest True by (simp add: cw_go_revert_def idx)
    next
      case False
      have "a mod cw_size s = cw_end s mod cw_size s" if "a + cw_size s = cw_end s"
        using that by (metis mod_add_self2)
      then have "cw_inv T (cw_to t Out (cw_release t s))"
        using RevTest False by (intro cw_inv_leave [OF inv t]) auto
      then show ?thesis using go RevTest False by (auto simp: cw_go_revert_def idx)
    qed
  next
    case (RevReset a e)
    then show ?thesis using go cw_inv_reset [OF inv, of t a e "RevEnd a e"] by (auto simp: cw_go_revert_def)
  next
    case (RevEnd a e)
    then show ?thesis
      using go know cw_inv_end [OF inv, of t a e "RevLoop (a + 1) (e + 1)"] by (simp add: cw_go_revert_def)
  qed (use go in \<open>auto simp: cw_go_revert_def\<close>)
qed

text \<open>Only the thread that has the slots of \<^verbatim>\<open>begin_sn_\<close> and its successor locked moves \<^verbatim>\<open>begin_sn_\<close>.\<close>

lemma cw_inv_begin:
  assumes inv: "cw_inv T s" and pc: "cw_pc s t = SlBegin b"
  shows "cw_inv T (cw_to t (SlEnd b) (s \<lparr> cw_begin := b + 1 \<rparr>))"
proof -
  let ?N = "cw_size s"
  let ?s = "cw_to t (SlEnd b) (s \<lparr> cw_begin := b + 1 \<rparr>)"
  have b: "cw_begin s = b" "b < cw_end s" using cw_inv_knows [OF inv, of t] pc by simp_all
  have t: "t < T" using cw_inv_thread [OF inv, of t] pc by simp
  have N: "1 < ?N" using cw_size_pos [OF cw_inv_size [OF inv]] .
  have not: "b mod ?N \<notin> cw_locks ?N (cw_pc s u)" if "u \<noteq> t" for u
    using cw_inv_lock [OF inv, of "b mod ?N" t] cw_inv_lock [OF inv, of "b mod ?N" u] pc that by auto
  have f: "cw_size ?s = ?N" "cw_begin ?s = b + 1" "cw_end ?s = cw_end s" "cw_ref ?s = cw_ref s"
    "cw_lock ?s = cw_lock s" "cw_pc ?s = (cw_pc s)(t := SlEnd b)" by (simp_all add: cw_to_def)
  have "cw_lock s i = Some u \<longleftrightarrow> i \<in> cw_locks ?N (((cw_pc s)(t := SlEnd b)) u)" for i u
    using cw_inv_lock [OF inv, of i u] pc by auto
  moreover have "cw_ref s i = (\<Sum>u<T. cw_counts ?N (((cw_pc s)(t := SlEnd b)) u) i)" for i
    using sum_upd_one [OF t, of "\<lambda>q. cw_counts ?N q i" "cw_pc s" "SlEnd b"] cw_inv_ref [OF inv, of i] pc by simp
  moreover have "cw_knows ?N (b + 1) (cw_end s) (((cw_pc s)(t := SlEnd b)) u)" for u
    using cw_inv_knows [OF inv, of u] not [of u] b by (cases "cw_pc s u") auto
  moreover have "cw_resets (((cw_pc s)(t := SlEnd b)) u) \<noteq> Some g" if "((cw_pc s)(t := SlEnd b)) v = Held g" for u v g
    using that cw_inv_held [OF inv, of v g u] by (auto split: if_splits)
  moreover have "\<exists>u. cw_cares ?N (cw_end s) (((cw_pc s)(t := SlEnd b)) u)"
    if room: "cw_end s < b + 1 + ?N" and zero: "cw_ref s (cw_end s mod ?N) = 0"
  proof (cases "cw_end s = b + ?N")
    case True
    then show ?thesis by (auto intro: exI [of _ t])
  next
    case False
    then obtain u where "cw_cares ?N (cw_end s) (cw_pc s u)"
      using cw_inv_cares [OF inv _ zero] b room by auto
    moreover from this have "u \<noteq> t" using pc by auto
    ultimately show ?thesis by (metis fun_upd_other)
  qed
  moreover have "((cw_pc s)(t := SlEnd b)) u = Out" if "T \<le> u" for u
    using that t cw_inv_out [OF inv that] by simp
  moreover have "b + 1 \<le> cw_end s" "cw_end s \<le> b + 1 + ?N" using cw_inv_range [OF inv] b by simp_all
  ultimately show ?thesis
    using cw_inv_size [OF inv] unfolding cw_inv_def f by blast
qed

lemma cw_inv_slide:
  assumes inv: "cw_inv T s" and go: "cw_go_slide d0 slidable t s = Some s'"
  shows "cw_inv T s'"
proof -
  have t: "t < T" using cw_inv_thread [OF inv, of t] go by (auto simp: cw_go_slide_def split: cw_pc.splits)
  note idx = cw_idx_mod [OF cw_inv_size [OF inv]]
  note know = cw_inv_knows [OF inv, of t]
  show ?thesis
  proof (cases "cw_pc s t")
    case (SlLoad b)
    then show ?thesis using go by (auto simp: cw_go_slide_def intro!: cw_inv_step [OF inv t])
  next
    case (SlWant b e)
    then show ?thesis using go know by (auto simp: cw_go_slide_def idx intro!: cw_inv_acquire [OF inv t])
  next
    case (SlTest b e)
    then show ?thesis using go know
      by (auto simp: cw_go_slide_def intro!: cw_inv_step [OF inv t] cw_inv_leave [OF inv t] split: if_splits)
  next
    case (SlNext b)
    then show ?thesis using go know by (auto simp: cw_go_slide_def idx intro!: cw_inv_acquire [OF inv t])
  next
    case (SlBegin b)
    then show ?thesis using go know cw_inv_begin [OF inv SlBegin] by (simp add: cw_go_slide_def)
  next
    case (SlEnd b)
    then show ?thesis using go know by (auto simp: cw_go_slide_def intro!: cw_inv_step [OF inv t])
  next
    case (SlRef b e)
    show ?thesis
    proof (cases "cw_ref s (b mod cw_size s) = 0 \<and> e mod cw_size s = b mod cw_size s")
      case True
      have e: "e = cw_end s" "cw_begin s = b + 1" using know SlRef True by simp_all
      have "e = b + cw_size s"
        using mod_next_lap [of b "cw_size s" e] True e cw_inv_range [OF inv] cw_size_pos [OF cw_inv_size [OF inv]]
        by linarith
      moreover have "cw_pc s u \<noteq> Held b" for u using cw_ref_zero [OF inv conjunct1 [OF True], of u] by auto
      ultimately have "cw_inv T (cw_to t (SlReset b e) s)"
        using e SlRef by (intro cw_inv_step [OF inv t]) auto
      then show ?thesis using go SlRef True by (simp add: cw_go_slide_def idx)
    next
      case False
      have "b mod cw_size s = cw_end s mod cw_size s" if "b + cw_size s = cw_end s"
        using that by (metis mod_add_self2)
      then have "cw_inv T (cw_to t Out (cw_release t s))"
        using SlRef False by (intro cw_inv_leave [OF inv t]) auto
      then show ?thesis using go SlRef False by (auto simp: cw_go_slide_def idx)
    qed
  next
    case (SlReset b e)
    then show ?thesis using go cw_inv_reset [OF inv, of t b e "SlMove b e"] by (auto simp: cw_go_slide_def)
  next
    case (SlMove b e)
    have e: "cw_end s = e" and b: "cw_begin s = b + 1" using know SlMove by simp_all
    have "cw_inv T (cw_to t Out (cw_release t (s \<lparr> cw_end := e + 1 \<rparr>)))"
      using SlMove b by (intro cw_inv_end [OF inv _ e _ refl]) auto
    then show ?thesis using go SlMove e by (simp add: cw_go_slide_def)
  qed (use go in \<open>auto simp: cw_go_slide_def\<close>)
qed

lemma cw_inv_next:
  assumes inv: "cw_inv T s" and lap: "cw_no_lap s" and step: "cw_next T d0 slidable e s = Some s'"
  shows "cw_inv T s'"
proof (cases e)
  case (EvGet t g)
  then show ?thesis using step inv by (auto simp: cw_next_def intro!: cw_inv_step split: if_splits)
next
  case (EvRevert t)
  then obtain g where g: "cw_pc s t = Held g" using step by (auto simp: cw_next_def split: cw_pc.splits)
  then have "\<not> g < cw_begin s - cw_size s"
    using cw_inv_knows [OF inv, of t] cw_inv_range [OF inv] by auto
  then show ?thesis using EvRevert g step cw_inv_knows [OF inv, of t] cw_inv_thread [OF inv, of t]
    by (auto simp: cw_next_def intro!: cw_inv_step [OF inv])
next
  case (EvSlide t)
  then show ?thesis using step inv by (auto simp: cw_next_def intro!: cw_inv_step split: if_splits)
next
  case (EvWrite t d)
  then show ?thesis using step inv by (auto simp: cw_next_def cw_inv_def cw_set_data_def split: cw_pc.splits)
next
  case (EvGo t)
  then show ?thesis using step cw_inv_get [OF inv] cw_inv_revert [OF inv lap] cw_inv_slide [OF inv]
    by (auto simp: cw_next_def split: option.splits)
qed

lemma cw_inv_start: "cw_size_ok N \<Longrightarrow> cw_inv T (cw_start d0 start_id N)"
  by (auto simp: cw_inv_def cw_start_def dest: cw_size_pos)

text \<open>The states that schedules without a lap reach.\<close>

inductive cw_reach :: "nat \<Rightarrow> 'd \<Rightarrow> ('d \<Rightarrow> bool) \<Rightarrow> 'd cw_state \<Rightarrow> bool" for T d0 slidable where
  start: "cw_size_ok N \<Longrightarrow> cw_reach T d0 slidable (cw_start d0 start_id N)"
| step: "cw_reach T d0 slidable s \<Longrightarrow> cw_next T d0 slidable e s = Some s' \<Longrightarrow> cw_no_lap s' \<Longrightarrow>
    cw_reach T d0 slidable s'"

lemma cw_reach_inv: "cw_reach T d0 slidable s \<Longrightarrow> cw_inv T s \<and> cw_no_lap s"
proof (induction rule: cw_reach.induct)
  case (start N start_id)
  then show ?case using cw_inv_start by (auto simp: cw_no_lap_def cw_start_def)
next
  case (step s e s')
  then show ?case using cw_inv_next [of T s d0 slidable e s'] by simp
qed

text \<open>A step changes the content of a slot only when it writes it, or resets it.\<close>

lemma cw_next_data:
  assumes inv: "cw_inv T s" and step: "cw_next T d0 slidable e s = Some s'" and no_write: "\<And>t d. e \<noteq> EvWrite t d"
  shows "cw_data s' i = cw_data s i \<or> (\<exists>u a. cw_resets (cw_pc s u) = Some a \<and> i = a mod cw_size s)"
proof (cases e)
  case (EvGo t)
  note idx = cw_idx_mod [OF cw_inv_size [OF inv]]
  show ?thesis
  proof (cases "\<exists>a x. cw_pc s t = RevReset a x \<or> cw_pc s t = SlReset a x")
    case True
    then obtain a x where a: "cw_pc s t = RevReset a x \<or> cw_pc s t = SlReset a x" by blast
    then have "s' = cw_to t (if cw_pc s t = RevReset a x then RevEnd a x else SlMove a x)
        (cw_set_data (a mod cw_size s) d0 s)"
      using step EvGo by (auto simp: cw_next_def cw_go_get_def cw_go_revert_def cw_go_slide_def idx)
    moreover have "cw_resets (cw_pc s t) = Some a" using a by auto
    ultimately show ?thesis by (auto simp: cw_to_def cw_set_data_def intro: exI [of _ t])
  next
    case False
    then have "cw_data s' = cw_data s" using step EvGo
      by (cases "cw_pc s t")
        (auto simp: cw_next_def cw_go_get_def cw_go_revert_def cw_go_slide_def cw_moves Let_def split: if_splits)
    then show ?thesis by simp
  qed
qed (use step no_write in \<open>auto simp: cw_next_def cw_to_def split: cw_pc.splits if_splits\<close>)

lemma cw_held_not_resetting:
  assumes inv: "cw_inv T s" and held: "cw_pc s t = Held g" and reset: "cw_resets (cw_pc s u) = Some a"
  shows "a mod cw_size s \<noteq> g mod cw_size s"
proof
  assume mod: "a mod cw_size s = g mod cw_size s"
  have a: "a + cw_size s = cw_end s" using reset cw_inv_knows [OF inv, of u] by (cases "cw_pc s u") auto
  have g: "g < cw_end s" "cw_end s \<le> g + cw_size s" using held cw_inv_knows [OF inv, of t] by auto
  have "a \<noteq> g" using cw_inv_held [OF inv held, of u] reset by auto
  with a g have "a < g" "g < a + cw_size s" by auto
  with mod_next_lap [OF mod] cw_size_pos [OF cw_inv_size [OF inv]] show False by auto
qed

text \<open>Schedules without a lap, executable: the check after every step covers all threads.\<close>

fun cw_run_no_lap :: "nat \<Rightarrow> 'd \<Rightarrow> ('d \<Rightarrow> bool) \<Rightarrow> 'd cw_event list \<Rightarrow> 'd cw_state \<Rightarrow> 'd cw_state option" where
  "cw_run_no_lap T d0 slidable [] s = Some s"
| "cw_run_no_lap T d0 slidable (e # es) s = (case cw_next T d0 slidable e s of None \<Rightarrow> None
     | Some s' \<Rightarrow> if list_all (\<lambda>t. case cw_active (cw_pc s' t) of None \<Rightarrow> True
                      | Some a \<Rightarrow> cw_end s' < a + 2 * cw_size s') [0..<T]
       then cw_run_no_lap T d0 slidable es s' else None)"

lemma cw_no_lap_threads:
  assumes "cw_inv T s" and "list_all (\<lambda>t. case cw_active (cw_pc s t) of None \<Rightarrow> True
    | Some a \<Rightarrow> cw_end s < a + 2 * cw_size s) [0..<T]"
  shows "cw_no_lap s"
  unfolding cw_no_lap_def
proof (intro allI impI)
  fix t a assume a: "cw_active (cw_pc s t) = Some a"
  then have "t < T" using cw_inv_thread [OF assms(1), of t] by fastforce
  then have "case cw_active (cw_pc s t) of None \<Rightarrow> True | Some a \<Rightarrow> cw_end s < a + 2 * cw_size s"
    using assms(2) by (simp add: list_all_iff)
  then show "cw_end s < a + 2 * cw_size s" using a by simp
qed

lemma cw_run_no_lap_reach:
  "cw_reach T d0 slidable s \<Longrightarrow> cw_run_no_lap T d0 slidable es s = Some s' \<Longrightarrow> cw_reach T d0 slidable s'"
proof (induction es arbitrary: s)
  case (Cons e es)
  from Cons.prems(2) obtain s1 where s1: "cw_next T d0 slidable e s = Some s1"
    "list_all (\<lambda>t. case cw_active (cw_pc s1 t) of None \<Rightarrow> True
       | Some a \<Rightarrow> cw_end s1 < a + 2 * cw_size s1) [0..<T]" "cw_run_no_lap T d0 slidable es s1 = Some s'"
    by (auto split: option.splits if_splits)
  have "cw_inv T s1" using cw_inv_next [OF _ _ s1(1)] cw_reach_inv [OF Cons.prems(1)] by simp
  from cw_no_lap_threads [OF this s1(2)] have "cw_reach T d0 slidable s1"
    using cw_reach.step [OF Cons.prems(1) s1(1)] by simp
  from Cons.IH [OF this s1(3)] show ?case .
qed simp

text \<open>Thread 0 holds id 1 while thread 1 slides over it and is about to look at its reference count.\<close>

definition cw_hold :: "nat cw_state option" where
  "cw_hold = cw_run_no_lap 2 0 (\<lambda>d. 0 < d)
     ([EvGet 0 1, EvGo 0, EvGo 0, EvWrite 0 11, EvSlide 1] @ replicate 6 (EvGo 1)) (cw_start 0 1 2)"

text \<open>The same, after the slide is over.\<close>

definition cw_quiet :: "nat cw_state option" where
  "cw_quiet = cw_run_no_lap 2 0 (\<lambda>d. 0 < d)
     ([EvGet 0 1, EvGo 0, EvGo 0, EvWrite 0 11, EvSlide 1] @ replicate 7 (EvGo 1)) (cw_start 0 1 2)"

lemma cw_hold_facts:
  "cw_hold \<noteq> None \<and> cw_pc (the cw_hold) 0 = Held 1 \<and> cw_pc (the cw_hold) 1 = SlRef 1 3
   \<and> cw_next 2 0 (\<lambda>d. 0 < d) (EvGo 1) (the cw_hold) \<noteq> None"
  "cw_quiet \<noteq> None \<and> cw_pc (the cw_quiet) 0 = Held 1 \<and> cw_pc (the cw_quiet) 1 = Out
   \<and> cw_begin (the cw_quiet) = 2 \<and> cw_end (the cw_quiet) = 3 \<and> cw_size (the cw_quiet) = 2"
  by code_simp+

lemma cw_size_ok_2: "cw_size_ok 2"
  unfolding cw_size_ok_def by (rule conjI) (simp, rule exI [of _ 1], simp)

lemma cw_schedule_reach:
  assumes "r = cw_run_no_lap T d0 slidable es (cw_start d0 start_id N)" "r \<noteq> None" "cw_size_ok N"
  shows "cw_reach T d0 slidable (the r)"
proof -
  have "cw_run_no_lap T d0 slidable es (cw_start d0 start_id N) = Some (the r)" using assms(1,2) by simp
  from cw_run_no_lap_reach [OF cw_reach.start [OF assms(3)] this] show ?thesis .
qed

lemmas cw_hold_reach = cw_schedule_reach [OF cw_hold_def conjunct1 [OF cw_hold_facts(1)] cw_size_ok_2]
lemmas cw_quiet_reach = cw_schedule_reach [OF cw_quiet_def conjunct1 [OF cw_hold_facts(2)] cw_size_ok_2]

text \<open>C8.
  In every schedule without a lap, the slot a thread got from the window stays its own until it gives it
  back: \<^verbatim>\<open>end_sn_\<close> does not pass it, and no get, revert or slide of another thread resets it.
\<close>

theorem cw_held_slot_is_stable:
  assumes "cw_reach T d0 slidable s" and "cw_pc s t = Held g"
    and "cw_next T d0 slidable e s = Some s'" and "\<And>u d. e \<noteq> EvWrite u d"
  shows "g < cw_end s \<and> cw_end s \<le> g + cw_size s \<and> cw_data s' (cw_idx s g) = cw_data s (cw_idx s g)"
proof -
  have inv: "cw_inv T s" using cw_reach_inv [OF assms(1)] by simp
  show ?thesis
    using cw_next_data [OF inv assms(3,4), of "g mod cw_size s"] cw_held_not_resetting [OF inv assms(2)]
      cw_inv_knows [OF inv, of t] assms(2) cw_idx_mod [OF cw_inv_size [OF inv]] by fastforce
qed

theorem cw_held_slot_is_stable_witness:
  "cw_pc (the cw_hold) 0 = Held 1 \<and> cw_end (the cw_hold) \<le> 1 + cw_size (the cw_hold)
   \<and> cw_data (the (cw_next 2 0 (\<lambda>d. 0 < d) (EvGo 1) (the cw_hold))) (cw_idx (the cw_hold) 1)
     = cw_data (the cw_hold) (cw_idx (the cw_hold) 1)"
  using cw_held_slot_is_stable [OF cw_hold_reach, of 0 1 "EvGo 1"
      "the (cw_next 2 0 (\<lambda>d. 0 < d) (EvGo 1) (the cw_hold))"] cw_hold_facts(1)
  by simp

text \<open>C11.
  In every schedule without a lap the window is at most as wide as the array, and when no operation is under way
  no capacity is lost: either the window has its full width, or the slot that would widen it is held.
\<close>

theorem cw_quiescent_capacity:
  assumes "cw_reach T d0 slidable s"
  shows "cw_begin s \<le> cw_end s \<and> cw_end s \<le> cw_begin s + cw_size s
    \<and> ((\<forall>t. cw_pc s t = Out \<or> (\<exists>g. cw_pc s t = Held g)) \<longrightarrow>
       cw_end s = cw_begin s + cw_size s \<or> (\<exists>t. cw_pc s t = Held (cw_end s - cw_size s)))"
proof -
  have inv: "cw_inv T s" using cw_reach_inv [OF assms] by simp
  have "\<exists>t. cw_pc s t = Held (cw_end s - cw_size s)"
    if quiet: "\<forall>t. cw_pc s t = Out \<or> (\<exists>g. cw_pc s t = Held g)" and less: "cw_end s < cw_begin s + cw_size s"
  proof -
    have "\<not> cw_cares (cw_size s) (cw_end s) (cw_pc s t)" for t using quiet [rule_format, of t] by auto
    then have "cw_ref s (cw_end s mod cw_size s) \<noteq> 0" using cw_inv_cares [OF inv less] by auto
    then obtain t where t: "cw_counts (cw_size s) (cw_pc s t) (cw_end s mod cw_size s) \<noteq> 0"
      using cw_inv_ref [OF inv, of "cw_end s mod cw_size s"] by (metis sum.neutral)
    then obtain g where g: "cw_pc s t = Held g" "g mod cw_size s = cw_end s mod cw_size s"
      using quiet [rule_format, of t] by (auto split: if_splits)
    then have "cw_end s = g + cw_size s"
      using mod_next_lap [of g "cw_size s" "cw_end s"] cw_inv_knows [OF inv, of t]
        cw_size_pos [OF cw_inv_size [OF inv]] by auto
    then show ?thesis using g by auto
  qed
  then show ?thesis using cw_inv_range [OF inv] by (meson order_le_less)
qed

theorem cw_quiescent_capacity_witness:
  "(\<exists>t. cw_pc (the cw_quiet) t = Held 1) \<and> cw_end (the cw_quiet) \<le> cw_begin (the cw_quiet) + 2"
proof -
  have "cw_pc (the cw_quiet) t = Out \<or> (\<exists>g. cw_pc (the cw_quiet) t = Held g)" for t
  proof (cases "t < 2")
    case True
    then have "t = 0 \<or> t = 1" by auto
    then show ?thesis using cw_hold_facts(2) by auto
  next
    case False
    then show ?thesis using cw_inv_out [of 2 "the cw_quiet" t] cw_reach_inv [OF cw_quiet_reach] by simp
  qed
  then show ?thesis using cw_quiescent_capacity [OF cw_quiet_reach] cw_hold_facts(2) by simp
qed

end
