(* ===== verification/Ob_Xxhash.thy ===== *)
theory Ob_Xxhash
  imports Ob_Prelude
begin

section \<open>xxHash: \<^verbatim>\<open>oblib/lib/hash_func/xxhash.c\<close>\<close>

text \<open>
  The 32-bit and 64-bit hashes, as one call and as a stream of updates, and their canonical form.
  The input is the list of its bytes, so \<^verbatim>\<open>len\<close> is its length and advancing \<^verbatim>\<open>p\<close> drops bytes. The
  byte order of the machine and the address of the input are parameters: \<^verbatim>\<open>XXH_read64\<close> and
  \<^verbatim>\<open>XXH_read32\<close> load in the order of the machine, and \<^verbatim>\<open>XXH_FORCE_ALIGN_CHECK\<close> is an argument.
  \<^verbatim>\<open>v1\<close> to \<^verbatim>\<open>v4\<close> are one tuple. Shown is that every way of splitting an input into updates gives
  the hash of the whole, and that the hash depends on neither the machine nor the alignment.
\<close>

datatype XXH_endianess = XXH_bigEndian | XXH_littleEndian
datatype XXH_alignment = XXH_aligned | XXH_unaligned

subsection \<open>Memory reads\<close>

definition XXH_swap32 :: "32 word \<Rightarrow> 32 word" where
  "XXH_swap32 x = (push_bit 24 x AND 0xff000000) OR (push_bit 8 x AND 0x00ff0000)
     OR (drop_bit 8 x AND 0x0000ff00) OR (drop_bit 24 x AND 0x000000ff)"

definition XXH_swap64 :: "64 word \<Rightarrow> 64 word" where
  "XXH_swap64 x = (push_bit 56 x AND 0xff00000000000000) OR (push_bit 40 x AND 0x00ff000000000000)
     OR (push_bit 24 x AND 0x0000ff0000000000) OR (push_bit 8 x AND 0x000000ff00000000)
     OR (drop_bit 8 x AND 0x00000000ff000000) OR (drop_bit 24 x AND 0x0000000000ff0000)
     OR (drop_bit 40 x AND 0x000000000000ff00) OR (drop_bit 56 x AND 0x00000000000000ff)"

definition XXH_read32 :: "XXH_endianess \<Rightarrow> byte list \<Rightarrow> 32 word" where
  "XXH_read32 cpu p = ucast (le_word (if cpu = XXH_littleEndian then take 4 p else rev (take 4 p)))"

definition XXH_read64 :: "XXH_endianess \<Rightarrow> byte list \<Rightarrow> 64 word" where
  "XXH_read64 cpu p = le_word (if cpu = XXH_littleEndian then take 8 p else rev (take 8 p))"

definition XXH_readLE32_align :: "XXH_endianess \<Rightarrow> byte list \<Rightarrow> XXH_endianess \<Rightarrow> XXH_alignment \<Rightarrow> 32 word" where
  "XXH_readLE32_align cpu p endian align =
     (if align = XXH_unaligned
      then if endian = XXH_littleEndian then XXH_read32 cpu p else XXH_swap32 (XXH_read32 cpu p)
      else if endian = XXH_littleEndian then XXH_read32 cpu p else XXH_swap32 (XXH_read32 cpu p))"

definition XXH_readLE64_align :: "XXH_endianess \<Rightarrow> byte list \<Rightarrow> XXH_endianess \<Rightarrow> XXH_alignment \<Rightarrow> 64 word" where
  "XXH_readLE64_align cpu p endian align =
     (if align = XXH_unaligned
      then if endian = XXH_littleEndian then XXH_read64 cpu p else XXH_swap64 (XXH_read64 cpu p)
      else if endian = XXH_littleEndian then XXH_read64 cpu p else XXH_swap64 (XXH_read64 cpu p))"

definition XXH_readLE32 :: "XXH_endianess \<Rightarrow> byte list \<Rightarrow> XXH_endianess \<Rightarrow> 32 word" where
  "XXH_readLE32 cpu p endian = XXH_readLE32_align cpu p endian XXH_unaligned"

definition XXH_readLE64 :: "XXH_endianess \<Rightarrow> byte list \<Rightarrow> XXH_endianess \<Rightarrow> 64 word" where
  "XXH_readLE64 cpu p endian = XXH_readLE64_align cpu p endian XXH_unaligned"

definition XXH_readBE32 :: "XXH_endianess \<Rightarrow> byte list \<Rightarrow> 32 word" where
  "XXH_readBE32 cpu p = (if cpu = XXH_littleEndian then XXH_swap32 (XXH_read32 cpu p) else XXH_read32 cpu p)"

definition XXH_readBE64 :: "XXH_endianess \<Rightarrow> byte list \<Rightarrow> 64 word" where
  "XXH_readBE64 cpu p = (if cpu = XXH_littleEndian then XXH_swap64 (XXH_read64 cpu p) else XXH_read64 cpu p)"

subsection \<open>The 32-bit hash\<close>

type_synonym lanes32 = "32 word \<times> 32 word \<times> 32 word \<times> 32 word"

definition XXH_rotl32 :: "32 word \<Rightarrow> nat \<Rightarrow> 32 word" where
  "XXH_rotl32 x r = push_bit r x OR drop_bit (32 - r) x"

definition PRIME32_1 :: "32 word" where "PRIME32_1 = 2654435761"
definition PRIME32_2 :: "32 word" where "PRIME32_2 = 2246822519"
definition PRIME32_3 :: "32 word" where "PRIME32_3 = 3266489917"
definition PRIME32_4 :: "32 word" where "PRIME32_4 = 668265263"
definition PRIME32_5 :: "32 word" where "PRIME32_5 = 374761393"

definition XXH32_round :: "32 word \<Rightarrow> 32 word \<Rightarrow> 32 word" where
  "XXH32_round seed input = XXH_rotl32 (seed + input * PRIME32_2) 13 * PRIME32_1"

definition XXH32_init :: "32 word \<Rightarrow> lanes32" where
  "XXH32_init seed = (seed + PRIME32_1 + PRIME32_2, seed + PRIME32_2, seed + 0, seed - PRIME32_1)"

definition XXH32_stripe :: "(byte list \<Rightarrow> 32 word) \<Rightarrow> lanes32 \<Rightarrow> byte list \<Rightarrow> lanes32" where
  "XXH32_stripe get v p = (case v of (v1, v2, v3, v4) \<Rightarrow>
     (XXH32_round v1 (get p), XXH32_round v2 (get (drop 4 p)),
      XXH32_round v3 (get (drop 8 p)), XXH32_round v4 (get (drop 12 p))))"

function XXH32_loop :: "(byte list \<Rightarrow> 32 word) \<Rightarrow> lanes32 \<Rightarrow> byte list \<Rightarrow> lanes32 \<times> byte list" where
  "XXH32_loop get v p = (if 16 \<le> length p then XXH32_loop get (XXH32_stripe get v p) (drop 16 p) else (v, p))"
  by pat_completeness auto
termination by (relation "measure (\<lambda>(_, _, p). length p)") auto

definition XXH32_converge :: "lanes32 \<Rightarrow> 32 word" where
  "XXH32_converge v = (case v of (v1, v2, v3, v4) \<Rightarrow>
     XXH_rotl32 v1 1 + XXH_rotl32 v2 7 + XXH_rotl32 v3 12 + XXH_rotl32 v4 18)"

function XXH32_words :: "(byte list \<Rightarrow> 32 word) \<Rightarrow> 32 word \<Rightarrow> byte list \<Rightarrow> 32 word \<times> byte list" where
  "XXH32_words get h32 p =
     (if 4 \<le> length p then XXH32_words get (XXH_rotl32 (h32 + get p * PRIME32_3) 17 * PRIME32_4) (drop 4 p)
      else (h32, p))"
  by pat_completeness auto
termination by (relation "measure (\<lambda>(_, _, p). length p)") auto

primrec XXH32_bytes :: "32 word \<Rightarrow> byte list \<Rightarrow> 32 word" where
  "XXH32_bytes h32 [] = h32"
| "XXH32_bytes h32 (x # p) = XXH32_bytes (XXH_rotl32 (h32 + ucast x * PRIME32_5) 11 * PRIME32_1) p"

definition XXH32_avalanche :: "32 word \<Rightarrow> 32 word" where
  "XXH32_avalanche h = (let h1 = h XOR drop_bit 15 h; h2 = h1 * PRIME32_2; h3 = h2 XOR drop_bit 13 h2;
     h4 = h3 * PRIME32_3 in h4 XOR drop_bit 16 h4)"

definition XXH32_finish :: "(byte list \<Rightarrow> 32 word) \<Rightarrow> 32 word \<Rightarrow> byte list \<Rightarrow> 32 word" where
  "XXH32_finish get h32 p = (case XXH32_words get h32 p of (h, q) \<Rightarrow> XXH32_avalanche (XXH32_bytes h q))"

definition XXH32_endian_align ::
  "XXH_endianess \<Rightarrow> byte list \<Rightarrow> 32 word \<Rightarrow> XXH_endianess \<Rightarrow> XXH_alignment \<Rightarrow> 32 word"
where
  "XXH32_endian_align cpu input seed endian align =
     (let get = (\<lambda>p. XXH_readLE32_align cpu p endian align); len = of_nat (length input) in
      if 16 \<le> length input
      then case XXH32_loop get (XXH32_init seed) input of (v, p) \<Rightarrow> XXH32_finish get (XXH32_converge v + len) p
      else XXH32_finish get (seed + PRIME32_5 + len) input)"

definition XXH32 :: "XXH_endianess \<Rightarrow> bool \<Rightarrow> nat \<Rightarrow> byte list \<Rightarrow> 32 word \<Rightarrow> 32 word" where
  "XXH32 cpu align_check addr input seed =
     (if align_check \<and> addr mod 4 = 0 then XXH32_endian_align cpu input seed cpu XXH_aligned
      else XXH32_endian_align cpu input seed cpu XXH_unaligned)"

record XXH32_state =
  total_len_32 :: "32 word"
  large_len :: bool
  x32_v :: lanes32
  mem32 :: "byte list"
  x32_memsize :: nat

definition XXH32_reset :: "32 word \<Rightarrow> XXH32_state" where
  "XXH32_reset seed = \<lparr> total_len_32 = 0, large_len = False, x32_v = XXH32_init seed,
     mem32 = replicate 16 0, x32_memsize = 0 \<rparr>"

definition XXH32_update_endian :: "XXH_endianess \<Rightarrow> XXH32_state \<Rightarrow> byte list \<Rightarrow> XXH_endianess \<Rightarrow> XXH32_state" where
  "XXH32_update_endian cpu s input endian =
     (let get = (\<lambda>p. XXH_readLE32 cpu p endian);
          s1 = s \<lparr> total_len_32 := total_len_32 s + of_nat (length input) \<rparr>;
          s2 = s1 \<lparr> large_len := large_len s1 \<or> 16 \<le> length input \<or> 16 \<le> total_len_32 s1 \<rparr> in
      if x32_memsize s2 + length input < 16
      then s2 \<lparr> mem32 := store (mem32 s2) (x32_memsize s2) input, x32_memsize := x32_memsize s2 + length input \<rparr>
      else
        let (s3, p) = (if x32_memsize s2 \<noteq> 0
              then let k = 16 - x32_memsize s2; m = store (mem32 s2) (x32_memsize s2) (take k input) in
                (s2 \<lparr> mem32 := m, x32_v := XXH32_stripe get (x32_v s2) m, x32_memsize := 0 \<rparr>, drop k input)
              else (s2, input));
            (v, q) = XXH32_loop get (x32_v s3) p;
            s4 = s3 \<lparr> x32_v := v \<rparr> in
        if q \<noteq> [] then s4 \<lparr> mem32 := store (mem32 s4) 0 q, x32_memsize := length q \<rparr> else s4)"

definition XXH32_update :: "XXH_endianess \<Rightarrow> XXH32_state \<Rightarrow> byte list \<Rightarrow> XXH32_state" where
  "XXH32_update cpu s input = XXH32_update_endian cpu s input cpu"

definition XXH32_digest_endian :: "XXH_endianess \<Rightarrow> XXH32_state \<Rightarrow> XXH_endianess \<Rightarrow> 32 word" where
  "XXH32_digest_endian cpu s endian =
     (let h32 = (if large_len s then XXH32_converge (x32_v s) else fst (snd (snd (x32_v s))) + PRIME32_5) in
      XXH32_finish (\<lambda>p. XXH_readLE32 cpu p endian) (h32 + total_len_32 s) (take (x32_memsize s) (mem32 s)))"

definition XXH32_digest :: "XXH_endianess \<Rightarrow> XXH32_state \<Rightarrow> 32 word" where
  "XXH32_digest cpu s = XXH32_digest_endian cpu s cpu"

definition XXH32_canonicalFromHash :: "XXH_endianess \<Rightarrow> 32 word \<Rightarrow> byte list" where
  "XXH32_canonicalFromHash cpu hash =
     (if cpu = XXH_littleEndian then le_image 4 (XXH_swap32 hash) else rev (le_image 4 hash))"

definition XXH32_hashFromCanonical :: "XXH_endianess \<Rightarrow> byte list \<Rightarrow> 32 word" where
  "XXH32_hashFromCanonical cpu src = XXH_readBE32 cpu src"

subsection \<open>The 64-bit hash\<close>

type_synonym lanes64 = "64 word \<times> 64 word \<times> 64 word \<times> 64 word"

definition XXH_rotl64 :: "64 word \<Rightarrow> nat \<Rightarrow> 64 word" where
  "XXH_rotl64 x r = push_bit r x OR drop_bit (64 - r) x"

definition PRIME64_1 :: "64 word" where "PRIME64_1 = 11400714785074694791"
definition PRIME64_2 :: "64 word" where "PRIME64_2 = 14029467366897019727"
definition PRIME64_3 :: "64 word" where "PRIME64_3 = 1609587929392839161"
definition PRIME64_4 :: "64 word" where "PRIME64_4 = 9650029242287828579"
definition PRIME64_5 :: "64 word" where "PRIME64_5 = 2870177450012600261"

definition XXH64_round :: "64 word \<Rightarrow> 64 word \<Rightarrow> 64 word" where
  "XXH64_round acc input = XXH_rotl64 (acc + input * PRIME64_2) 31 * PRIME64_1"

definition XXH64_mergeRound :: "64 word \<Rightarrow> 64 word \<Rightarrow> 64 word" where
  "XXH64_mergeRound acc val = (acc XOR XXH64_round 0 val) * PRIME64_1 + PRIME64_4"

definition XXH64_init :: "64 word \<Rightarrow> lanes64" where
  "XXH64_init seed = (seed + PRIME64_1 + PRIME64_2, seed + PRIME64_2, seed + 0, seed - PRIME64_1)"

definition XXH64_stripe :: "(byte list \<Rightarrow> 64 word) \<Rightarrow> lanes64 \<Rightarrow> byte list \<Rightarrow> lanes64" where
  "XXH64_stripe get v p = (case v of (v1, v2, v3, v4) \<Rightarrow>
     (XXH64_round v1 (get p), XXH64_round v2 (get (drop 8 p)),
      XXH64_round v3 (get (drop 16 p)), XXH64_round v4 (get (drop 24 p))))"

function XXH64_loop :: "(byte list \<Rightarrow> 64 word) \<Rightarrow> lanes64 \<Rightarrow> byte list \<Rightarrow> lanes64 \<times> byte list" where
  "XXH64_loop get v p = (if 32 \<le> length p then XXH64_loop get (XXH64_stripe get v p) (drop 32 p) else (v, p))"
  by pat_completeness auto
termination by (relation "measure (\<lambda>(_, _, p). length p)") auto

definition XXH64_converge :: "lanes64 \<Rightarrow> 64 word" where
  "XXH64_converge v = (case v of (v1, v2, v3, v4) \<Rightarrow>
     XXH64_mergeRound (XXH64_mergeRound (XXH64_mergeRound (XXH64_mergeRound
       (XXH_rotl64 v1 1 + XXH_rotl64 v2 7 + XXH_rotl64 v3 12 + XXH_rotl64 v4 18) v1) v2) v3) v4)"

function XXH64_words :: "(byte list \<Rightarrow> 64 word) \<Rightarrow> 64 word \<Rightarrow> byte list \<Rightarrow> 64 word \<times> byte list" where
  "XXH64_words get h64 p =
     (if 8 \<le> length p
      then XXH64_words get (XXH_rotl64 (h64 XOR XXH64_round 0 (get p)) 27 * PRIME64_1 + PRIME64_4) (drop 8 p)
      else (h64, p))"
  by pat_completeness auto
termination by (relation "measure (\<lambda>(_, _, p). length p)") auto

definition XXH64_half :: "(byte list \<Rightarrow> 32 word) \<Rightarrow> 64 word \<times> byte list \<Rightarrow> 64 word \<times> byte list" where
  "XXH64_half get32 s = (case s of (h64, p) \<Rightarrow>
     if 4 \<le> length p
     then (XXH_rotl64 (h64 XOR ucast (get32 p) * PRIME64_1) 23 * PRIME64_2 + PRIME64_3, drop 4 p) else (h64, p))"

primrec XXH64_bytes :: "64 word \<Rightarrow> byte list \<Rightarrow> 64 word" where
  "XXH64_bytes h64 [] = h64"
| "XXH64_bytes h64 (x # p) = XXH64_bytes (XXH_rotl64 (h64 XOR ucast x * PRIME64_5) 11 * PRIME64_1) p"

definition XXH64_avalanche :: "64 word \<Rightarrow> 64 word" where
  "XXH64_avalanche h = (let h1 = h XOR drop_bit 33 h; h2 = h1 * PRIME64_2; h3 = h2 XOR drop_bit 29 h2;
     h4 = h3 * PRIME64_3 in h4 XOR drop_bit 32 h4)"

definition XXH64_finish ::
  "(byte list \<Rightarrow> 64 word) \<Rightarrow> (byte list \<Rightarrow> 32 word) \<Rightarrow> 64 word \<Rightarrow> byte list \<Rightarrow> 64 word"
where
  "XXH64_finish get get32 h64 p =
     (case XXH64_half get32 (XXH64_words get h64 p) of (h, q) \<Rightarrow> XXH64_avalanche (XXH64_bytes h q))"

definition XXH64_endian_align ::
  "XXH_endianess \<Rightarrow> byte list \<Rightarrow> 64 word \<Rightarrow> XXH_endianess \<Rightarrow> XXH_alignment \<Rightarrow> 64 word"
where
  "XXH64_endian_align cpu input seed endian align =
     (let get = (\<lambda>p. XXH_readLE64_align cpu p endian align); get32 = (\<lambda>p. XXH_readLE32_align cpu p endian align);
          len = of_nat (length input) in
      if 32 \<le> length input
      then case XXH64_loop get (XXH64_init seed) input of (v, p) \<Rightarrow> XXH64_finish get get32 (XXH64_converge v + len) p
      else XXH64_finish get get32 (seed + PRIME64_5 + len) input)"

definition XXH64 :: "XXH_endianess \<Rightarrow> bool \<Rightarrow> nat \<Rightarrow> byte list \<Rightarrow> 64 word \<Rightarrow> 64 word" where
  "XXH64 cpu align_check addr input seed =
     (if align_check \<and> addr mod 8 = 0 then XXH64_endian_align cpu input seed cpu XXH_aligned
      else XXH64_endian_align cpu input seed cpu XXH_unaligned)"

record XXH64_state =
  total_len :: "64 word"
  x64_v :: lanes64
  mem64 :: "byte list"
  x64_memsize :: nat

definition XXH64_reset :: "64 word \<Rightarrow> XXH64_state" where
  "XXH64_reset seed = \<lparr> total_len = 0, x64_v = XXH64_init seed, mem64 = replicate 32 0, x64_memsize = 0 \<rparr>"

definition XXH64_update_endian :: "XXH_endianess \<Rightarrow> XXH64_state \<Rightarrow> byte list \<Rightarrow> XXH_endianess \<Rightarrow> XXH64_state" where
  "XXH64_update_endian cpu s input endian =
     (let get = (\<lambda>p. XXH_readLE64 cpu p endian);
          s2 = s \<lparr> total_len := total_len s + of_nat (length input) \<rparr> in
      if x64_memsize s2 + length input < 32
      then s2 \<lparr> mem64 := store (mem64 s2) (x64_memsize s2) input, x64_memsize := x64_memsize s2 + length input \<rparr>
      else
        let (s3, p) = (if x64_memsize s2 \<noteq> 0
              then let k = 32 - x64_memsize s2; m = store (mem64 s2) (x64_memsize s2) (take k input) in
                (s2 \<lparr> mem64 := m, x64_v := XXH64_stripe get (x64_v s2) m, x64_memsize := 0 \<rparr>, drop k input)
              else (s2, input));
            (v, q) = XXH64_loop get (x64_v s3) p;
            s4 = s3 \<lparr> x64_v := v \<rparr> in
        if q \<noteq> [] then s4 \<lparr> mem64 := store (mem64 s4) 0 q, x64_memsize := length q \<rparr> else s4)"

definition XXH64_update :: "XXH_endianess \<Rightarrow> XXH64_state \<Rightarrow> byte list \<Rightarrow> XXH64_state" where
  "XXH64_update cpu s input = XXH64_update_endian cpu s input cpu"

definition XXH64_digest_endian :: "XXH_endianess \<Rightarrow> XXH64_state \<Rightarrow> XXH_endianess \<Rightarrow> 64 word" where
  "XXH64_digest_endian cpu s endian =
     (let h64 = (if 32 \<le> total_len s then XXH64_converge (x64_v s) else fst (snd (snd (x64_v s))) + PRIME64_5) in
      XXH64_finish (\<lambda>p. XXH_readLE64 cpu p endian) (\<lambda>p. XXH_readLE32 cpu p endian) (h64 + total_len s)
        (take (x64_memsize s) (mem64 s)))"

definition XXH64_digest :: "XXH_endianess \<Rightarrow> XXH64_state \<Rightarrow> 64 word" where
  "XXH64_digest cpu s = XXH64_digest_endian cpu s cpu"

definition XXH64_canonicalFromHash :: "XXH_endianess \<Rightarrow> 64 word \<Rightarrow> byte list" where
  "XXH64_canonicalFromHash cpu hash =
     (if cpu = XXH_littleEndian then le_image 8 (XXH_swap64 hash) else rev (le_image 8 hash))"

definition XXH64_hashFromCanonical :: "XXH_endianess \<Rightarrow> byte list \<Rightarrow> 64 word" where
  "XXH64_hashFromCanonical cpu src = XXH_readBE64 cpu src"

declare XXH32_loop.simps [simp del] XXH32_words.simps [simp del] XXH64_loop.simps [simp del] XXH64_words.simps [simp del]

subsection \<open>Consuming a stream in stripes\<close>

text \<open>
  A hash that consumes its input in stripes of \<open>W\<close> bytes and keeps the rest: \<open>loop\<close> is the
  consuming loop, \<open>stripe\<close> one of its rounds. The laws are the unfolding of the loop and that a
  round reads its own stripe only.
\<close>

locale striped =
  fixes W :: nat
    and stripe :: "'v \<Rightarrow> byte list \<Rightarrow> 'v"
    and loop :: "'v \<Rightarrow> byte list \<Rightarrow> 'v \<times> byte list"
  assumes W_pos: "0 < W"
    and loop_unfold: "loop v p = (if W \<le> length p then loop (stripe v p) (drop W p) else (v, p))"
    and stripe_local: "W \<le> length p \<Longrightarrow> stripe v (take W p) = stripe v p"
begin

lemma loop_small: "length p < W \<Longrightarrow> loop v p = (v, p)"
  by (subst loop_unfold) simp

lemma loop_big: "W \<le> length p \<Longrightarrow> loop v p = loop (stripe v p) (drop W p)"
  by (subst loop_unfold) simp

lemma loop_append:
  "loop v (xs @ ys) = loop (fst (loop v xs)) (snd (loop v xs) @ ys)"
proof (induction "length xs" arbitrary: v xs rule: less_induct)
  case less
  show ?case
  proof (cases "W \<le> length xs")
    case True
    have "stripe v (xs @ ys) = stripe v xs"
      using True stripe_local [of xs v] stripe_local [of "xs @ ys" v] by simp
    then have "loop v (xs @ ys) = loop (stripe v xs) (drop W xs @ ys)"
      using True loop_big [of "xs @ ys" v] by simp
    also have "\<dots> = loop (fst (loop (stripe v xs) (drop W xs))) (snd (loop (stripe v xs) (drop W xs)) @ ys)"
      using True W_pos by (intro less) simp
    finally show ?thesis using loop_big [OF True, of v] by simp
  next
    case False
    then show ?thesis by (simp add: loop_small)
  qed
qed

lemma loop_rest: "length (snd (loop v p)) < W"
proof (induction "length p" arbitrary: v p rule: less_induct)
  case less
  show ?case
  proof (cases "W \<le> length p")
    case True
    then show ?thesis using less [of "drop W p" "stripe v p"] W_pos loop_big [OF True, of v] by simp
  next
    case False
    then show ?thesis by (simp add: loop_small)
  qed
qed

text \<open>Another loop that does the same on every full stripe is the same loop.\<close>

lemma loop_unique:
  assumes "\<And>v p. f v p = (if W \<le> length p then f (stripe' v p) (drop W p) else (v, p))"
    and "\<And>v p. W \<le> length p \<Longrightarrow> stripe' v p = stripe v p"
  shows "f v p = loop v p"
proof (induction "length p" arbitrary: v p rule: less_induct)
  case less
  show ?case
  proof (cases "W \<le> length p")
    case True
    then have "f v p = f (stripe v p) (drop W p)" by (subst assms(1)) (simp add: assms(2))
    then show ?thesis using less [of "drop W p" "stripe v p"] loop_big [OF True, of v] True W_pos by simp
  next
    case False
    then show ?thesis by (subst assms(1)) (simp add: loop_small)
  qed
qed

text \<open>
  The way of the streaming interface: \<open>m\<close> is what the buffer holds. Either the new input fits beside
  it, or it completes one stripe and the loop takes over.
\<close>

lemma feed_small:
  "loop v0 xs = (v, m) \<Longrightarrow> length m + length ys < W \<Longrightarrow> loop v0 (xs @ ys) = (v, m @ ys)"
  using loop_append [of v0 xs ys] by (simp add: loop_small)

lemma feed_full:
  assumes "loop v0 xs = (v, m)" and "W \<le> length m + length ys"
  shows "loop v0 (xs @ ys) = loop (stripe v (m @ take (W - length m) ys)) (drop (W - length m) ys)"
proof -
  have m: "length m < W" using loop_rest [of v0 xs] assms(1) by simp
  have "stripe v (m @ ys) = stripe v (take W (m @ ys))" using assms(2) stripe_local [of "m @ ys" v] by simp
  moreover have "loop v (m @ ys) = loop (stripe v (m @ ys)) (drop W (m @ ys))"
    using assms(2) by (intro loop_big) simp
  ultimately show ?thesis
    using assms(1) m loop_append [of v0 xs ys] by simp
qed

lemma feed_empty: "loop v0 xs = (v, []) \<Longrightarrow> loop v0 (xs @ ys) = loop v ys"
  using loop_append [of v0 xs ys] by simp

end

lemma XXH_readLE_local:
  "XXH_readLE32_align cpu (take n p) e a = (if 4 \<le> n then XXH_readLE32_align cpu p e a else XXH_readLE32_align cpu (take n p) e a)"
  "XXH_readLE64_align cpu (take m p) e a = (if 8 \<le> m then XXH_readLE64_align cpu p e a else XXH_readLE64_align cpu (take m p) e a)"
  by (simp_all add: XXH_readLE32_align_def XXH_readLE64_align_def XXH_read32_def XXH_read64_def)

interpretation x32: striped 16 "XXH32_stripe (\<lambda>p. XXH_readLE32_align cpu p e a)"
  "XXH32_loop (\<lambda>p. XXH_readLE32_align cpu p e a)" for cpu e a
proof
  show "XXH32_stripe (\<lambda>p. XXH_readLE32_align cpu p e a) v (take 16 p) = XXH32_stripe (\<lambda>p. XXH_readLE32_align cpu p e a) v p"
    if "16 \<le> length p" for v p
    using XXH_readLE_local(1) [of cpu 16 p] XXH_readLE_local(1) [of cpu 12 "drop 4 p"]
      XXH_readLE_local(1) [of cpu 8 "drop 8 p"] XXH_readLE_local(1) [of cpu 4 "drop 12 p"]
    by (simp add: XXH32_stripe_def drop_take)
qed (simp_all add: XXH32_loop.simps [where v = v for v])

interpretation x64: striped 32 "XXH64_stripe (\<lambda>p. XXH_readLE64_align cpu p e a)"
  "XXH64_loop (\<lambda>p. XXH_readLE64_align cpu p e a)" for cpu e a
proof
  show "XXH64_stripe (\<lambda>p. XXH_readLE64_align cpu p e a) v (take 32 p) = XXH64_stripe (\<lambda>p. XXH_readLE64_align cpu p e a) v p"
    if "32 \<le> length p" for v p
    using XXH_readLE_local(2) [of cpu 32 p] XXH_readLE_local(2) [of cpu 24 "drop 8 p"]
      XXH_readLE_local(2) [of cpu 16 "drop 16 p"] XXH_readLE_local(2) [of cpu 8 "drop 24 p"]
    by (simp add: XXH64_stripe_def drop_take)
qed (simp_all add: XXH64_loop.simps [where v = v for v])

interpretation w32: striped 4 "\<lambda>h p. XXH_rotl32 (h + XXH_readLE32_align cpu p e a * PRIME32_3) 17 * PRIME32_4"
  "XXH32_words (\<lambda>p. XXH_readLE32_align cpu p e a)" for cpu e a
  by unfold_locales
    (simp_all add: XXH32_words.simps [of _ v for v] XXH_readLE32_align_def XXH_read32_def)

interpretation w64: striped 8
  "\<lambda>h p. XXH_rotl64 (h XOR XXH64_round 0 (XXH_readLE64_align cpu p e a)) 27 * PRIME64_1 + PRIME64_4"
  "XXH64_words (\<lambda>p. XXH_readLE64_align cpu p e a)" for cpu e a
  by unfold_locales
    (simp_all add: XXH64_words.simps [of _ v for v] XXH_readLE64_align_def XXH_read64_def)

subsection \<open>Streaming\<close>

text \<open>The stream state after the input \<open>xs\<close>: the lanes have consumed its stripes, the buffer holds the rest.\<close>

definition x64_fed :: "XXH_endianess \<Rightarrow> 64 word \<Rightarrow> byte list \<Rightarrow> XXH64_state \<Rightarrow> bool" where
  "x64_fed cpu seed xs s \<longleftrightarrow> length (mem64 s) = 32 \<and> x64_memsize s < 32 \<and> total_len s = of_nat (length xs)
     \<and> XXH64_loop (\<lambda>p. XXH_readLE64_align cpu p cpu XXH_unaligned) (XXH64_init seed) xs
       = (x64_v s, take (x64_memsize s) (mem64 s))"

definition x32_fed :: "XXH_endianess \<Rightarrow> 32 word \<Rightarrow> byte list \<Rightarrow> XXH32_state \<Rightarrow> bool" where
  "x32_fed cpu seed xs s \<longleftrightarrow> length (mem32 s) = 16 \<and> x32_memsize s < 16 \<and> total_len_32 s = of_nat (length xs)
     \<and> (large_len s \<longleftrightarrow> 16 \<le> length xs)
     \<and> XXH32_loop (\<lambda>p. XXH_readLE32_align cpu p cpu XXH_unaligned) (XXH32_init seed) xs
       = (x32_v s, take (x32_memsize s) (mem32 s))"

lemma take_store: "k + length xs \<le> length m \<Longrightarrow> take (k + length xs) (store m k xs) = take k m @ xs"
  by (cases xs) (auto simp: store_def min_def)

lemma store_fill: "k \<le> length m \<Longrightarrow> length xs = length m - k \<Longrightarrow> store m k xs = take k m @ xs"
  using take_store [of k xs m] by (metis le_add_diff_inverse length_store order_refl take_all)

lemma x64_fed_reset: "x64_fed cpu seed [] (XXH64_reset seed)"
  by (simp add: x64_fed_def XXH64_reset_def x64.loop_small)

lemma x32_fed_reset: "x32_fed cpu seed [] (XXH32_reset seed)"
  by (simp add: x32_fed_def XXH32_reset_def x32.loop_small)

lemma x64_fed_update:
  assumes fed: "x64_fed cpu seed xs s"
  shows "x64_fed cpu seed (xs @ ys) (XXH64_update cpu s ys)"
proof -
  let ?g = "\<lambda>p. XXH_readLE64_align cpu p cpu XXH_unaligned"
  let ?m = "take (x64_memsize s) (mem64 s)"
  have mem: "length (mem64 s) = 32" "x64_memsize s < 32" and len: "total_len s = of_nat (length xs)"
    and loop: "XXH64_loop ?g (XXH64_init seed) xs = (x64_v s, ?m)"
    using fed by (simp_all add: x64_fed_def)
  have m: "length ?m = x64_memsize s" using mem by simp
  show ?thesis
  proof (cases "x64_memsize s + length ys < 32")
    case True
    then show ?thesis
      using mem len x64.feed_small [OF loop, of ys] m take_store [of "x64_memsize s" ys "mem64 s"]
      by (simp add: x64_fed_def XXH64_update_def XXH64_update_endian_def Let_def)
  next
    case False
    define k where "k = (if x64_memsize s = 0 then 0 else 32 - x64_memsize s)"
    define v1 where "v1 = (if x64_memsize s = 0 then x64_v s else XXH64_stripe ?g (x64_v s) (?m @ take k ys))"
    define m1 where "m1 = (if x64_memsize s = 0 then mem64 s else ?m @ take k ys)"
    obtain v q where vq: "XXH64_loop ?g v1 (drop k ys) = (v, q)" by fastforce
    have whole: "XXH64_loop ?g (XXH64_init seed) (xs @ ys) = (v, q)"
      using x64.feed_full [OF loop, of ys] x64.feed_empty [of cpu cpu XXH_unaligned _ xs "x64_v s" ys] loop vq m False
      by (auto simp: v1_def k_def split: if_splits)
    have q: "length q < 32" using x64.loop_rest [of cpu cpu XXH_unaligned v1 "drop k ys"] vq by simp
    have m1: "length m1 = 32" using mem False by (auto simp: m1_def k_def)
    have fill: "x64_memsize s \<noteq> 0 \<Longrightarrow> store (mem64 s) (x64_memsize s) (take k ys) = m1"
      using store_fill [of "x64_memsize s" "mem64 s" "take k ys"] mem False by (simp add: m1_def k_def)
    have "XXH64_update cpu s ys = s \<lparr> total_len := total_len s + of_nat (length ys), x64_v := v,
        mem64 := (if q = [] then m1 else store m1 0 q), x64_memsize := length q \<rparr>"
      using False fill vq unfolding XXH64_update_def XXH64_update_endian_def XXH_readLE64_def
      by (auto simp: Let_def v1_def k_def m1_def split: if_splits)
    then show ?thesis
      using whole q m1 len take_store [of 0 q m1] by (auto simp: x64_fed_def)
  qed
qed

text \<open>
  \<^verbatim>\<open>total_len_32\<close> wraps, \<^verbatim>\<open>large_len\<close> remembers: as long as the input is short of a stripe, the counter is exact.
\<close>

lemma x32_total_large:
  assumes "length xs < 16" "length ys < 16"
  shows "16 \<le> (of_nat (length xs) + of_nat (length ys) :: 32 word) \<longleftrightarrow> 16 \<le> length xs + length ys"
proof -
  have "unat (of_nat (length xs + length ys) :: 32 word) = length xs + length ys"
    using assms by (simp add: unsigned_of_nat take_bit_nat_eq_self del: of_nat_add)
  then show ?thesis by (simp add: word_le_nat_alt)
qed

lemma x32_fed_update:
  assumes fed: "x32_fed cpu seed xs s"
  shows "x32_fed cpu seed (xs @ ys) (XXH32_update cpu s ys)"
proof -
  let ?g = "\<lambda>p. XXH_readLE32_align cpu p cpu XXH_unaligned"
  let ?m = "take (x32_memsize s) (mem32 s)"
  have mem: "length (mem32 s) = 16" "x32_memsize s < 16" and len: "total_len_32 s = of_nat (length xs)"
    and large: "large_len s \<longleftrightarrow> 16 \<le> length xs"
    and loop: "XXH32_loop ?g (XXH32_init seed) xs = (x32_v s, ?m)"
    using fed by (simp_all add: x32_fed_def)
  have m: "length ?m = x32_memsize s" using mem by simp
  have large': "large_len s \<or> 16 \<le> length ys \<or> 16 \<le> total_len_32 s + of_nat (length ys) \<longleftrightarrow> 16 \<le> length (xs @ ys)"
    using large len x32_total_large [of xs ys] by (cases "length xs < 16"; cases "length ys < 16") auto
  show ?thesis
  proof (cases "x32_memsize s + length ys < 16")
    case True
    then show ?thesis
      using mem len large' x32.feed_small [OF loop, of ys] m take_store [of "x32_memsize s" ys "mem32 s"]
      by (simp add: x32_fed_def XXH32_update_def XXH32_update_endian_def Let_def)
  next
    case False
    define k where "k = (if x32_memsize s = 0 then 0 else 16 - x32_memsize s)"
    define v1 where "v1 = (if x32_memsize s = 0 then x32_v s else XXH32_stripe ?g (x32_v s) (?m @ take k ys))"
    define m1 where "m1 = (if x32_memsize s = 0 then mem32 s else ?m @ take k ys)"
    obtain v q where vq: "XXH32_loop ?g v1 (drop k ys) = (v, q)" by fastforce
    have whole: "XXH32_loop ?g (XXH32_init seed) (xs @ ys) = (v, q)"
      using x32.feed_full [OF loop, of ys] x32.feed_empty [of cpu cpu XXH_unaligned _ xs "x32_v s" ys] loop vq m False
      by (auto simp: v1_def k_def split: if_splits)
    have q: "length q < 16" using x32.loop_rest [of cpu cpu XXH_unaligned v1 "drop k ys"] vq by simp
    have m1: "length m1 = 16" using mem False by (auto simp: m1_def k_def)
    have fill: "x32_memsize s \<noteq> 0 \<Longrightarrow> store (mem32 s) (x32_memsize s) (take k ys) = m1"
      using store_fill [of "x32_memsize s" "mem32 s" "take k ys"] mem False by (simp add: m1_def k_def)
    have "XXH32_update cpu s ys = s \<lparr> total_len_32 := total_len_32 s + of_nat (length ys), large_len := 16 \<le> length (xs @ ys), x32_v := v,
        mem32 := (if q = [] then m1 else store m1 0 q), x32_memsize := length q \<rparr>"
      using False fill vq large' unfolding XXH32_update_def XXH32_update_endian_def XXH_readLE32_def
      by (auto simp: Let_def v1_def k_def m1_def split: if_splits)
    then show ?thesis
      using whole q m1 len take_store [of 0 q m1] by (auto simp: x32_fed_def)
  qed
qed

lemma x64_fed_digest:
  assumes "x64_fed cpu seed xs s" and "length xs < 2 ^ 64"
  shows "XXH64_digest cpu s = XXH64_endian_align cpu xs seed cpu XXH_unaligned"
proof -
  have n: "32 \<le> (of_nat (length xs) :: 64 word) \<longleftrightarrow> 32 \<le> length xs"
    using assms(2) by (simp add: word_le_nat_alt unsigned_of_nat take_bit_nat_eq_self)
  show ?thesis
    using assms(1) n x64.loop_small [of xs cpu cpu XXH_unaligned "XXH64_init seed"]
    by (cases "32 \<le> length xs")
      (simp_all add: x64_fed_def XXH64_digest_def XXH64_digest_endian_def XXH64_endian_align_def
        XXH_readLE64_def XXH_readLE32_def Let_def XXH64_init_def)
qed

lemma x32_fed_digest:
  assumes "x32_fed cpu seed xs s"
  shows "XXH32_digest cpu s = XXH32_endian_align cpu xs seed cpu XXH_unaligned"
  using assms x32.loop_small [of xs cpu cpu XXH_unaligned "XXH32_init seed"]
  by (cases "16 \<le> length xs")
    (simp_all add: x32_fed_def XXH32_digest_def XXH32_digest_endian_def XXH32_endian_align_def
      XXH_readLE32_def Let_def XXH32_init_def)

lemma x64_fed_stream: "x64_fed cpu seed xs s \<Longrightarrow> x64_fed cpu seed (xs @ concat ps) (foldl (XXH64_update cpu) s ps)"
proof (induction ps arbitrary: xs s)
  case (Cons p ps)
  from Cons.IH [OF x64_fed_update [OF Cons.prems, of p]] show ?case by simp
qed simp

lemma x32_fed_stream: "x32_fed cpu seed xs s \<Longrightarrow> x32_fed cpu seed (xs @ concat ps) (foldl (XXH32_update cpu) s ps)"
proof (induction ps arbitrary: xs s)
  case (Cons p ps)
  from Cons.IH [OF x32_fed_update [OF Cons.prems, of p]] show ?case by simp
qed simp

subsection \<open>Byte order and alignment\<close>

lemma swap64_masks:
  "(0xff00000000000000 :: 64 word) = push_bit 56 (mask 8)" "(0x00ff000000000000 :: 64 word) = push_bit 48 (mask 8)"
  "(0x0000ff0000000000 :: 64 word) = push_bit 40 (mask 8)" "(0x000000ff00000000 :: 64 word) = push_bit 32 (mask 8)"
  "(0x00000000ff000000 :: 64 word) = push_bit 24 (mask 8)" "(0x0000000000ff0000 :: 64 word) = push_bit 16 (mask 8)"
  "(0x000000000000ff00 :: 64 word) = push_bit 8 (mask 8)" "(0x00000000000000ff :: 64 word) = mask 8"
  by (simp_all add: mask_eq_exp_minus_1 push_bit_eq_mult)

lemma swap32_masks:
  "(0xff000000 :: 32 word) = push_bit 24 (mask 8)" "(0x00ff0000 :: 32 word) = push_bit 16 (mask 8)"
  "(0x0000ff00 :: 32 word) = push_bit 8 (mask 8)" "(0x000000ff :: 32 word) = mask 8"
  by (simp_all add: mask_eq_exp_minus_1 push_bit_eq_mult)

lemma bit_swap64:
  assumes "q < 8" "r < 8"
  shows "bit (XXH_swap64 x) (8 * q + r) \<longleftrightarrow> bit x (8 * (7 - q) + r)"
proof -
  from assms(1) have "q = 0 \<or> q = 1 \<or> q = 2 \<or> q = 3 \<or> q = 4 \<or> q = 5 \<or> q = 6 \<or> q = 7" by linarith
  then show ?thesis
    unfolding XXH_swap64_def swap64_masks using assms(2)
    by (elim disjE) (auto simp: bit_simps dest: bit_imp_le_length)
qed

lemma bit_swap32:
  assumes "q < 4" "r < 8"
  shows "bit (XXH_swap32 x) (8 * q + r) \<longleftrightarrow> bit x (8 * (3 - q) + r)"
proof -
  from assms(1) have "q = 0 \<or> q = 1 \<or> q = 2 \<or> q = 3" by linarith
  then show ?thesis
    unfolding XXH_swap32_def swap32_masks using assms(2)
    by (elim disjE) (auto simp: bit_simps dest: bit_imp_le_length)
qed

lemma swap64_rev:
  assumes "length bs = 8"
  shows "XXH_swap64 (le_word (rev bs)) = le_word bs"
proof (rule bit_word_eqI)
  fix n assume "n < LENGTH(64)"
  then have q: "n div 8 < 8" "n mod 8 < 8" by simp_all
  have n: "n = 8 * (n div 8) + n mod 8" by simp
  have "bit (XXH_swap64 (le_word (rev bs))) n \<longleftrightarrow> bit (le_word (rev bs)) (8 * (7 - n div 8) + n mod 8)"
    using bit_swap64 [OF q, of "le_word (rev bs)"] n by simp
  also have "\<dots> \<longleftrightarrow> bit (rev bs ! (7 - n div 8)) (n mod 8)"
    using q assms by (simp add: bit_le_word) linarith
  also have "rev bs ! (7 - n div 8) = bs ! (n div 8)"
    using q assms by (simp add: rev_nth)
  finally show "bit (XXH_swap64 (le_word (rev bs))) n \<longleftrightarrow> bit (le_word bs) n"
    using q assms \<open>n < LENGTH(64)\<close> by (simp add: bit_le_word)
qed

lemma swap32_rev:
  assumes "length bs = 4"
  shows "XXH_swap32 (ucast (le_word (rev bs))) = ucast (le_word bs)"
proof (rule bit_word_eqI)
  fix n assume n32: "n < LENGTH(32)"
  then have q: "n div 8 < 4" "n mod 8 < 8" by simp_all
  have n: "n = 8 * (n div 8) + n mod 8" by simp
  have "bit (XXH_swap32 (ucast (le_word (rev bs)))) n
      \<longleftrightarrow> bit (ucast (le_word (rev bs)) :: 32 word) (8 * (3 - n div 8) + n mod 8)"
    using bit_swap32 [OF q, of "ucast (le_word (rev bs))"] n by simp
  also have "\<dots> \<longleftrightarrow> bit (rev bs ! (3 - n div 8)) (n mod 8)"
    using q assms by (simp add: bit_le_word bit_unsigned_iff) linarith
  also have "rev bs ! (3 - n div 8) = bs ! (n div 8)"
    using q assms by (simp add: rev_nth)
  finally show "bit (XXH_swap32 (ucast (le_word (rev bs)))) n \<longleftrightarrow> bit (ucast (le_word bs) :: 32 word) n"
    using q assms n32 by (simp add: bit_le_word bit_unsigned_iff)
qed

text \<open>With enough bytes left, every machine reads the same little-endian word.\<close>

lemma XXH_readLE64_le: "8 \<le> length p \<Longrightarrow> XXH_readLE64_align cpu p cpu a = le_word (take 8 p)"
  using swap64_rev [of "take 8 p"] by (cases cpu) (simp_all add: XXH_readLE64_align_def XXH_read64_def)

lemma XXH_readLE32_le: "4 \<le> length p \<Longrightarrow> XXH_readLE32_align cpu p cpu a = ucast (le_word (take 4 p))"
  using swap32_rev [of "take 4 p"] by (cases cpu) (simp_all add: XXH_readLE32_align_def XXH_read32_def)

text \<open>The loops read only where enough bytes are left, so they agree on all machines.\<close>

lemma XXH64_loop_same: "XXH64_loop (\<lambda>p. XXH_readLE64_align cpu p cpu a) v p
    = XXH64_loop (\<lambda>p. XXH_readLE64_align cpu' p cpu' a') v p"
  by (rule x64.loop_unique) (simp_all add: XXH64_loop.simps [where v = v for v] XXH64_stripe_def XXH_readLE64_le)

lemma XXH32_loop_same: "XXH32_loop (\<lambda>p. XXH_readLE32_align cpu p cpu a) v p
    = XXH32_loop (\<lambda>p. XXH_readLE32_align cpu' p cpu' a') v p"
  by (rule x32.loop_unique) (simp_all add: XXH32_loop.simps [where v = v for v] XXH32_stripe_def XXH_readLE32_le)

lemma XXH64_words_same: "XXH64_words (\<lambda>p. XXH_readLE64_align cpu p cpu a) v p
    = XXH64_words (\<lambda>p. XXH_readLE64_align cpu' p cpu' a') v p"
  by (rule w64.loop_unique) (simp_all add: XXH64_words.simps [of _ v for v] XXH_readLE64_le)

lemma XXH32_words_same: "XXH32_words (\<lambda>p. XXH_readLE32_align cpu p cpu a) v p
    = XXH32_words (\<lambda>p. XXH_readLE32_align cpu' p cpu' a') v p"
  by (rule w32.loop_unique) (simp_all add: XXH32_words.simps [of _ v for v] XXH_readLE32_le)

lemma XXH64_half_same: "XXH64_half (\<lambda>p. XXH_readLE32_align cpu p cpu a) s = XXH64_half (\<lambda>p. XXH_readLE32_align cpu' p cpu' a') s"
  by (simp add: XXH64_half_def XXH_readLE32_le split: prod.split)

lemma XXH64_endian_align_same:
  "XXH64_endian_align cpu input seed cpu a = XXH64_endian_align cpu' input seed cpu' a'"
  unfolding XXH64_endian_align_def XXH64_finish_def Let_def
    XXH64_loop_same [of cpu a _ _ cpu' a'] XXH64_words_same [of cpu a _ _ cpu' a'] XXH64_half_same [of cpu a _ cpu' a'] ..

lemma XXH32_endian_align_same:
  "XXH32_endian_align cpu input seed cpu a = XXH32_endian_align cpu' input seed cpu' a'"
  unfolding XXH32_endian_align_def XXH32_finish_def Let_def
    XXH32_loop_same [of cpu a _ _ cpu' a'] XXH32_words_same [of cpu a _ _ cpu' a'] ..

lemma XXH64_any: "XXH64 cpu chk addr input seed = XXH64_endian_align cpu' input seed cpu' a'"
  unfolding XXH64_def by (auto intro: XXH64_endian_align_same)

lemma XXH32_any: "XXH32 cpu chk addr input seed = XXH32_endian_align cpu' input seed cpu' a'"
  unfolding XXH32_def by (auto intro: XXH32_endian_align_same)

subsection \<open>Canonical form\<close>

lemma bit_le_word_at:
  "i < length bs \<Longrightarrow> length bs \<le> 8 \<Longrightarrow> n < 8 \<Longrightarrow> bit (le_word bs) (8 * i + n) \<longleftrightarrow> bit (bs ! i) n"
  by (simp add: bit_le_word)

lemma le_image_le_word8: "length bs = 8 \<Longrightarrow> le_image 8 (le_word bs) = bs"
  by (rule nth_equalityI)
    (auto intro!: bit_word_eqI simp: le_image_def bit_low8 bit_drop_bit_eq bit_le_word_at)

lemma le_image_le_word4: "length bs = 4 \<Longrightarrow> le_image 4 (ucast (le_word bs) :: 32 word) = bs"
  by (rule nth_equalityI)
    (auto intro!: bit_word_eqI simp: le_image_def bit_low8 bit_drop_bit_eq bit_unsigned_iff bit_le_word_at)

lemma le_word_image8: "le_word (le_image 8 (c :: 64 word)) = c"
  using le_word_bytes [of c] by (simp add: le_image_def)

lemma le_word_image4: "ucast (le_word (le_image 4 (c :: 32 word))) = c"
proof (rule bit_word_eqI)
  fix n assume "n < LENGTH(32)"
  then have "n div 8 < 4" "n < 32" by simp_all
  then show "bit (ucast (le_word (le_image 4 c)) :: 32 word) n = bit c n"
    by (simp add: le_image_def bit_le_word bit_low8 bit_drop_bit_eq bit_unsigned_iff)
qed

lemma swap64_image: "le_image 8 (XXH_swap64 h) = rev (le_image 8 h)"
  using swap64_rev [of "rev (le_image 8 h)"] le_image_le_word8 [of "rev (le_image 8 h)"] by (simp add: le_word_image8)

lemma swap32_image: "le_image 4 (XXH_swap32 h) = rev (le_image 4 h)"
  using swap32_rev [of "rev (le_image 4 h)"] le_image_le_word4 [of "rev (le_image 4 h)"] by (simp add: le_word_image4)

subsection \<open>The properties\<close>

text \<open>C35.
  Streaming is hashing: whatever pieces an input is fed in, on whatever machine, the digest of the stream is
  the one-shot hash of the whole input, computed on any machine, at any address, with or without the alignment
  check. For the 64-bit hash this holds below the wrap of its 64-bit length counter; the 32-bit hash needs no bound.
\<close>

theorem xxh_stream_is_one_shot:
  "(length (concat ps) < 2 ^ 64 \<longrightarrow>
      XXH64_digest cpu (foldl (XXH64_update cpu) (XXH64_reset seed) ps) = XXH64 cpu' chk addr (concat ps) seed)
   \<and> XXH32_digest cpu (foldl (XXH32_update cpu) (XXH32_reset seed32) ps) = XXH32 cpu' chk addr (concat ps) seed32"
proof
  have "x64_fed cpu seed (concat ps) (foldl (XXH64_update cpu) (XXH64_reset seed) ps)"
    using x64_fed_stream [OF x64_fed_reset, of cpu seed ps] by simp
  then show "length (concat ps) < 2 ^ 64 \<longrightarrow>
      XXH64_digest cpu (foldl (XXH64_update cpu) (XXH64_reset seed) ps) = XXH64 cpu' chk addr (concat ps) seed"
    using x64_fed_digest XXH64_any [of cpu' chk addr "concat ps" seed cpu XXH_unaligned] by metis
  have "x32_fed cpu seed32 (concat ps) (foldl (XXH32_update cpu) (XXH32_reset seed32) ps)"
    using x32_fed_stream [OF x32_fed_reset, of cpu seed32 ps] by simp
  then show "XXH32_digest cpu (foldl (XXH32_update cpu) (XXH32_reset seed32) ps) = XXH32 cpu' chk addr (concat ps) seed32"
    using x32_fed_digest XXH32_any [of cpu' chk addr "concat ps" seed32 cpu XXH_unaligned] by metis
qed

theorem xxh_stream_is_one_shot_witness:
  "XXH64_digest XXH_bigEndian (foldl (XXH64_update XXH_bigEndian) (XXH64_reset 7) [replicate 20 1, replicate 30 2])
    = XXH64 XXH_littleEndian True 8 (replicate 20 1 @ replicate 30 2) 7"
  using xxh_stream_is_one_shot [of "[replicate 20 1, replicate 30 2]" XXH_bigEndian 7 XXH_littleEndian True 8 0]
  by (simp del: XXH64_def)

text \<open>The canonical form of a hash is its big-endian bytes on every machine, and any machine reads it back.
\<close>

theorem xxh_canonical_roundtrip:
  "XXH64_canonicalFromHash cpu h = rev (le_image 8 h) \<and> XXH64_hashFromCanonical cpu' (XXH64_canonicalFromHash cpu h) = h
   \<and> XXH32_canonicalFromHash cpu g = rev (le_image 4 g) \<and> XXH32_hashFromCanonical cpu' (XXH32_canonicalFromHash cpu g) = g"
proof -
  have c: "XXH64_canonicalFromHash cpu h = rev (le_image 8 h)" "XXH32_canonicalFromHash cpu g = rev (le_image 4 g)"
    by (simp_all add: XXH64_canonicalFromHash_def XXH32_canonicalFromHash_def swap64_image swap32_image)
  show ?thesis
    unfolding c XXH64_hashFromCanonical_def XXH32_hashFromCanonical_def
    using swap64_rev [of "le_image 8 h"] swap32_rev [of "le_image 4 g"]
    by (simp add: XXH_readBE64_def XXH_readBE32_def XXH_read64_def XXH_read32_def le_word_image8 le_word_image4)
qed

end
