(* ===== verification/Palf_Entry.thy ===== *)
theory Palf_Entry
  imports Palf_Checksum Palf_Scn Ob_Xxhash
begin

section \<open>Log entries: \<^verbatim>\<open>log_entry_header.cpp\<close>, \<^verbatim>\<open>log_entry.cpp\<close>, \<^verbatim>\<open>share/log/ob_log_base_header.cpp\<close>\<close>

text \<open>
  A log entry on disk is a 32-byte header and its data. The header carries the CRC of the data
  and, in the low 16 bits of \<^verbatim>\<open>flag_\<close>, a hash of its own bytes in memory, which is little-endian
  (\<open>leh_image\<close>); on disk the fields are big-endian. \<open>hw\<close> and \<open>addr\<close> are the CRC routine of the
  machine and the address of the data, as in the checksum theory. Objects that a decoder fills
  keep the fields decoded before a failure. An entry points into the buffer it was decoded from:
  its \<^verbatim>\<open>buf_\<close> is the buffer from that position on. Left out are the printers.
\<close>

subsection \<open>The header in front of the data\<close>

datatype ObReplayBarrierType = INVALID_BARRIER | STRICT_BARRIER | PRE_BARRIER | NO_NEED_BARRIER

record ObLogBaseHeader =
  lbh_version :: "16 word"
  lbh_log_type :: "16 word"
  lbh_flag :: "32 word"
  lbh_replay_hint :: "64 word"

definition INVALID_LOG_BASE_TYPE :: "16 word" where "INVALID_LOG_BASE_TYPE = 0"
definition PADDING_LOG_BASE_TYPE :: "16 word" where "PADDING_LOG_BASE_TYPE = 25"
definition BASE_HEADER_VERSION :: "16 word" where "BASE_HEADER_VERSION = 1"
definition NEED_POST_REPLAY_BARRIER_FLAG :: "32 word" where "NEED_POST_REPLAY_BARRIER_FLAG = push_bit 31 1"
definition NEED_PRE_REPLAY_BARRIER_FLAG :: "32 word" where "NEED_PRE_REPLAY_BARRIER_FLAG = push_bit 30 1"

definition lbh_make :: "16 word \<Rightarrow> ObReplayBarrierType \<Rightarrow> 64 word \<Rightarrow> ObLogBaseHeader" where
  "lbh_make log_type barrier hint = \<lparr> lbh_version = BASE_HEADER_VERSION, lbh_log_type = log_type,
     lbh_flag = (case barrier of
         NO_NEED_BARRIER \<Rightarrow> 0
       | PRE_BARRIER \<Rightarrow> NEED_PRE_REPLAY_BARRIER_FLAG
       | STRICT_BARRIER \<Rightarrow> NEED_POST_REPLAY_BARRIER_FLAG OR NEED_PRE_REPLAY_BARRIER_FLAG
       | INVALID_BARRIER \<Rightarrow> NEED_POST_REPLAY_BARRIER_FLAG OR NEED_PRE_REPLAY_BARRIER_FLAG),
     lbh_replay_hint = hint \<rparr>"

definition lbh_reset :: ObLogBaseHeader where
  "lbh_reset = \<lparr> lbh_version = 0, lbh_log_type = INVALID_LOG_BASE_TYPE, lbh_flag = 0, lbh_replay_hint = 0 \<rparr>"

definition lbh_is_valid :: "ObLogBaseHeader \<Rightarrow> bool" where
  "lbh_is_valid h \<longleftrightarrow> sint (lbh_version h) > 0 \<and> sint (lbh_log_type h) > 0"

definition need_pre_replay_barrier :: "ObLogBaseHeader \<Rightarrow> bool" where
  "need_pre_replay_barrier h \<longleftrightarrow> lbh_flag h AND NEED_PRE_REPLAY_BARRIER_FLAG \<noteq> 0"

definition need_post_replay_barrier :: "ObLogBaseHeader \<Rightarrow> bool" where
  "need_post_replay_barrier h \<longleftrightarrow> lbh_flag h AND NEED_POST_REPLAY_BARRIER_FLAG \<noteq> 0"

definition lbh_serialize :: "ObLogBaseHeader \<Rightarrow> cbuf \<Rightarrow> int \<Rightarrow> int \<Rightarrow> enc_res" where
  "lbh_serialize h buf buf_len pos =
     (if buf = None \<or> buf_len \<le> 0 then (OB_INVALID_ARGUMENT, pos, buf)
      else enc_then (\<lambda>b l p. encode_i16 b l p (lbh_version h))
          (enc_then (\<lambda>b l p. encode_i16 b l p (lbh_log_type h))
          (enc_then (\<lambda>b l p. encode_i32 b l p (lbh_flag h))
                    (\<lambda>b l p. encode_i64 b l p (lbh_replay_hint h)))) buf buf_len pos)"

definition lbh_fields :: "cbuf \<Rightarrow> int \<Rightarrow> ObLogBaseHeader fld_res \<Rightarrow> ObLogBaseHeader fld_res" where
  "lbh_fields = rd_then (rd decode_i16 (\<lambda>v. lbh_version_update (\<lambda>_. v)))
     (rd_then (rd decode_i16 (\<lambda>v. lbh_log_type_update (\<lambda>_. v)))
     (rd_then (rd decode_i32 (\<lambda>v. lbh_flag_update (\<lambda>_. v)))
              (rd decode_i64 (\<lambda>v. lbh_replay_hint_update (\<lambda>_. v)))))"

definition lbh_deserialize :: "cbuf \<Rightarrow> int \<Rightarrow> int \<Rightarrow> ObLogBaseHeader \<Rightarrow> ObLogBaseHeader fld_res" where
  "lbh_deserialize buf data_len pos h =
     (if buf = None \<or> data_len \<le> 0 then (OB_INVALID_ARGUMENT, pos, h)
      else lbh_fields buf data_len (OB_SUCCESS, pos, h))"

definition lbh_get_serialize_size :: "ObLogBaseHeader \<Rightarrow> int" where
  "lbh_get_serialize_size h = encoded_length_i16 (lbh_version h) + encoded_length_i16 (lbh_log_type h)
     + encoded_length_i32 (lbh_flag h) + encoded_length_i64 (lbh_replay_hint h)"

text \<open>\<^verbatim>\<open>sizeof(ObLogBaseHeader)\<close>\<close>

definition LBH_SIZEOF :: int where "LBH_SIZEOF = 16"

subsection \<open>The header of a log entry\<close>

record LogEntryHeader =
  leh_magic :: "16 word"
  leh_version :: "16 word"
  leh_log_size :: "32 word"
  leh_scn :: SCN
  leh_data_checksum :: "64 word"
  leh_flag :: "64 word"

definition LEH_MAGIC :: "16 word" where "LEH_MAGIC = 0x4C48"
definition LOG_ENTRY_HEADER_VERSION :: "16 word" where "LOG_ENTRY_HEADER_VERSION = 2"
definition PADDING_TYPE_MASK :: "64 word" where "PADDING_TYPE_MASK = push_bit 62 1"
definition CRC16_MASK :: "64 word" where "CRC16_MASK = 0xffff"
definition LEH_HEADER_SER_SIZE :: int where "LEH_HEADER_SER_SIZE = 32"
definition PADDING_LOG_ENTRY_SIZE :: int where "PADDING_LOG_ENTRY_SIZE = LEH_HEADER_SER_SIZE + LBH_SIZEOF"

definition leh_new :: LogEntryHeader where
  "leh_new = \<lparr> leh_magic = 0, leh_version = 0, leh_log_size = 0, leh_scn = invalid_scn,
     leh_data_checksum = 0, leh_flag = 0 \<rparr>"

definition leh_reset :: LogEntryHeader where
  "leh_reset = \<lparr> leh_magic = 0, leh_version = 0, leh_log_size = - 1, leh_scn = invalid_scn,
     leh_data_checksum = 0, leh_flag = 0 \<rparr>"

definition leh_get_data_len :: "LogEntryHeader \<Rightarrow> int" where
  "leh_get_data_len h = sint (leh_log_size h)"

definition leh_is_valid :: "LogEntryHeader \<Rightarrow> bool" where
  "leh_is_valid h \<longleftrightarrow> leh_magic h = LEH_MAGIC \<and> leh_version h = LOG_ENTRY_HEADER_VERSION
     \<and> leh_get_data_len h > 0 \<and> scn_is_valid (leh_scn h)"

text \<open>The hash of a header: 16 bits of the 64-bit hash of its memory, the seed sign-extended.\<close>

definition xxhash_16 :: "16 word \<Rightarrow> byte list \<Rightarrow> 16 word" where
  "xxhash_16 checksum data = ucast (XXH64 XXH_littleEndian False 0 data (scast checksum) AND 0xffff)"

definition leh_image :: "LogEntryHeader \<Rightarrow> byte list" where
  "leh_image h = le_image 2 (leh_magic h) @ le_image 2 (leh_version h) @ le_image 4 (leh_log_size h)
     @ le_image 8 (scn_val (leh_scn h)) @ le_image 8 (leh_data_checksum h) @ le_image 8 (leh_flag h)"

definition leh_calculate_header_checksum :: "LogEntryHeader \<Rightarrow> 16 word" where
  "leh_calculate_header_checksum h = xxhash_16 0 (leh_image (h \<lparr> leh_flag := leh_flag h AND NOT CRC16_MASK \<rparr>))"

definition leh_update_header_checksum :: "LogEntryHeader \<Rightarrow> LogEntryHeader" where
  "leh_update_header_checksum h =
     (let h1 = h \<lparr> leh_flag := leh_flag h AND NOT CRC16_MASK \<rparr> in
      h1 \<lparr> leh_flag := leh_flag h1 OR ucast (leh_calculate_header_checksum h1) \<rparr>)"

definition leh_check_header_checksum :: "LogEntryHeader \<Rightarrow> bool" where
  "leh_check_header_checksum h =
     (let header_checksum = leh_calculate_header_checksum h in
      if LOG_ENTRY_HEADER_VERSION \<noteq> leh_version h then False
      else header_checksum = ucast (leh_flag h AND CRC16_MASK))"

definition leh_check_header_integrity :: "LogEntryHeader \<Rightarrow> bool" where
  "leh_check_header_integrity h \<longleftrightarrow> leh_is_valid h \<and> leh_check_header_checksum h"

definition leh_is_padding_log :: "LogEntryHeader \<Rightarrow> bool" where
  "leh_is_padding_log h \<longleftrightarrow> sint (leh_flag h AND PADDING_TYPE_MASK) > 0"

definition leh_generate_header ::
  "bool \<Rightarrow> nat \<Rightarrow> cbuf \<Rightarrow> int \<Rightarrow> SCN \<Rightarrow> LogEntryHeader \<Rightarrow> ob_ret \<times> LogEntryHeader"
where
  "leh_generate_header hw addr log_data data_len scn h =
     (case log_data of None \<Rightarrow> (OB_INVALID_ARGUMENT, h)
      | Some d \<Rightarrow>
        if data_len \<le> 0 \<or> \<not> scn_is_valid scn then (OB_INVALID_ARGUMENT, h)
        else (OB_SUCCESS, leh_update_header_checksum (h \<lparr> leh_magic := LEH_MAGIC, leh_version := LOG_ENTRY_HEADER_VERSION,
               leh_log_size := word_of_int data_len, leh_scn := scn,
               leh_data_checksum := ob_crc64 hw addr 0 (take (nat data_len) d) \<rparr>)))"

definition leh_generate_padding_header ::
  "bool \<Rightarrow> nat \<Rightarrow> cbuf \<Rightarrow> int \<Rightarrow> int \<Rightarrow> SCN \<Rightarrow> LogEntryHeader \<Rightarrow> ob_ret \<times> LogEntryHeader"
where
  "leh_generate_padding_header hw addr log_data base_header_len padding_data_len scn h =
     (case log_data of None \<Rightarrow> (OB_INVALID_ARGUMENT, h)
      | Some d \<Rightarrow>
        if base_header_len \<le> 0 \<or> padding_data_len \<le> 0 \<or> \<not> scn_is_valid scn then (OB_INVALID_ARGUMENT, h)
        else (OB_SUCCESS, leh_update_header_checksum (h \<lparr> leh_magic := LEH_MAGIC, leh_version := LOG_ENTRY_HEADER_VERSION,
               leh_log_size := word_of_int padding_data_len, leh_scn := scn,
               leh_data_checksum := ob_crc64 hw addr 0 (take (nat base_header_len) d),
               leh_flag := leh_flag h OR PADDING_TYPE_MASK \<rparr>)))"

definition leh_check_integrity :: "bool \<Rightarrow> nat \<Rightarrow> LogEntryHeader \<Rightarrow> cbuf \<Rightarrow> int \<Rightarrow> bool" where
  "leh_check_integrity hw addr h buf data_len =
     (let valid_data_len = if leh_is_padding_log h then LBH_SIZEOF else data_len in
      case buf of None \<Rightarrow> False
      | Some b \<Rightarrow>
        if data_len \<le> 0 then False
        else if LEH_MAGIC \<noteq> leh_magic h then False
        else if \<not> leh_check_header_checksum h then False
        else leh_data_checksum h = ob_crc64 hw addr 0 (take (nat valid_data_len) b))"

definition leh_serialize :: "LogEntryHeader \<Rightarrow> cbuf \<Rightarrow> int \<Rightarrow> int \<Rightarrow> enc_res" where
  "leh_serialize h buf buf_len pos =
     (if buf = None \<or> buf_len \<le> 0 then (OB_INVALID_ARGUMENT, pos, buf)
      else if LOG_ENTRY_HEADER_VERSION \<noteq> leh_version h then (OB_VERSION_NOT_MATCH, pos, buf)
      else case enc_then (\<lambda>b l p. encode_i16 b l p (leh_magic h))
          (enc_then (\<lambda>b l p. encode_i16 b l p (leh_version h))
          (enc_then (\<lambda>b l p. encode_i32 b l p (leh_log_size h))
          (enc_then (scn_fixed_serialize (leh_scn h))
          (enc_then (\<lambda>b l p. encode_i64 b l p (leh_data_checksum h))
                    (\<lambda>b l p. encode_i64 b l p (leh_flag h)))))) buf buf_len pos of
        (r, new_pos, buf') \<Rightarrow> if r \<noteq> OB_SUCCESS then (OB_BUF_NOT_ENOUGH, pos, buf') else (OB_SUCCESS, new_pos, buf'))"

definition leh_fields1 :: "cbuf \<Rightarrow> int \<Rightarrow> LogEntryHeader fld_res \<Rightarrow> LogEntryHeader fld_res" where
  "leh_fields1 = rd_then (rd decode_i16 (\<lambda>v. leh_magic_update (\<lambda>_. v)))
                         (rd decode_i16 (\<lambda>v. leh_version_update (\<lambda>_. v)))"

definition leh_fields2 :: "cbuf \<Rightarrow> int \<Rightarrow> LogEntryHeader fld_res \<Rightarrow> LogEntryHeader fld_res" where
  "leh_fields2 = rd_then (rd decode_i32 (\<lambda>v. leh_log_size_update (\<lambda>_. v)))
     (rd_then (rd scn_fixed_deserialize (\<lambda>v. leh_scn_update (\<lambda>_. v)))
     (rd_then (rd decode_i64 (\<lambda>v. leh_data_checksum_update (\<lambda>_. v)))
              (rd decode_i64 (\<lambda>v. leh_flag_update (\<lambda>_. v)))))"

definition leh_deserialize :: "cbuf \<Rightarrow> int \<Rightarrow> int \<Rightarrow> LogEntryHeader \<Rightarrow> LogEntryHeader fld_res" where
  "leh_deserialize buf data_len pos h =
     (if buf = None \<or> data_len \<le> 0 then (OB_INVALID_ARGUMENT, pos, h)
      else case leh_fields1 buf data_len (OB_SUCCESS, pos, h) of (r1, pos1, h1) \<Rightarrow>
        if r1 \<noteq> OB_SUCCESS then (OB_BUF_NOT_ENOUGH, pos, h1)
        else if LOG_ENTRY_HEADER_VERSION \<noteq> leh_version h1 then (OB_VERSION_NOT_MATCH, pos, h1)
        else case leh_fields2 buf data_len (r1, pos1, h1) of (r2, pos2, h2) \<Rightarrow>
          if r2 \<noteq> OB_SUCCESS then (OB_BUF_NOT_ENOUGH, pos, h2)
          else if \<not> leh_check_header_integrity h2 then (OB_INVALID_DATA, pos, h2)
          else (OB_SUCCESS, pos2, h2))"

definition leh_get_serialize_size :: "LogEntryHeader \<Rightarrow> int" where
  "leh_get_serialize_size h = encoded_length_i16 (leh_magic h) + encoded_length_i16 (leh_version h)
     + encoded_length_i32 (leh_log_size h) + get_fixed_serialize_size (leh_scn h)
     + encoded_length_i64 (leh_data_checksum h) + encoded_length_i64 (leh_flag h)"

text \<open>The padding entry that fills up a block: header and base header, written at the start of \<^verbatim>\<open>out_buf\<close>.\<close>

definition generate_padding_log_buf ::
  "bool \<Rightarrow> nat \<Rightarrow> int \<Rightarrow> SCN \<Rightarrow> cbuf \<Rightarrow> int \<Rightarrow> ob_ret \<times> cbuf"
where
  "generate_padding_log_buf hw addr padding_data_len scn out_buf padding_valid_data_len =
     (let header = leh_new;
          base_header = lbh_make PADDING_LOG_BASE_TYPE NO_NEED_BARRIER 0;
          base_header_len = lbh_get_serialize_size base_header;
          header_len = leh_get_serialize_size header;
          serialize_len = base_header_len + header_len in
      if padding_data_len \<le> 0 \<or> \<not> scn_is_valid scn \<or> out_buf = None
         \<or> padding_valid_data_len < serialize_len \<or> padding_data_len < padding_valid_data_len
      then (OB_INVALID_ARGUMENT, out_buf)
      else case lbh_serialize base_header out_buf padding_valid_data_len header_len of (r1, p1, buf1) \<Rightarrow>
        if r1 \<noteq> OB_SUCCESS then (r1, buf1)
        else case leh_generate_padding_header hw addr (map_option (drop (nat header_len)) buf1) base_header_len
                   padding_data_len scn header of (r2, header2) \<Rightarrow>
          if r2 \<noteq> OB_SUCCESS then (r2, buf1)
          else case leh_serialize header2 buf1 header_len 0 of (r3, p3, buf3) \<Rightarrow> (r3, buf3))"

subsection \<open>A log entry\<close>

record LogEntry =
  le_header :: LogEntryHeader
  le_buf :: cbuf

definition le_new :: LogEntry where "le_new = \<lparr> le_header = leh_new, le_buf = None \<rparr>"
definition le_reset :: LogEntry where "le_reset = \<lparr> le_header = leh_reset, le_buf = None \<rparr>"

definition le_is_valid :: "LogEntry \<Rightarrow> bool" where
  "le_is_valid e \<longleftrightarrow> leh_is_valid (le_header e) \<and> le_buf e \<noteq> None"

definition le_shallow_copy :: "LogEntry \<Rightarrow> LogEntry \<Rightarrow> ob_ret \<times> LogEntry" where
  "le_shallow_copy input this = (if \<not> le_is_valid input then (OB_SUCCESS, this) else (OB_SUCCESS, input))"

definition le_check_integrity :: "bool \<Rightarrow> nat \<Rightarrow> LogEntry \<Rightarrow> bool" where
  "le_check_integrity hw addr e = leh_check_integrity hw addr (le_header e) (le_buf e) (leh_get_data_len (le_header e))"

definition le_serialize :: "LogEntry \<Rightarrow> cbuf \<Rightarrow> int \<Rightarrow> int \<Rightarrow> enc_res" where
  "le_serialize e buf buf_len pos =
     (let data_len = leh_get_data_len (le_header e) in
      if buf = None \<or> buf_len \<le> 0 then (OB_INVALID_ARGUMENT, pos, buf)
      else case leh_serialize (le_header e) buf buf_len pos of (r, new_pos, buf') \<Rightarrow>
        if r \<noteq> OB_SUCCESS then (r, pos, buf')
        else if buf_len - new_pos < data_len then (OB_BUF_NOT_ENOUGH, pos, buf')
        else (OB_SUCCESS, new_pos + data_len,
              map_option (\<lambda>b. store b (nat new_pos) (take (nat data_len) (the (le_buf e)))) buf'))"

definition le_deserialize :: "cbuf \<Rightarrow> int \<Rightarrow> int \<Rightarrow> LogEntry \<Rightarrow> LogEntry fld_res" where
  "le_deserialize buf data_len pos e =
     (if buf = None \<or> data_len \<le> 0 then (OB_INVALID_ARGUMENT, pos, e)
      else case leh_deserialize buf data_len pos (le_header e) of (r, new_pos, h) \<Rightarrow>
        let e1 = e \<lparr> le_header := h \<rparr>; n = leh_get_data_len h in
        if r \<noteq> OB_SUCCESS then (r, pos, e1)
        else if data_len - new_pos < n then (OB_BUF_NOT_ENOUGH, pos, e1)
        else (OB_SUCCESS, new_pos + n,
              e1 \<lparr> le_buf := if n > 0 then map_option (drop (nat new_pos)) buf else None \<rparr>))"

definition le_get_serialize_size :: "LogEntry \<Rightarrow> int" where
  "le_get_serialize_size e = leh_get_serialize_size (le_header e) + leh_get_data_len (le_header e)"

subsection \<open>On the wire\<close>

definition leh_bytes :: "LogEntryHeader \<Rightarrow> byte list" where
  "leh_bytes h = be16 (leh_magic h) @ be16 (leh_version h) @ be32 (leh_log_size h) @ be64 (scn_val (leh_scn h))
     @ be64 (leh_data_checksum h) @ be64 (leh_flag h)"

lemma length_leh_bytes [simp]: "length (leh_bytes h) = 32"
  by (simp add: leh_bytes_def)

lemma leh_size: "leh_get_serialize_size h = LEH_HEADER_SER_SIZE"
  by (simp add: leh_get_serialize_size_def LEH_HEADER_SER_SIZE_def encoded_length_i16_def encoded_length_i32_def
      encoded_length_i64_def get_fixed_serialize_size_def)

lemma leh_serialize_exact [codec_intros]:
  assumes "leh_version h = LOG_ENTRY_HEADER_VERSION"
  shows "enc_exact (leh_serialize h) (leh_bytes h)"
proof -
  have chain: "enc_exact (enc_then (\<lambda>b l p. encode_i16 b l p (leh_magic h))
          (enc_then (\<lambda>b l p. encode_i16 b l p (leh_version h))
          (enc_then (\<lambda>b l p. encode_i32 b l p (leh_log_size h))
          (enc_then (scn_fixed_serialize (leh_scn h))
          (enc_then (\<lambda>b l p. encode_i64 b l p (leh_data_checksum h))
                    (\<lambda>b l p. encode_i64 b l p (leh_flag h))))))) (leh_bytes h)" (is "enc_exact ?c _")
    unfolding leh_bytes_def by (intro codec_intros)
  show ?thesis
  proof (rule enc_exactI)
    fix b :: "byte list" and L p assume "L \<le> length b" "p + length (leh_bytes h) \<le> L"
    then show "leh_serialize h (Some b) (int L) (int p)
        = (OB_SUCCESS, int (p + length (leh_bytes h)), Some (store b p (leh_bytes h)))"
      using enc_exactD [OF chain, of p L b] assms by (simp add: leh_serialize_def)
  next
    fix b :: "byte list" and L p assume "L \<le> length b" "L < p + length (leh_bytes h)"
    then show "fst (leh_serialize h (Some b) (int L) (int p)) \<noteq> OB_SUCCESS"
      using enc_exact_shortD [OF chain, of p L b] assms by (auto simp: leh_serialize_def split: prod.splits)
  qed
qed

lemma leh_deserialize_exact:
  assumes ok: "leh_check_header_integrity h"
    and b: "p + 32 \<le> L" "L \<le> length b" "load b p 32 = leh_bytes h"
  shows "leh_deserialize (Some b) (int L) (int p) h0 = (OB_SUCCESS, int (p + 32), h)"
proof -
  let ?x = "be16 (leh_magic h) @ be16 (leh_version h)"
  let ?y = "be32 (leh_log_size h) @ be64 (scn_val (leh_scn h)) @ be64 (leh_data_checksum h) @ be64 (leh_flag h)"
  have v: "leh_version h = LOG_ENTRY_HEADER_VERSION" "scn_wire_ok (leh_scn h)"
    using ok scn_valid_wire_ok by (auto simp: leh_check_header_integrity_def leh_is_valid_def)
  have f1: "fld_exact leh_fields1 ?x (leh_version_update (\<lambda>_. leh_version h) \<circ> leh_magic_update (\<lambda>_. leh_magic h))"
    unfolding leh_fields1_def by (intro codec_intros)
  have f2: "fld_exact leh_fields2 ?y (((leh_flag_update (\<lambda>_. leh_flag h)
      \<circ> leh_data_checksum_update (\<lambda>_. leh_data_checksum h)) \<circ> leh_scn_update (\<lambda>_. leh_scn h))
      \<circ> leh_log_size_update (\<lambda>_. leh_log_size h))"
    unfolding leh_fields2_def by (intro codec_intros v(2))
  have "load b p (length ?x) = ?x" "load b (p + length ?x) (length ?y) = ?y"
    using load_appendD [of b p ?x ?y] b by (auto simp: leh_bytes_def)
  then have "leh_fields1 (Some b) (int L) (OB_SUCCESS, int p, h0) = (OB_SUCCESS, int (p + 4),
        h0 \<lparr> leh_magic := leh_magic h, leh_version := leh_version h \<rparr>)"
    and "leh_fields2 (Some b) (int L) (OB_SUCCESS, int (p + 4),
        h0 \<lparr> leh_magic := leh_magic h, leh_version := leh_version h \<rparr>) = (OB_SUCCESS, int (p + 32), h)"
    using fld_exactD [OF f1, of p L b h0]
      fld_exactD [OF f2, of "p + 4" L b "h0 \<lparr> leh_magic := leh_magic h, leh_version := leh_version h \<rparr>"] b
    by simp_all
  then show ?thesis using b ok v by (simp add: leh_deserialize_def)
qed

text \<open>Conversely, what a decoder accepts is where it says and well-formed.\<close>

definition fld_adv :: "(cbuf \<Rightarrow> int \<Rightarrow> 'h fld_res \<Rightarrow> 'h fld_res) \<Rightarrow> int \<Rightarrow> bool" where
  "fld_adv s n \<longleftrightarrow> 0 \<le> n \<and> (\<forall>buf L r p h r' p' h'. s buf L (r, p, h) = (r', p', h') \<longrightarrow> r' = OB_SUCCESS \<longrightarrow>
     r = OB_SUCCESS \<and> p' = p + n \<and> p + n \<le> L)"

lemma fld_adv_rd:
  assumes "\<And>buf L p p' v. d buf L p = (OB_SUCCESS, p', v) \<Longrightarrow> p' = p + n \<and> p + n \<le> L" "0 \<le> n"
  shows "fld_adv (rd d upd) n"
  using assms by (fastforce simp: fld_adv_def rd_def split: prod.splits if_splits)

lemma fld_adv_then: "fld_adv s n \<Longrightarrow> fld_adv t m \<Longrightarrow> k = n + m \<Longrightarrow> fld_adv (rd_then s t) k"
  unfolding fld_adv_def rd_then_def by (smt (verit) prod_cases3)

lemma fetch_adv: "fetch n g buf L p = (OB_SUCCESS, p', v) \<Longrightarrow> p' = p + int n \<and> p + int n \<le> L"
  by (auto simp: fetch_def split: option.splits if_splits)

lemma decode_adv:
  "decode_i16 buf L p = (OB_SUCCESS, p', v) \<Longrightarrow> p' = p + 2 \<and> p + 2 \<le> L"
  "decode_i32 buf L p = (OB_SUCCESS, p', w) \<Longrightarrow> p' = p + 4 \<and> p + 4 \<le> L"
  "decode_i64 buf L p = (OB_SUCCESS, p', x) \<Longrightarrow> p' = p + 8 \<and> p + 8 \<le> L"
  by (auto simp: decode_i16_def decode_i32_def decode_i64_def dest: fetch_adv)

lemma scn_fixed_adv:
  "scn_fixed_deserialize buf L p = (OB_SUCCESS, p', y) \<Longrightarrow> p' = p + 8 \<and> p + 8 \<le> L"
  by (auto simp: scn_fixed_deserialize_def fixed_deserialize_without_transform_def dest: decode_adv
      split: prod.splits if_splits)

lemma leh_fields_adv: "fld_adv leh_fields1 4" "fld_adv leh_fields2 28"
  unfolding leh_fields1_def leh_fields2_def
  by (rule fld_adv_then fld_adv_rd decode_adv scn_fixed_adv refl | assumption | simp)+

lemma leh_deserialize_adv:
  assumes "leh_deserialize buf L p h0 = (OB_SUCCESS, p', h)"
  shows "p' = p + 32 \<and> p + 32 \<le> L \<and> leh_check_header_integrity h \<and> 0 < leh_get_data_len h"
proof -
  from assms obtain r1 p1 h1 where 1: "leh_fields1 buf L (OB_SUCCESS, p, h0) = (r1, p1, h1)" by (metis prod_cases3)
  from assms 1 obtain r2 p2 h2 where 2: "leh_fields2 buf L (r1, p1, h1) = (r2, p2, h2)" by (metis prod_cases3)
  from assms 1 2 have "r1 = OB_SUCCESS" "r2 = OB_SUCCESS" "p' = p2" "h = h2" "leh_check_header_integrity h2"
    by (auto simp: leh_deserialize_def split: if_splits)
  with 1 2 show ?thesis
    using leh_fields_adv unfolding fld_adv_def
    by (fastforce simp: leh_check_header_integrity_def leh_is_valid_def)
qed

subsection \<open>Integrity of a header\<close>

lemma CRC16_MASK_mask: "CRC16_MASK = mask 16"
  by (simp add: CRC16_MASK_def mask_eq_exp_minus_1)

lemma flag_checksum:
  fixes f :: "64 word" and c :: "16 word"
  shows "((f AND NOT CRC16_MASK) OR ucast c) AND NOT CRC16_MASK = f AND NOT CRC16_MASK"
    and "ucast (((f AND NOT CRC16_MASK) OR ucast c) AND CRC16_MASK) = c"
  by (rule bit_word_eqI; auto simp: CRC16_MASK_mask bit_simps dest: bit_imp_le_length)+

lemma bit_PADDING_TYPE_MASK: "bit PADDING_TYPE_MASK n \<longleftrightarrow> n = 62"
  unfolding PADDING_TYPE_MASK_def by (simp only: bit_push_bit_iff bit_1_iff) auto

lemma flag_padding:
  "sint (((f AND NOT CRC16_MASK) OR ucast (c :: 16 word)) AND PADDING_TYPE_MASK) > 0 \<longleftrightarrow> bit (f :: 64 word) 62"
proof -
  have "((f AND NOT CRC16_MASK) OR ucast c) AND PADDING_TYPE_MASK = (if bit f 62 then PADDING_TYPE_MASK else 0)"
    by (rule bit_word_eqI)
      (auto simp: CRC16_MASK_mask bit_PADDING_TYPE_MASK bit_and_iff bit_or_iff bit_not_iff bit_mask_iff bit_unsigned_iff
        dest: bit_imp_le_length)
  moreover have "sint PADDING_TYPE_MASK > 0" by code_simp
  ultimately show ?thesis by simp
qed

lemma leh_update_fields [simp]:
  "leh_magic (leh_update_header_checksum h) = leh_magic h" "leh_version (leh_update_header_checksum h) = leh_version h"
  "leh_log_size (leh_update_header_checksum h) = leh_log_size h" "leh_scn (leh_update_header_checksum h) = leh_scn h"
  "leh_data_checksum (leh_update_header_checksum h) = leh_data_checksum h"
  by (simp_all add: leh_update_header_checksum_def Let_def)

lemma leh_update_check:
  "leh_version h = LOG_ENTRY_HEADER_VERSION \<Longrightarrow> leh_check_header_checksum (leh_update_header_checksum h)"
  by (simp add: leh_check_header_checksum_def leh_update_header_checksum_def leh_calculate_header_checksum_def Let_def
      flag_checksum)

lemma leh_update_padding: "leh_is_padding_log (leh_update_header_checksum h) \<longleftrightarrow> bit (leh_flag h) 62"
  by (simp add: leh_is_padding_log_def leh_update_header_checksum_def Let_def flag_padding)

lemma leh_generate_spec:
  assumes "0 < length d" "length d < 2 ^ 31" "scn_is_valid scn" "\<not> bit (leh_flag h0) 62"
    and "leh_generate_header hw addr (Some d) (int (length d)) scn h0 = (r, h)"
  shows "r = OB_SUCCESS \<and> leh_check_header_integrity h \<and> leh_get_data_len h = int (length d) \<and> leh_scn h = scn
    \<and> leh_data_checksum h = crc_ref 0 d \<and> \<not> leh_is_padding_log h \<and> leh_magic h = LEH_MAGIC"
proof -
  have n: "sint (word_of_int (int (length d)) :: 32 word) = int (length d)"
    using assms(2) by (subst sint_sbintrunc') (auto intro: signed_take_bit_int_eq_self)
  show ?thesis
    using assms n
    by (auto simp: leh_generate_header_def leh_check_header_integrity_def leh_is_valid_def leh_update_check
        leh_get_data_len_def leh_update_padding ob_crc64_ref)
qed

subsection \<open>Corruption in a window of four bytes\<close>

lemma crc32_ok_le_word4: "length w \<le> 4 \<Longrightarrow> crc32_ok (le_word w)"
  by (rule crc32_okI) (auto simp: bit_le_word)

lemma crc32_ok_xor: "crc32_ok a \<Longrightarrow> crc32_ok b \<Longrightarrow> crc32_ok (a XOR b)"
  by (rule crc32_okI) (auto simp: bit_xor_iff dest: bit_crc32_ok)

lemma crc32_ok_step8: "crc32_ok a \<Longrightarrow> crc32_ok (crc_step8 a)"
  by (simp add: crc_step8_def crc32_ok_bit)

lemma crc_iter_inj: "crc32_ok a \<Longrightarrow> crc32_ok b \<Longrightarrow> crc_iter k a = crc_iter k b \<Longrightarrow> a = b"
proof (induction k)
  case (Suc k)
  have "crc32_ok (crc_iter k a)" "crc32_ok (crc_iter k b)"
    using Suc.prems(1,2) by (induction k) (simp_all add: crc32_ok_step8)
  then have "crc_iter k a = crc_iter k b" using Suc.prems(3) by (auto dest: crc_step8_inj)
  then show ?case using Suc.IH Suc.prems(1,2) by blast
qed simp

lemma le_word_inj:
  assumes "length v = length w" "length w \<le> 8" "le_word v = le_word w"
  shows "v = w"
proof (rule nth_equalityI)
  show "length v = length w" by fact
  fix i assume i: "i < length v"
  show "v ! i = w ! i"
  proof (rule bit_word_eqI)
    fix n assume "n < LENGTH(8)"
    then show "bit (v ! i) n = bit (w ! i) n"
      using i assms bit_le_word_at [of i v n] bit_le_word_at [of i w n] by simp
  qed
qed

lemma crc_detects_burst:
  assumes "crc32_ok c" "length v = length w" "length w \<le> 4" "v \<noteq> w"
  shows "crc_ref c (xs @ v @ ys) \<noteq> crc_ref c (xs @ w @ ys)"
proof
  let ?c = "crc_ref c xs"
  have c: "crc32_ok ?c" using assms(1) by (rule crc32_ok_ref)
  assume "crc_ref c (xs @ v @ ys) = crc_ref c (xs @ w @ ys)"
  then have "crc_ref ?c v = crc_ref ?c w"
    using crc_ref_inj [of "crc_ref ?c v" "crc_ref ?c w" ys] c by (simp add: crc32_ok_ref)
  then have "crc_iter (length w) (?c XOR le_word v) = crc_iter (length w) (?c XOR le_word w)"
    using crc_iter_le_word [of v ?c] crc_iter_le_word [of w ?c] assms(2,3) by simp
  then have "?c XOR le_word v = ?c XOR le_word w"
    by (rule crc_iter_inj [rotated 2]) (use assms(2,3) c in \<open>simp_all add: crc32_ok_xor crc32_ok_le_word4\<close>)
  then have "le_word v = le_word w" by (rule xor_cancel [THEN iffD1])
  then show False using le_word_inj [of v w] assms(2,3,4) by simp
qed

lemma le_check_integrity_iff:
  assumes "leh_check_header_integrity h" "\<not> leh_is_padding_log h" "leh_get_data_len h = int (length d)"
    and "leh_data_checksum h = crc_ref 0 d0"
  shows "le_check_integrity hw addr \<lparr> le_header = h, le_buf = Some (d @ rest) \<rparr> \<longleftrightarrow> crc_ref 0 d = crc_ref 0 d0"
  using assms by (auto simp: le_check_integrity_def leh_check_integrity_def Let_def ob_crc64_ref
      leh_check_header_integrity_def leh_is_valid_def)

lemma le_serialize_exact:
  assumes "leh_check_header_integrity h" "leh_get_data_len h = int (length d)"
    and "p + (32 + length d) \<le> L" "L \<le> length b"
  shows "le_serialize \<lparr> le_header = h, le_buf = Some (d @ rest) \<rparr> (Some b) (int L) (int p)
    = (OB_SUCCESS, int (p + (32 + length d)), Some (store b p (leh_bytes h @ d)))"
proof -
  have v: "leh_version h = LOG_ENTRY_HEADER_VERSION"
    using assms(1) by (simp add: leh_check_header_integrity_def leh_is_valid_def)
  show ?thesis
    using enc_exactD [OF leh_serialize_exact [OF v], of p L b] assms store_store_adjacent [of p "leh_bytes h" d b]
    by (simp add: le_serialize_def add.assoc nat_add_distrib)
qed

lemma le_deserialize_exact:
  assumes "leh_check_header_integrity h" "leh_get_data_len h = int (length d)"
    and "p + (32 + length d) \<le> L" "L \<le> length b" "load b p (32 + length d) = leh_bytes h @ d"
  shows "le_deserialize (Some b) (int L) (int p) e0
    = (OB_SUCCESS, int (p + (32 + length d)), \<lparr> le_header = h, le_buf = Some (drop (p + 32) b) \<rparr>)"
    and "\<exists>rest. drop (p + 32) b = d @ rest"
proof -
  have ld: "load b p 32 = leh_bytes h" "load b (p + 32) (length d) = d"
    using load_appendD [of b p "leh_bytes h" d] assms by simp_all
  have pos: "0 < leh_get_data_len h" using assms(1) by (simp add: leh_check_header_integrity_def leh_is_valid_def)
  show "le_deserialize (Some b) (int L) (int p) e0
    = (OB_SUCCESS, int (p + (32 + length d)), \<lparr> le_header = h, le_buf = Some (drop (p + 32) b) \<rparr>)"
    using leh_deserialize_exact [OF assms(1) _ assms(4) ld(1), of "le_header e0"] assms pos
    by (simp add: le_deserialize_def Let_def nat_add_distrib)
  show "\<exists>rest. drop (p + 32) b = d @ rest"
    using ld(2) by (metis append_take_drop_id load_def)
qed

text \<open>C17.
  Round trip of a log entry: a header generated for valid data, serialised with its data anywhere in a buffer with
  room, is decoded from there to the same header and the same data, the position advances by exactly the announced
  size, and the entry passes the integrity check on every machine.
\<close>

theorem log_entry_roundtrip:
  assumes "0 < length d" "length d < 2 ^ 31" "scn_is_valid scn"
    and "leh_generate_header hw addr (Some d) (int (length d)) scn leh_reset = (r, h)"
    and "e = \<lparr> le_header = h, le_buf = Some d \<rparr>"
    and "int p + le_get_serialize_size e \<le> int L" "L \<le> length b"
  shows "r = OB_SUCCESS \<and>
    (\<exists>b' rest. le_serialize e (Some b) (int L) (int p) = (OB_SUCCESS, int p + le_get_serialize_size e, Some b')
       \<and> le_deserialize (Some b') (int L) (int p) le_new
         = (OB_SUCCESS, int p + le_get_serialize_size e, \<lparr> le_header = h, le_buf = Some (d @ rest) \<rparr>)
       \<and> le_check_integrity hw' addr' \<lparr> le_header = h, le_buf = Some (d @ rest) \<rparr>)"
proof -
  have spec: "r = OB_SUCCESS" "leh_check_header_integrity h" "leh_get_data_len h = int (length d)"
    "leh_data_checksum h = crc_ref 0 d" "\<not> leh_is_padding_log h"
    using leh_generate_spec [OF assms(1,2,3) _ assms(4)] by (simp_all add: leh_reset_def)
  have size: "le_get_serialize_size e = int (32 + length d)"
    using spec(3) assms(5) by (simp add: le_get_serialize_size_def leh_size LEH_HEADER_SER_SIZE_def)
  then have room: "p + (32 + length d) \<le> L" using assms(6) by simp
  let ?b = "store b p (leh_bytes h @ d)"
  have ld: "load ?b p (32 + length d) = leh_bytes h @ d"
    using load_store_same [of p "leh_bytes h @ d" b] room assms(7) by simp
  obtain rest where rest: "drop (p + 32) ?b = d @ rest"
    using le_deserialize_exact(2) [OF spec(2,3) room _ ld] room assms(7) by auto
  have "le_deserialize (Some ?b) (int L) (int p) le_new
      = (OB_SUCCESS, int (p + (32 + length d)), \<lparr> le_header = h, le_buf = Some (d @ rest) \<rparr>)"
    using le_deserialize_exact(1) [OF spec(2,3) room _ ld, of le_new] room assms(7) rest by simp
  moreover have "le_serialize e (Some b) (int L) (int p) = (OB_SUCCESS, int (p + (32 + length d)), Some ?b)"
    using le_serialize_exact [OF spec(2,3) room assms(7), of "[]"] assms(5) by simp
  ultimately show ?thesis
    using le_check_integrity_iff [OF spec(2,5,3,4)] spec(1) size by auto
qed

theorem log_entry_roundtrip_witness:
  "\<exists>h b'. leh_generate_header True 0 (Some [1, 2, 3]) 3 (SCN 7) leh_reset = (OB_SUCCESS, h)
     \<and> le_serialize \<lparr> le_header = h, le_buf = Some [1, 2, 3] \<rparr> (Some (replicate 40 0)) 40 2 = (OB_SUCCESS, 37, Some b')
     \<and> fst (le_deserialize (Some b') 40 2 le_new) = OB_SUCCESS"
proof -
  obtain r h where g: "leh_generate_header True 0 (Some [1, 2, 3]) (int (length [1, 2, 3 :: byte])) (SCN 7) leh_reset = (r, h)"
    by fastforce
  have v: "scn_is_valid (SCN 7)" by code_simp
  have "leh_get_data_len h = 3" using leh_generate_spec [OF _ _ v _ g] by (simp add: leh_reset_def)
  then have "le_get_serialize_size \<lparr> le_header = h, le_buf = Some [1, 2, 3] \<rparr> = 35"
    by (simp add: le_get_serialize_size_def leh_size LEH_HEADER_SER_SIZE_def)
  then show ?thesis
    using log_entry_roundtrip [OF _ _ v g refl, of 2 40 "replicate 40 0" False 8] g by auto
qed

text \<open>C18.
  Corruption of the data of an entry that is confined to four consecutive bytes never passes the integrity check,
  on any machine, whatever the data and wherever in it the window lies.
\<close>

theorem log_entry_detects_burst:
  assumes "length (xs @ v @ ys) < 2 ^ 31" "scn_is_valid scn" "length w = length v" "length v \<le> 4" "w \<noteq> v"
    and "leh_generate_header hw addr (Some (xs @ v @ ys)) (int (length (xs @ v @ ys))) scn leh_reset = (r, h)"
  shows "le_check_integrity hw' addr' \<lparr> le_header = h, le_buf = Some (xs @ v @ ys @ rest) \<rparr>
    \<and> \<not> le_check_integrity hw' addr' \<lparr> le_header = h, le_buf = Some (xs @ w @ ys @ rest) \<rparr>"
proof -
  have pos: "0 < length (xs @ v @ ys)" using assms(3,5) by auto
  note spec = leh_generate_spec [OF pos assms(1,2) _ assms(6)]
  have h: "leh_check_header_integrity h" "\<not> leh_is_padding_log h" "leh_data_checksum h = crc_ref 0 (xs @ v @ ys)"
    "leh_get_data_len h = int (length (xs @ v @ ys))" "leh_get_data_len h = int (length (xs @ w @ ys))"
    using spec assms(3) by (simp_all add: leh_reset_def)
  have "crc_ref 0 (xs @ w @ ys) \<noteq> crc_ref 0 (xs @ v @ ys)"
    using crc_detects_burst [of 0 w v xs ys] assms(3,4,5) by simp
  then show ?thesis
    using le_check_integrity_iff [OF h(1,2,4,3), of hw' addr' rest] le_check_integrity_iff [OF h(1,2,5,3), of hw' addr' rest]
    by simp
qed

theorem log_entry_detects_burst_witness:
  "\<exists>h. snd (leh_generate_header True 0 (Some [1, 2, 3]) 3 (SCN 7) leh_reset) = h
     \<and> le_check_integrity False 8 \<lparr> le_header = h, le_buf = Some [1, 2, 3] \<rparr>
     \<and> \<not> le_check_integrity False 8 \<lparr> le_header = h, le_buf = Some [1, 9, 3] \<rparr>"
proof -
  obtain r h where g: "leh_generate_header True 0 (Some ([1] @ [2] @ [3])) (int (length ([1] @ [2] @ [3 :: byte]))) (SCN 7)
      leh_reset = (r, h)"
    by fastforce
  have v: "scn_is_valid (SCN 7)" by code_simp
  show ?thesis
    using log_entry_detects_burst [OF _ v _ _ _ g, of "[9]" False 8 "[]"] g by simp
qed

subsection \<open>Padding entries\<close>

definition lbh_bytes :: "ObLogBaseHeader \<Rightarrow> byte list" where
  "lbh_bytes h = be16 (lbh_version h) @ be16 (lbh_log_type h) @ be32 (lbh_flag h) @ be64 (lbh_replay_hint h)"

lemma length_lbh_bytes [simp]: "length (lbh_bytes h) = 16"
  by (simp add: lbh_bytes_def)

lemma lbh_size: "lbh_get_serialize_size h = LBH_SIZEOF"
  by (simp add: lbh_get_serialize_size_def LBH_SIZEOF_def encoded_length_i16_def encoded_length_i32_def encoded_length_i64_def)

lemma lbh_serialize_exact [codec_intros]: "enc_exact (lbh_serialize h) (lbh_bytes h)"
proof -
  have chain: "enc_exact (enc_then (\<lambda>b l p. encode_i16 b l p (lbh_version h))
          (enc_then (\<lambda>b l p. encode_i16 b l p (lbh_log_type h))
          (enc_then (\<lambda>b l p. encode_i32 b l p (lbh_flag h))
                    (\<lambda>b l p. encode_i64 b l p (lbh_replay_hint h))))) (lbh_bytes h)"
    unfolding lbh_bytes_def by (intro codec_intros)
  show ?thesis
    by (rule enc_exactI)
      (use enc_exactD [OF chain] enc_exact_shortD [OF chain] in \<open>auto simp: lbh_serialize_def\<close>)
qed

lemma lbh_deserialize_exact:
  assumes "p + 16 \<le> L" "L \<le> length b" "load b p 16 = lbh_bytes h"
  shows "lbh_deserialize (Some b) (int L) (int p) h0 = (OB_SUCCESS, int (p + 16), h)"
proof -
  have f: "fld_exact lbh_fields (lbh_bytes h) (((lbh_replay_hint_update (\<lambda>_. lbh_replay_hint h)
      \<circ> lbh_flag_update (\<lambda>_. lbh_flag h)) \<circ> lbh_log_type_update (\<lambda>_. lbh_log_type h)) \<circ> lbh_version_update (\<lambda>_. lbh_version h))"
    unfolding lbh_fields_def lbh_bytes_def by (intro codec_intros)
  show ?thesis using fld_exactD [OF f, of p L b h0] assms by (simp add: lbh_deserialize_def)
qed

lemma leh_generate_padding_spec:
  assumes "0 < n" "n < 2 ^ 31" "scn_is_valid scn" "16 \<le> length d"
    and "leh_generate_padding_header hw addr (Some d) 16 n scn h0 = (r, h)"
  shows "r = OB_SUCCESS \<and> leh_check_header_integrity h \<and> leh_get_data_len h = n \<and> leh_scn h = scn
    \<and> leh_data_checksum h = crc_ref 0 (take 16 d) \<and> leh_is_padding_log h"
proof -
  have n: "sint (word_of_int n :: 32 word) = n"
    using assms(1,2) by (subst sint_sbintrunc') (auto intro: signed_take_bit_int_eq_self)
  show ?thesis
    using assms n
    by (auto simp: leh_generate_padding_header_def leh_check_header_integrity_def leh_is_valid_def leh_update_check
        leh_get_data_len_def leh_update_padding ob_crc64_ref bit_or_iff bit_PADDING_TYPE_MASK)
qed

text \<open>C20.
  The buffer that \<^verbatim>\<open>generate_padding_log_buf\<close> fills decodes as a padding entry of the requested length and SCN
  that passes the integrity check on every machine, followed by a base header of the padding type.
\<close>

theorem padding_entry_roundtrip:
  assumes "scn_is_valid scn" "48 \<le> k" "int k \<le> n" "n < 2 ^ 31" "k \<le> length b"
  shows "\<exists>b' h. generate_padding_log_buf hw addr n scn (Some b) (int k) = (OB_SUCCESS, Some b') \<and> length b' = length b
     \<and> leh_deserialize (Some b') (int k) 0 leh_new = (OB_SUCCESS, 32, h)
     \<and> leh_is_padding_log h \<and> leh_get_data_len h = n \<and> leh_scn h = scn
     \<and> leh_check_integrity hw' addr' h (Some (drop 32 b')) n
     \<and> lbh_deserialize (Some b') (int k) 32 lbh_reset = (OB_SUCCESS, 48, lbh_make PADDING_LOG_BASE_TYPE NO_NEED_BARRIER 0)"
proof -
  let ?base = "lbh_make PADDING_LOG_BASE_TYPE NO_NEED_BARRIER 0"
  let ?b1 = "store b 32 (lbh_bytes ?base)"
  have l1: "length ?b1 = length b" using assms by simp
  obtain r h where g: "leh_generate_padding_header hw addr (Some (drop 32 ?b1)) 16 n scn leh_new = (r, h)" by fastforce
  have spec: "r = OB_SUCCESS" "leh_check_header_integrity h" "leh_get_data_len h = n" "leh_scn h = scn"
    "leh_data_checksum h = crc_ref 0 (take 16 (drop 32 ?b1))" "leh_is_padding_log h"
    using leh_generate_padding_spec [OF _ assms(4,1) _ g] assms by auto
  have v: "leh_version h = LOG_ENTRY_HEADER_VERSION" "leh_magic h = LEH_MAGIC" "leh_check_header_checksum h"
    using spec(2) by (simp_all add: leh_check_header_integrity_def leh_is_valid_def)
  let ?b2 = "store ?b1 0 (leh_bytes h)"
  have l2: "length ?b2 = length b" using assms l1 by simp
  have s1: "lbh_serialize ?base (Some b) (int k) 32 = (OB_SUCCESS, 48, Some ?b1)"
    using enc_exactD [OF lbh_serialize_exact, of 32 ?base k b] assms by simp
  have s2: "leh_serialize h (Some ?b1) 32 0 = (OB_SUCCESS, 32, Some ?b2)"
    using enc_exactD [OF leh_serialize_exact [OF v(1)], of 0 32 ?b1] assms l1 by simp
  have "generate_padding_log_buf hw addr n scn (Some b) (int k) = (OB_SUCCESS, Some ?b2)"
    using assms s1 s2 g spec(1)
    by (simp add: generate_padding_log_buf_def leh_size lbh_size LEH_HEADER_SER_SIZE_def LBH_SIZEOF_def)
  moreover have d: "drop 32 ?b2 = drop 32 ?b1" using assms l1 by (simp add: store_def)
  moreover have ld: "load ?b2 32 16 = lbh_bytes ?base"
    using d load_store_same [of 32 "lbh_bytes ?base" b] assms by (simp add: load_def)
  moreover have "leh_deserialize (Some ?b2) (int k) 0 leh_new = (OB_SUCCESS, 32, h)"
    using leh_deserialize_exact [OF spec(2), of 0 k ?b2] load_store_same [of 0 "leh_bytes h" ?b1] l1 l2 assms by simp
  moreover have "lbh_deserialize (Some ?b2) (int k) 32 lbh_reset = (OB_SUCCESS, 48, ?base)"
    using lbh_deserialize_exact [of 32 k ?b2 ?base lbh_reset] ld l2 assms by simp
  moreover have "leh_check_integrity hw' addr' h (Some (drop 32 ?b2)) n"
    using spec v d assms by (simp add: leh_check_integrity_def ob_crc64_ref LBH_SIZEOF_def)
  ultimately show ?thesis using l2 spec by blast
qed

theorem padding_entry_roundtrip_witness:
  "\<exists>b' h. generate_padding_log_buf True 0 100 (SCN 7) (Some (replicate 60 0)) 60 = (OB_SUCCESS, Some b') \<and> length b' = 60
     \<and> leh_deserialize (Some b') 60 0 leh_new = (OB_SUCCESS, 32, h) \<and> leh_is_padding_log h"
proof -
  have v: "scn_is_valid (SCN 7)" by code_simp
  show ?thesis using padding_entry_roundtrip [OF v, of 60 100 "replicate 60 0" True 0] by fastforce
qed

end
