(* ===== verification/Palf_Group_Entry.thy ===== *)
theory Palf_Group_Entry
  imports Palf_Entry Palf_Write_Buf
begin

section \<open>Group entries: \<^verbatim>\<open>log_group_entry_header.cpp\<close>, \<^verbatim>\<open>log_group_entry.cpp\<close>\<close>

text \<open>
  A group entry is what the log writes at once: a 48-byte header and a body of log entries. The
  leader computes the checksum of a group from the headers of its entries where they lie in the
  ring buffer, in one range or in two with the split anywhere, even inside an entry header
  (\<^verbatim>\<open>calculate_log_checksum_\<close>); a reader recomputes it from the contiguous body and checks every
  entry (\<^verbatim>\<open>check_log_checksum_\<close>). A failed \<^verbatim>\<open>ob_assert\<close> stops the process and is \<open>None\<close>, and so is
  a copy that would read beyond a range. The ranges of a \<^verbatim>\<open>LogWriteBuf\<close> are given to the loop as
  the list of their contents. Both loops end because a decoded entry header has a positive length.
\<close>

record LogGroupEntryHeader =
  lgh_magic :: "16 word"
  lgh_version :: "16 word"
  lgh_group_size :: "32 word"
  lgh_committed_end_lsn :: LSN
  lgh_max_scn :: SCN
  lgh_accumulated_checksum :: "64 word"
  lgh_log_id :: "64 word"
  lgh_flag :: "64 word"

definition LGH_MAGIC :: "16 word" where "LGH_MAGIC = 0x4752"
definition LOG_GROUP_ENTRY_HEADER_VERSION :: "16 word" where "LOG_GROUP_ENTRY_HEADER_VERSION = 3"
definition LGH_HEADER_SER_SIZE :: int where "LGH_HEADER_SER_SIZE = 48"
definition PADDING_LOG_DATA_CHECKSUM :: "64 word" where "PADDING_LOG_DATA_CHECKSUM = 0"

definition lgh_reset :: LogGroupEntryHeader where
  "lgh_reset = \<lparr> lgh_magic = 0, lgh_version = 0, lgh_group_size = 0, lgh_committed_end_lsn = lsn_reset,
     lgh_max_scn = invalid_scn, lgh_accumulated_checksum = 0, lgh_log_id = 0, lgh_flag = 0 \<rparr>"

definition lgh_is_valid :: "LogGroupEntryHeader \<Rightarrow> bool" where
  "lgh_is_valid h \<longleftrightarrow> LGH_MAGIC = lgh_magic h \<and> LOG_GROUP_ENTRY_HEADER_VERSION = lgh_version h
     \<and> lsn_is_valid (lgh_committed_end_lsn h) \<and> scn_is_valid (lgh_max_scn h) \<and> is_valid_log_id (sint (lgh_log_id h))"

definition lgh_get_data_len :: "LogGroupEntryHeader \<Rightarrow> int" where
  "lgh_get_data_len h = sint (lgh_group_size h)"

definition lgh_is_padding_log :: "LogGroupEntryHeader \<Rightarrow> bool" where
  "lgh_is_padding_log h \<longleftrightarrow> sint (lgh_flag h AND PADDING_TYPE_MASK) > 0"

subsection \<open>The checksum of the leader\<close>

text \<open>One entry header: the new position, the header and the checksum so far.\<close>

definition lgh_calc_entry ::
  "bool \<Rightarrow> nat \<Rightarrow> byte list \<Rightarrow> int \<Rightarrow> int \<Rightarrow> LogEntryHeader \<Rightarrow> 64 word \<Rightarrow> ob_ret \<times> int \<times> LogEntryHeader \<times> 64 word"
where
  "lgh_calc_entry hw addr buf len pos h acc =
     (case leh_deserialize (Some buf) len pos h of (r, pos1, h1) \<Rightarrow>
        if r \<noteq> OB_SUCCESS then (r, pos1, h1, acc)
        else if \<not> leh_check_header_integrity h1 then (OB_ERR_UNEXPECTED, pos1, h1, acc)
        else (OB_SUCCESS, pos1 + leh_get_data_len h1, h1, ob_crc64 hw addr acc (le_bytes (leh_data_checksum h1))))"

lemma lgh_calc_entry_adv:
  "lgh_calc_entry hw addr buf len pos h acc = (OB_SUCCESS, p, h', a) \<Longrightarrow>
   p = pos + 32 + leh_get_data_len h' \<and> pos + 32 \<le> len \<and> 0 < leh_get_data_len h'"
  by (auto simp: lgh_calc_entry_def dest: leh_deserialize_adv split: prod.splits if_splits)

lemma concat_drop_nth: "i < length bufs \<Longrightarrow> concat (drop i bufs) = bufs ! i @ concat (drop (Suc i) bufs)"
  by (metis Cons_nth_drop_Suc concat.simps(2))

lemma length_concat_drop:
  "i < length bufs \<Longrightarrow> length (concat (drop i bufs)) = length (bufs ! i) + length (concat (drop (Suc i) bufs))"
  by (simp add: concat_drop_nth)

function lgh_calc_loop ::
  "bool \<Rightarrow> nat \<Rightarrow> byte list list \<Rightarrow> nat \<Rightarrow> int \<Rightarrow> 64 word \<Rightarrow> LogEntryHeader \<Rightarrow> (ob_ret \<times> 64 word) option"
where
  "lgh_calc_loop hw addr bufs idx pos acc h =
     (if length bufs \<le> idx then Some (OB_ARRAY_OUT_OF_RANGE, acc)
      else let cur = bufs ! idx; n = int (length cur) in
      if n - pos \<le> 0 then
        (if length bufs \<le> idx + 1 then Some (OB_SUCCESS, acc)
         else let pos1 = pos - n; cur1 = bufs ! (idx + 1); n1 = int (length cur1) in
           if pos1 = n1 then Some (OB_SUCCESS, acc)
           else if \<not> pos1 < n1 then None
           else case lgh_calc_entry hw addr cur1 n1 pos1 h acc of (r, p2, h2, acc2) \<Rightarrow>
             if r \<noteq> OB_SUCCESS then Some (r, acc) else lgh_calc_loop hw addr bufs (idx + 1) p2 acc2 h2)
      else if n - pos < LEH_HEADER_SER_SIZE then
        (let curr_copy_size = n - pos; second = LEH_HEADER_SER_SIZE - curr_copy_size in
         if length bufs \<le> idx + 1 \<or> int (length (bufs ! (idx + 1))) < second then None
         else let tmp_buf = drop (nat pos) cur @ take (nat second) (bufs ! (idx + 1)) in
           case lgh_calc_entry hw addr tmp_buf LEH_HEADER_SER_SIZE 0 h acc of (r, p2, h2, acc2) \<Rightarrow>
             if r \<noteq> OB_SUCCESS then Some (r, acc)
             else lgh_calc_loop hw addr bufs (idx + 1) (second + leh_get_data_len h2) acc2 h2)
      else case lgh_calc_entry hw addr cur n pos h acc of (r, p2, h2, acc2) \<Rightarrow>
             if r \<noteq> OB_SUCCESS then Some (r, acc) else lgh_calc_loop hw addr bufs idx p2 acc2 h2)"
  by pat_completeness auto

termination
proof (relation "measure (\<lambda>(hw, addr, bufs, idx, pos, acc, h). nat (int (length (concat (drop idx bufs))) - pos))",
    goal_cases)
  case 1
  then show ?case by simp
next
  case (2 hw addr bufs idx pos acc h)
  then show ?case
    using length_concat_drop [of idx bufs] length_concat_drop [of "Suc idx" bufs]
    by (auto dest!: lgh_calc_entry_adv [OF sym])
next
  case (3 hw addr bufs idx pos acc h)
  then show ?case
    using length_concat_drop [of idx bufs] by (auto dest!: lgh_calc_entry_adv [OF sym])
next
  case (4 hw addr bufs idx pos acc h)
  then show ?case
    using length_concat_drop [of idx bufs] by (auto dest!: lgh_calc_entry_adv [OF sym])
qed

declare lgh_calc_loop.simps [simp del]

definition lgh_calculate_log_checksum ::
  "bool \<Rightarrow> nat \<Rightarrow> memory \<Rightarrow> bool \<Rightarrow> LogWriteBuf \<Rightarrow> int \<Rightarrow> 64 word \<Rightarrow> (ob_ret \<times> 64 word) option"
where
  "lgh_calculate_log_checksum hw addr m is_padding_log wb data_len data_checksum =
     (if \<not> wb_is_valid wb then Some (OB_INVALID_ARGUMENT, data_checksum)
      else if is_padding_log then Some (OB_SUCCESS, PADDING_LOG_DATA_CHECKSUM)
      else let total_buf_len = data_len + LGH_HEADER_SER_SIZE in
        if total_buf_len \<noteq> wb_get_total_size wb then None
        else case lgh_calc_loop hw addr (map (mem_read m) (arr_list wb)) 0 LGH_HEADER_SER_SIZE 0 leh_new of
            None \<Rightarrow> None
          | Some (r, c) \<Rightarrow> if r = OB_SUCCESS then Some (OB_SUCCESS, c) else Some (r, data_checksum))"

definition lgh_generate ::
  "bool \<Rightarrow> nat \<Rightarrow> memory \<Rightarrow> bool \<Rightarrow> LogWriteBuf \<Rightarrow> int \<Rightarrow> SCN \<Rightarrow> int \<Rightarrow> LSN \<Rightarrow> LogGroupEntryHeader \<Rightarrow> 64 word
   \<Rightarrow> (ob_ret \<times> LogGroupEntryHeader \<times> 64 word) option"
where
  "lgh_generate hw addr m is_padding_log wb data_len mx log_id committed_end_lsn h data_checksum =
     (if \<not> scn_is_valid mx \<or> \<not> is_valid_log_id log_id \<or> \<not> lsn_is_valid committed_end_lsn
      then Some (OB_INVALID_ARGUMENT, h, data_checksum)
      else let h1 = h \<lparr> lgh_magic := LGH_MAGIC, lgh_version := LOG_GROUP_ENTRY_HEADER_VERSION,
             lgh_group_size := word_of_int data_len, lgh_max_scn := mx, lgh_log_id := word_of_int log_id,
             lgh_committed_end_lsn := committed_end_lsn \<rparr>;
           h2 = (if is_padding_log then h1 \<lparr> lgh_flag := lgh_flag h1 OR PADDING_TYPE_MASK \<rparr> else h1) in
        case lgh_calculate_log_checksum hw addr m is_padding_log wb data_len data_checksum of
          None \<Rightarrow> None | Some (r, c) \<Rightarrow> Some (r, h2, c))"

subsection \<open>The checksum of the header\<close>

definition lgh_image :: "LogGroupEntryHeader \<Rightarrow> byte list" where
  "lgh_image h = le_image 2 (lgh_magic h) @ le_image 2 (lgh_version h) @ le_image 4 (lgh_group_size h)
     @ le_image 8 (lsn_val (lgh_committed_end_lsn h)) @ le_image 8 (scn_val (lgh_max_scn h))
     @ le_image 8 (lgh_accumulated_checksum h) @ le_image 8 (lgh_log_id h) @ le_image 8 (lgh_flag h)"

definition lgh_calculate_header_checksum :: "LogGroupEntryHeader \<Rightarrow> 16 word" where
  "lgh_calculate_header_checksum h = xxhash_16 0 (lgh_image (h \<lparr> lgh_flag := lgh_flag h AND NOT CRC16_MASK \<rparr>))"

definition lgh_update_header_checksum :: "LogGroupEntryHeader \<Rightarrow> LogGroupEntryHeader" where
  "lgh_update_header_checksum h =
     (let h1 = h \<lparr> lgh_flag := lgh_flag h AND NOT CRC16_MASK \<rparr> in
      h1 \<lparr> lgh_flag := lgh_flag h1 OR ucast (lgh_calculate_header_checksum h1) \<rparr>)"

definition lgh_update_accumulated_checksum :: "64 word \<Rightarrow> LogGroupEntryHeader \<Rightarrow> LogGroupEntryHeader" where
  "lgh_update_accumulated_checksum c h = h \<lparr> lgh_accumulated_checksum := c \<rparr>"

definition lgh_check_header_checksum :: "LogGroupEntryHeader \<Rightarrow> bool" where
  "lgh_check_header_checksum h =
     (let header_checksum = lgh_calculate_header_checksum h in
      if LOG_GROUP_ENTRY_HEADER_VERSION \<noteq> lgh_version h then False
      else header_checksum = ucast (lgh_flag h AND CRC16_MASK))"

definition lgh_check_header_integrity :: "LogGroupEntryHeader \<Rightarrow> bool" where
  "lgh_check_header_integrity h \<longleftrightarrow> lgh_is_valid h \<and> lgh_check_header_checksum h"

subsection \<open>The check of the reader\<close>

lemma le_deserialize_adv:
  "le_deserialize buf L p e = (OB_SUCCESS, p', e') \<Longrightarrow>
   p' = p + 32 + leh_get_data_len (le_header e') \<and> p' \<le> L \<and> 0 < leh_get_data_len (le_header e')"
  by (auto simp: le_deserialize_def Let_def dest!: leh_deserialize_adv split: prod.splits if_splits)

function lgh_check_loop ::
  "bool \<Rightarrow> nat \<Rightarrow> cbuf \<Rightarrow> int \<Rightarrow> int \<Rightarrow> 64 word \<Rightarrow> LogEntry \<Rightarrow> bool \<times> 64 word"
where
  "lgh_check_loop hw addr buf data_len pos acc e =
     (if pos < data_len then
        case le_deserialize buf data_len pos e of (r, pos1, e1) \<Rightarrow>
          if r \<noteq> OB_SUCCESS then (False, acc)
          else let ok = le_check_integrity hw addr e1;
                   acc1 = ob_crc64 hw addr acc (le_bytes (leh_data_checksum (le_header e1))) in
            if ok then lgh_check_loop hw addr buf data_len pos1 acc1 e1 else (False, acc1)
      else (True, acc))"
  by pat_completeness auto
termination
  by (relation "measure (\<lambda>(hw, addr, buf, data_len, pos, acc, e). nat (data_len - pos))")
    (auto dest!: le_deserialize_adv [OF sym])

declare lgh_check_loop.simps [simp del]

definition lgh_check_log_checksum ::
  "bool \<Rightarrow> nat \<Rightarrow> LogGroupEntryHeader \<Rightarrow> cbuf \<Rightarrow> int \<Rightarrow> 64 word \<Rightarrow> bool \<times> 64 word"
where
  "lgh_check_log_checksum hw addr h buf data_len out =
     (if buf = None \<or> 0 > data_len then (False, out)
      else if lgh_is_padding_log h then (True, PADDING_LOG_DATA_CHECKSUM)
      else case lgh_check_loop hw addr buf data_len 0 0 le_new of (ok, c) \<Rightarrow> (ok, if ok then c else out))"

definition lgh_check_integrity ::
  "bool \<Rightarrow> nat \<Rightarrow> LogGroupEntryHeader \<Rightarrow> cbuf \<Rightarrow> int \<Rightarrow> 64 word \<Rightarrow> bool \<times> 64 word"
where
  "lgh_check_integrity hw addr h buf len out =
     (if LGH_MAGIC \<noteq> lgh_magic h then (False, out)
      else if \<not> lgh_check_header_checksum h then (False, out)
      else lgh_check_log_checksum hw addr h buf len out)"

subsection \<open>Serialization\<close>

definition lgh_serialize :: "LogGroupEntryHeader \<Rightarrow> cbuf \<Rightarrow> int \<Rightarrow> int \<Rightarrow> enc_res" where
  "lgh_serialize h buf len pos =
     (if buf = None \<or> len \<le> 0 then (OB_INVALID_ARGUMENT, pos, buf)
      else if LOG_GROUP_ENTRY_HEADER_VERSION \<noteq> lgh_version h then (OB_VERSION_NOT_MATCH, pos, buf)
      else case enc_then (\<lambda>b l p. encode_i16 b l p (lgh_magic h))
          (enc_then (\<lambda>b l p. encode_i16 b l p (lgh_version h))
          (enc_then (\<lambda>b l p. encode_i32 b l p (lgh_group_size h))
          (enc_then (lsn_serialize (lgh_committed_end_lsn h))
          (enc_then (scn_fixed_serialize (lgh_max_scn h))
          (enc_then (\<lambda>b l p. encode_i64 b l p (lgh_accumulated_checksum h))
          (enc_then (\<lambda>b l p. encode_i64 b l p (lgh_log_id h))
                    (\<lambda>b l p. encode_i64 b l p (lgh_flag h)))))))) buf len pos of
        (r, new_pos, buf') \<Rightarrow> if r \<noteq> OB_SUCCESS then (OB_BUF_NOT_ENOUGH, pos, buf') else (OB_SUCCESS, new_pos, buf'))"

definition lgh_fields :: "cbuf \<Rightarrow> int \<Rightarrow> LogGroupEntryHeader fld_res \<Rightarrow> LogGroupEntryHeader fld_res" where
  "lgh_fields = rd_then (rd decode_i16 (\<lambda>v. lgh_magic_update (\<lambda>_. v)))
     (rd_then (rd decode_i16 (\<lambda>v. lgh_version_update (\<lambda>_. v)))
     (rd_then (rd decode_i32 (\<lambda>v. lgh_group_size_update (\<lambda>_. v)))
     (rd_then (rd lsn_deserialize (\<lambda>v. lgh_committed_end_lsn_update (\<lambda>_. v)))
     (rd_then (rd scn_fixed_deserialize (\<lambda>v. lgh_max_scn_update (\<lambda>_. v)))
     (rd_then (rd decode_i64 (\<lambda>v. lgh_accumulated_checksum_update (\<lambda>_. v)))
     (rd_then (rd decode_i64 (\<lambda>v. lgh_log_id_update (\<lambda>_. v)))
              (rd decode_i64 (\<lambda>v. lgh_flag_update (\<lambda>_. v)))))))))"

definition lgh_deserialize :: "cbuf \<Rightarrow> int \<Rightarrow> int \<Rightarrow> LogGroupEntryHeader \<Rightarrow> LogGroupEntryHeader fld_res" where
  "lgh_deserialize buf data_len pos h =
     (if buf = None \<or> data_len \<le> 0 then (OB_INVALID_ARGUMENT, pos, h)
      else case lgh_fields buf data_len (OB_SUCCESS, pos, h) of (r, new_pos, h1) \<Rightarrow>
        if r \<noteq> OB_SUCCESS then (OB_BUF_NOT_ENOUGH, pos, h1)
        else if \<not> lgh_check_header_integrity h1 then (OB_INVALID_DATA, pos, h1)
        else (OB_SUCCESS, new_pos, h1))"

definition lgh_get_serialize_size :: "LogGroupEntryHeader \<Rightarrow> int" where
  "lgh_get_serialize_size h = encoded_length_i16 (lgh_magic h) + encoded_length_i16 (lgh_version h)
     + encoded_length_i32 (lgh_group_size h) + lsn_get_serialize_size (lgh_committed_end_lsn h)
     + get_fixed_serialize_size (lgh_max_scn h) + encoded_length_i64 (lgh_accumulated_checksum h)
     + encoded_length_i64 (lgh_log_id h) + encoded_length_i64 (lgh_flag h)"

subsection \<open>Group entries\<close>

record LogGroupEntry =
  lge_header :: LogGroupEntryHeader
  lge_buf :: cbuf

definition lge_new :: LogGroupEntry where "lge_new = \<lparr> lge_header = lgh_reset, lge_buf = None \<rparr>"

definition lge_reset :: "LogGroupEntry \<Rightarrow> LogGroupEntry" where
  "lge_reset e = e \<lparr> lge_header := lgh_reset, lge_buf := None \<rparr>"

definition lge_is_valid :: "LogGroupEntry \<Rightarrow> bool" where
  "lge_is_valid e \<longleftrightarrow> lgh_is_valid (lge_header e) \<and> lge_buf e \<noteq> None"

definition lge_generate :: "LogGroupEntryHeader \<Rightarrow> cbuf \<Rightarrow> LogGroupEntry \<Rightarrow> ob_ret \<times> LogGroupEntry" where
  "lge_generate header buf e =
     (if \<not> lgh_is_valid header \<or> buf = None then (OB_INVALID_ARGUMENT, e)
      else (OB_SUCCESS, \<lparr> lge_header = header, lge_buf = buf \<rparr>))"

definition lge_shallow_copy :: "LogGroupEntry \<Rightarrow> LogGroupEntry \<Rightarrow> ob_ret \<times> LogGroupEntry" where
  "lge_shallow_copy entry this = (if \<not> lge_is_valid entry then (OB_INVALID_ARGUMENT, this) else (OB_SUCCESS, entry))"

definition lge_check_integrity :: "bool \<Rightarrow> nat \<Rightarrow> LogGroupEntry \<Rightarrow> 64 word \<Rightarrow> bool \<times> 64 word" where
  "lge_check_integrity hw addr e out =
     lgh_check_integrity hw addr (lge_header e) (lge_buf e) (lgh_get_data_len (lge_header e)) out"

definition lge_serialize :: "LogGroupEntry \<Rightarrow> cbuf \<Rightarrow> int \<Rightarrow> int \<Rightarrow> enc_res" where
  "lge_serialize e buf len pos =
     (let data_len = lgh_get_data_len (lge_header e) in
      if buf = None \<or> len \<le> 0 then (OB_INVALID_ARGUMENT, pos, buf)
      else case lgh_serialize (lge_header e) buf len pos of (r, new_pos, buf') \<Rightarrow>
        if r \<noteq> OB_SUCCESS then (r, pos, buf')
        else if len - new_pos < data_len then (OB_BUF_NOT_ENOUGH, pos, buf')
        else (OB_SUCCESS, new_pos + data_len,
              map_option (\<lambda>b. store b (nat new_pos) (take (nat data_len) (the (lge_buf e)))) buf'))"

definition lge_deserialize :: "cbuf \<Rightarrow> int \<Rightarrow> int \<Rightarrow> LogGroupEntry \<Rightarrow> LogGroupEntry fld_res" where
  "lge_deserialize buf data_len pos e =
     (if buf = None \<or> data_len \<le> 0 then (OB_INVALID_ARGUMENT, pos, e)
      else case lgh_deserialize buf data_len pos (lge_header e) of (r, new_pos, h) \<Rightarrow>
        let e1 = e \<lparr> lge_header := h \<rparr>; n = lgh_get_data_len h in
        if r \<noteq> OB_SUCCESS then (r, pos, e1)
        else if data_len - new_pos < n then (OB_BUF_NOT_ENOUGH, pos, e1)
        else (OB_SUCCESS, new_pos + n,
              e1 \<lparr> lge_buf := if n \<ge> 0 then map_option (drop (nat new_pos)) buf else None \<rparr>))"

definition lge_get_serialize_size :: "LogGroupEntry \<Rightarrow> int" where
  "lge_get_serialize_size e = lgh_get_serialize_size (lge_header e) + lgh_get_data_len (lge_header e)"

definition get_log_min_scn :: "LogGroupEntry \<Rightarrow> SCN \<Rightarrow> ob_ret \<times> SCN" where
  "get_log_min_scn e out =
     (if lgh_is_padding_log (lge_header e) then (OB_SUCCESS, lgh_max_scn (lge_header e))
      else case leh_deserialize (lge_buf e) (lgh_get_data_len (lge_header e)) 0 leh_new of (r, p, h) \<Rightarrow>
        if r \<noteq> OB_SUCCESS then (r, out) else (OB_SUCCESS, leh_scn h))"

subsection \<open>Bodies made of entries\<close>

definition entry_ok :: "LogEntryHeader \<times> byte list \<Rightarrow> bool" where
  "entry_ok = (\<lambda>(h, d). leh_check_header_integrity h \<and> leh_get_data_len h = int (length d)
     \<and> leh_data_checksum h = crc_ref 0 d \<and> \<not> leh_is_padding_log h)"

definition entry_bytes :: "LogEntryHeader \<times> byte list \<Rightarrow> byte list" where
  "entry_bytes = (\<lambda>(h, d). leh_bytes h @ d)"

definition group_body :: "(LogEntryHeader \<times> byte list) list \<Rightarrow> byte list" where
  "group_body es = concat (map entry_bytes es)"

definition group_crc :: "64 word \<Rightarrow> (LogEntryHeader \<times> byte list) list \<Rightarrow> 64 word" where
  "group_crc acc es = foldl (\<lambda>a (h, d). crc_ref a (le_bytes (leh_data_checksum h))) acc es"

lemma group_body_simps [simp]:
  "group_body [] = []" "group_body (e # es) = entry_bytes e @ group_body es"
  by (simp_all add: group_body_def)

lemma group_crc_simps [simp]:
  "group_crc a [] = a" "group_crc a ((h, d) # es) = group_crc (crc_ref a (le_bytes (leh_data_checksum h))) es"
  by (simp_all add: group_crc_def)

lemma entry_ok_data_pos: "entry_ok (h, d) \<Longrightarrow> 0 < length d"
  by (auto simp: entry_ok_def leh_check_header_integrity_def leh_is_valid_def leh_get_data_len_def)

subsection \<open>The walk over the ranges visits the entries of their concatenation\<close>

lemma lgh_calc_entry_exact:
  assumes "entry_ok (h, d)" "p + 32 \<le> length b" "take 32 (drop p b) = leh_bytes h" "crc32_ok acc"
  shows "lgh_calc_entry hw addr b (int (length b)) (int p) h0 acc
    = (OB_SUCCESS, int (p + (32 + length d)), h, crc_ref acc (le_bytes (leh_data_checksum h)))"
proof -
  have h: "leh_check_header_integrity h" "leh_get_data_len h = int (length d)"
    using assms(1) by (simp_all add: entry_ok_def)
  show ?thesis
    using leh_deserialize_exact [OF h(1), of p "length b" b h0] assms h by (simp add: lgh_calc_entry_def load_def ob_crc64_ref)
qed

lemma drop_entry:
  assumes "drop p b = entry_bytes (h, d) @ rest" "p \<le> length b"
  shows "take 32 (drop p b) = leh_bytes h" "drop (p + (32 + length d)) b = rest" "p + (32 + length d) \<le> length b"
proof -
  show "take 32 (drop p b) = leh_bytes h" using assms(1) by (simp add: entry_bytes_def)
  have "drop (p + (32 + length d)) b = drop (32 + length d) (drop p b)" by (simp add: drop_drop add.commute)
  then show "drop (p + (32 + length d)) b = rest" using assms(1) by (simp add: entry_bytes_def)
  show "p + (32 + length d) \<le> length b" using arg_cong [OF assms(1), of length] assms(2) by (simp add: entry_bytes_def)
qed

lemma lgh_calc_one:
  assumes "list_all entry_ok es" "crc32_ok acc" "drop p b = group_body es" "p \<le> length b" "i + 1 = length bufs" "bufs ! i = b"
  shows "lgh_calc_loop hw addr bufs i (int p) acc h0 = Some (OB_SUCCESS, group_crc acc es)"
  using assms
proof (induction es arbitrary: p acc h0)
  case Nil
  then show ?case by (simp add: lgh_calc_loop.simps)
next
  case (Cons e es)
  obtain h d where e [simp]: "e = (h, d)" by fastforce
  have t: "take 32 (drop p b) = leh_bytes h" "drop (p + (32 + length d)) b = group_body es" "p + (32 + length d) \<le> length b"
    using drop_entry [of p b h d "group_body es"] Cons.prems by simp_all
  note st = lgh_calc_entry_exact [of h d p b acc hw addr h0]
  have "lgh_calc_loop hw addr bufs i (int p) acc h0
      = lgh_calc_loop hw addr bufs i (int (p + (32 + length d))) (crc_ref acc (le_bytes (leh_data_checksum h))) h"
    using st t Cons.prems by (subst lgh_calc_loop.simps) (simp add: Let_def LEH_HEADER_SER_SIZE_def)
  also have "\<dots> = Some (OB_SUCCESS, group_crc acc (e # es))"
    using Cons.IH [of "crc_ref acc (le_bytes (leh_data_checksum h))" "p + (32 + length d)" h] t Cons.prems by (simp add: crc32_ok_ref)
  finally show ?case .
qed

lemma lgh_calc_two:
  assumes "list_all entry_ok es" "crc32_ok acc" "drop p (b @ c) = group_body es" "p \<le> length (b @ c)"
  shows "lgh_calc_loop hw addr [b, c] 0 (int p) acc h0 = Some (OB_SUCCESS, group_crc acc es)"
  using assms
proof (induction es arbitrary: p acc h0)
  case Nil
  then have "p = length b + length c" by auto
  then show ?case by (simp add: lgh_calc_loop.simps)
next
  case (Cons e es)
  obtain h d where e [simp]: "e = (h, d)" by fastforce
  let ?a = "crc_ref acc (le_bytes (leh_data_checksum h))"
  have ok: "entry_ok (h, d)" "list_all entry_ok es" "crc32_ok ?a" using Cons.prems by (simp_all add: crc32_ok_ref)
  have len: "leh_get_data_len h = int (length d)" using ok(1) by (simp add: entry_ok_def)
  have t: "take 32 (drop p (b @ c)) = leh_bytes h" "drop (p + (32 + length d)) (b @ c) = group_body es"
    "p + (32 + length d) \<le> length (b @ c)"
    using drop_entry [of p "b @ c" h d "group_body es"] Cons.prems(3,4) by (simp_all del: drop_append)
  consider (beyond) "length b \<le> p" | (split) "p < length b" "length b < p + 32" | (inside) "p + 32 \<le> length b" by linarith
  then show ?case
  proof cases
    case beyond
    have "lgh_calc_entry hw addr c (int (length c)) (int (p - length b)) h0 acc
        = (OB_SUCCESS, int (p - length b + (32 + length d)), h, ?a)"
      by (rule lgh_calc_entry_exact [OF ok(1)]) (use t beyond Cons.prems in auto)
    moreover have "lgh_calc_loop hw addr [b, c] 1 (int (p - length b + (32 + length d))) ?a h = Some (OB_SUCCESS, group_crc ?a es)"
      by (rule lgh_calc_one [OF ok(2,3)]) (use t beyond in auto)
    ultimately show ?thesis
      using t beyond entry_ok_data_pos [OF ok(1)]
      by (subst lgh_calc_loop.simps) (simp add: Let_def of_nat_diff LEH_HEADER_SER_SIZE_def)
  next
    case split
    let ?k = "32 - (length b - p)"
    have "lgh_calc_entry hw addr (drop p b @ take ?k c) (int (length (drop p b @ take ?k c))) (int 0) h0 acc
        = (OB_SUCCESS, int (0 + (32 + length d)), h, ?a)"
      by (rule lgh_calc_entry_exact [OF ok(1)]) (use t split Cons.prems in auto)
    moreover have "length (drop p b @ take ?k c) = 32" using t split by auto
    moreover have "lgh_calc_loop hw addr [b, c] 1 (int (?k + length d)) ?a h = Some (OB_SUCCESS, group_crc ?a es)"
      by (rule lgh_calc_one [OF ok(2,3)]) (use t split in \<open>auto simp: algebra_simps\<close>)
    moreover have "nat (32 - (int (length b) - int p)) = ?k" using split by simp
    ultimately show ?thesis
      using t split len
      by (subst lgh_calc_loop.simps) (simp add: Let_def LEH_HEADER_SER_SIZE_def algebra_simps)
  next
    case inside
    have "lgh_calc_entry hw addr b (int (length b)) (int p) h0 acc = (OB_SUCCESS, int (p + (32 + length d)), h, ?a)"
      by (rule lgh_calc_entry_exact [OF ok(1)]) (use t inside Cons.prems in auto)
    then have "lgh_calc_loop hw addr [b, c] 0 (int p) acc h0 = lgh_calc_loop hw addr [b, c] 0 (int (p + (32 + length d))) ?a h"
      using inside by (subst lgh_calc_loop.simps) (simp add: Let_def LEH_HEADER_SER_SIZE_def)
    also have "\<dots> = Some (OB_SUCCESS, group_crc ?a es)" using Cons.IH [OF ok(2,3) t(2,3)] .
    finally show ?thesis by simp
  qed
qed

lemma lgh_check_loop_exact:
  assumes "list_all entry_ok es" "crc32_ok acc" "load b p (n - p) = group_body es" "p \<le> n" "n \<le> length b"
  shows "lgh_check_loop hw addr (Some b) (int n) (int p) acc e0 = (True, group_crc acc es)"
  using assms
proof (induction es arbitrary: p acc e0)
  case Nil
  then have "p = n" by (auto simp: load_def)
  then show ?case by (simp add: lgh_check_loop.simps)
next
  case (Cons e es)
  obtain h d where e [simp]: "e = (h, d)" by fastforce
  let ?a = "crc_ref acc (le_bytes (leh_data_checksum h))"
  have ok: "entry_ok (h, d)" "list_all entry_ok es" "crc32_ok ?a" using Cons.prems by (simp_all add: crc32_ok_ref)
  have h: "leh_check_header_integrity h" "leh_get_data_len h = int (length d)" "leh_data_checksum h = crc_ref 0 d"
    "\<not> leh_is_padding_log h" using ok(1) by (simp_all add: entry_ok_def)
  have all: "take (n - p) (drop p b) = leh_bytes h @ d @ group_body es"
    using Cons.prems by (simp add: load_def entry_bytes_def)
  have room: "p + (32 + length d) \<le> n"
    using arg_cong [OF all, of length] Cons.prems(4,5) by (simp add: min_def split: if_splits)
  have ld: "load b p (32 + length d) = leh_bytes h @ d"
    using arg_cong [OF all, of "take (32 + length d)"] room by (simp add: load_def)
  have nx: "load b (p + (32 + length d)) (n - (p + (32 + length d))) = group_body es"
    using arg_cong [OF all, of "drop (32 + length d)"] room by (simp add: load_def drop_take add.commute)
  note de = le_deserialize_exact [OF h(1,2) room _ ld]
  obtain rest where rest: "drop (p + 32) b = d @ rest" using de(2) Cons.prems by auto
  have "lgh_check_loop hw addr (Some b) (int n) (int p) acc e0
      = lgh_check_loop hw addr (Some b) (int n) (int (p + (32 + length d))) ?a \<lparr> le_header = h, le_buf = Some (d @ rest) \<rparr>"
    using de(1) [of e0] le_check_integrity_iff [OF h(1,4,2,3), of hw addr rest] room rest Cons.prems
    by (subst lgh_check_loop.simps) (simp add: ob_crc64_ref)
  also have "\<dots> = (True, group_crc ?a es)"
    using Cons.IH [OF ok(2,3) nx room] Cons.prems by simp
  finally show ?case by simp
qed

subsection \<open>The header on the wire\<close>

lemma enc_exact_guard:
  assumes c: "enc_exact c bs" and "bs \<noteq> []" "e1 \<noteq> OB_SUCCESS" "e2 \<noteq> OB_SUCCESS"
  shows "enc_exact (\<lambda>buf len pos. if buf = None \<or> len \<le> 0 then (e1, pos, buf)
    else case c buf len pos of (r, p, b) \<Rightarrow> if r \<noteq> OB_SUCCESS then (e2, pos, b) else (OB_SUCCESS, p, b)) bs"
proof (rule enc_exactI)
  fix b :: "byte list" and L p assume "L \<le> length b" "p + length bs \<le> L"
  then show "(if Some b = None \<or> int L \<le> 0 then (e1, int p, Some b)
      else case c (Some b) (int L) (int p) of (r, q, b) \<Rightarrow> if r \<noteq> OB_SUCCESS then (e2, int p, b) else (OB_SUCCESS, q, b))
    = (OB_SUCCESS, int (p + length bs), Some (store b p bs))"
    using enc_exactD [OF c, of p L b] assms(2) by (cases bs) simp_all
next
  fix b :: "byte list" and L p assume "L \<le> length b" "L < p + length bs"
  then show "fst (if Some b = None \<or> int L \<le> 0 then (e1, int p, Some b)
      else case c (Some b) (int L) (int p) of (r, q, b) \<Rightarrow> if r \<noteq> OB_SUCCESS then (e2, int p, b) else (OB_SUCCESS, q, b))
    \<noteq> OB_SUCCESS"
    using enc_exact_shortD [OF c, of p L b] assms(3,4) by (auto split: prod.split)
qed

definition lgh_bytes :: "LogGroupEntryHeader \<Rightarrow> byte list" where
  "lgh_bytes h = be16 (lgh_magic h) @ be16 (lgh_version h) @ be32 (lgh_group_size h)
     @ be64 (lsn_val (lgh_committed_end_lsn h)) @ be64 (scn_val (lgh_max_scn h))
     @ be64 (lgh_accumulated_checksum h) @ be64 (lgh_log_id h) @ be64 (lgh_flag h)"

lemma length_lgh_bytes [simp]: "length (lgh_bytes h) = 48"
  by (simp add: lgh_bytes_def)

lemma lgh_bytes_nonempty: "lgh_bytes h \<noteq> []"
  using length_lgh_bytes [of h] by (metis list.size(3) zero_neq_numeral)

lemma lgh_serialize_exact [codec_intros]:
  assumes "lgh_version h = LOG_GROUP_ENTRY_HEADER_VERSION"
  shows "enc_exact (lgh_serialize h) (lgh_bytes h)"
proof -
  have chain: "enc_exact (enc_then (\<lambda>b l p. encode_i16 b l p (lgh_magic h))
          (enc_then (\<lambda>b l p. encode_i16 b l p (lgh_version h))
          (enc_then (\<lambda>b l p. encode_i32 b l p (lgh_group_size h))
          (enc_then (lsn_serialize (lgh_committed_end_lsn h))
          (enc_then (scn_fixed_serialize (lgh_max_scn h))
          (enc_then (\<lambda>b l p. encode_i64 b l p (lgh_accumulated_checksum h))
          (enc_then (\<lambda>b l p. encode_i64 b l p (lgh_log_id h))
                    (\<lambda>b l p. encode_i64 b l p (lgh_flag h))))))))) (lgh_bytes h)"
    unfolding lgh_bytes_def by (intro codec_intros)
  show ?thesis
    using enc_exact_guard [OF chain lgh_bytes_nonempty, of OB_INVALID_ARGUMENT OB_BUF_NOT_ENOUGH] assms
    by (simp add: lgh_serialize_def [abs_def] cong del: if_weak_cong)
qed

lemma lgh_deserialize_exact:
  assumes ok: "lgh_check_header_integrity h"
    and b: "p + 48 \<le> L" "L \<le> length b" "load b p 48 = lgh_bytes h"
  shows "lgh_deserialize (Some b) (int L) (int p) h0 = (OB_SUCCESS, int (p + 48), h)"
proof -
  have v: "scn_wire_ok (lgh_max_scn h)"
    using ok scn_valid_wire_ok by (auto simp: lgh_check_header_integrity_def lgh_is_valid_def)
  have f: "fld_exact lgh_fields (lgh_bytes h) (lgh_flag_update (\<lambda>_. lgh_flag h) \<circ> lgh_log_id_update (\<lambda>_. lgh_log_id h)
      \<circ> lgh_accumulated_checksum_update (\<lambda>_. lgh_accumulated_checksum h) \<circ> lgh_max_scn_update (\<lambda>_. lgh_max_scn h)
      \<circ> lgh_committed_end_lsn_update (\<lambda>_. lgh_committed_end_lsn h) \<circ> lgh_group_size_update (\<lambda>_. lgh_group_size h)
      \<circ> lgh_version_update (\<lambda>_. lgh_version h) \<circ> lgh_magic_update (\<lambda>_. lgh_magic h))"
    unfolding lgh_fields_def lgh_bytes_def by (intro codec_intros v)
  have "lgh_fields (Some b) (int L) (OB_SUCCESS, int p, h0) = (OB_SUCCESS, int (p + 48), h)"
    using fld_exactD [OF f, of p L b h0] b by simp
  then show ?thesis using b ok by (simp add: lgh_deserialize_def)
qed

lemma lgh_update_fields [simp]:
  "lgh_magic (lgh_update_header_checksum h) = lgh_magic h" "lgh_version (lgh_update_header_checksum h) = lgh_version h"
  "lgh_group_size (lgh_update_header_checksum h) = lgh_group_size h"
  "lgh_committed_end_lsn (lgh_update_header_checksum h) = lgh_committed_end_lsn h"
  "lgh_max_scn (lgh_update_header_checksum h) = lgh_max_scn h"
  "lgh_accumulated_checksum (lgh_update_header_checksum h) = lgh_accumulated_checksum h"
  "lgh_log_id (lgh_update_header_checksum h) = lgh_log_id h"
  by (simp_all add: lgh_update_header_checksum_def Let_def)

lemma lgh_update_check:
  "lgh_version h = LOG_GROUP_ENTRY_HEADER_VERSION \<Longrightarrow> lgh_check_header_checksum (lgh_update_header_checksum h)"
  by (simp add: lgh_check_header_checksum_def lgh_update_header_checksum_def lgh_calculate_header_checksum_def Let_def
      flag_checksum)

lemma lgh_update_padding: "lgh_is_padding_log (lgh_update_header_checksum h) \<longleftrightarrow> bit (lgh_flag h) 62"
  by (simp add: lgh_is_padding_log_def lgh_update_header_checksum_def Let_def flag_padding)

subsection \<open>From the leader to a reader\<close>

lemma list_le_2: "length xs \<le> 2 \<Longrightarrow> xs = [] \<or> (\<exists>a. xs = [a]) \<or> (\<exists>a b. xs = [a, b])"
  by (cases xs rule: remdups_adj.cases) (auto simp: Suc_le_eq)

lemma lgh_calculate_exact:
  assumes "wb_inv wb" "length (arr_list wb) \<le> 2" "gather m (arr_list wb) = hole @ group_body es" "length hole = 48"
    and "list_all entry_ok es"
  shows "lgh_calculate_log_checksum hw addr m False wb (int (length (group_body es))) c0 = Some (OB_SUCCESS, group_crc 0 es)"
proof -
  have ne: "arr_list wb \<noteq> []" using assms(3,4) by auto
  then have v: "wb_is_valid wb" by (auto simp: wb_is_valid_def arr_list_def)
  have sz: "wb_get_total_size wb = int (length (group_body es)) + LGH_HEADER_SER_SIZE"
    using sum_len_gather [of "arr_list wb" m] assms by (simp add: wb_inv_def wb_get_total_size_def LGH_HEADER_SER_SIZE_def)
  let ?bufs = "map (mem_read m) (arr_list wb)"
  have cat: "concat ?bufs = hole @ group_body es" using assms(3) by (simp add: gather_def)
  consider a where "?bufs = [a]" | a b where "?bufs = [a, b]" using list_le_2 [OF assms(2)] ne by auto
  then have "lgh_calc_loop hw addr ?bufs 0 (int 48) 0 leh_new = Some (OB_SUCCESS, group_crc 0 es)"
  proof cases
    case 1
    then have "a = hole @ group_body es" using cat by simp
    with 1 show ?thesis using lgh_calc_one [OF assms(5), of 0 48 a 0 ?bufs] assms(4) by simp
  next
    case 2
    then have "a @ b = hole @ group_body es" using cat by simp
    with 2 show ?thesis using lgh_calc_two [OF assms(5), of 0 48 a b] assms(4) by simp
  qed
  with v sz show ?thesis by (simp add: lgh_calculate_log_checksum_def LGH_HEADER_SER_SIZE_def)
qed

lemma lge_deserialize_exact:
  assumes "lgh_check_header_integrity h" "lgh_get_data_len h = int (length d)"
  shows "lge_deserialize (Some (pre @ lgh_bytes h @ d @ post)) (int (length (pre @ lgh_bytes h @ d @ post))) (int (length pre)) e0
    = (OB_SUCCESS, int (length pre + 48 + length d), \<lparr> lge_header = h, lge_buf = Some (d @ post) \<rparr>)"
proof -
  let ?b = "pre @ lgh_bytes h @ d @ post"
  have "lgh_deserialize (Some ?b) (int (length ?b)) (int (length pre)) (lge_header e0) = (OB_SUCCESS, int (length pre + 48), h)"
    by (rule lgh_deserialize_exact [OF assms(1)]) (auto simp: load_def)
  with assms(2) show ?thesis by (simp add: lge_deserialize_def Let_def nat_add_distrib)
qed

text \<open>The header a leader generates for a group of \<open>n\<close> bytes, and what it makes of a group.\<close>

definition group_header0 :: "int \<Rightarrow> SCN \<Rightarrow> int \<Rightarrow> LSN \<Rightarrow> LogGroupEntryHeader" where
  "group_header0 n mx log_id lsn = lgh_reset \<lparr> lgh_magic := LGH_MAGIC, lgh_version := LOG_GROUP_ENTRY_HEADER_VERSION,
     lgh_group_size := word_of_int n, lgh_max_scn := mx, lgh_log_id := word_of_int log_id, lgh_committed_end_lsn := lsn \<rparr>"

definition group_header :: "int \<Rightarrow> SCN \<Rightarrow> int \<Rightarrow> LSN \<Rightarrow> 64 word \<Rightarrow> LogGroupEntryHeader" where
  "group_header n mx log_id lsn acc = lgh_update_header_checksum (lgh_update_accumulated_checksum acc (group_header0 n mx log_id lsn))"

lemma lgh_generate_exact:
  assumes "wb_inv wb" "length (arr_list wb) \<le> 2" "gather m (arr_list wb) = hole @ group_body es" "length hole = 48"
    and "list_all entry_ok es" "scn_is_valid mx" "is_valid_log_id log_id" "lsn_is_valid lsn"
  shows "lgh_generate hw addr m False wb (int (length (group_body es))) mx log_id lsn lgh_reset dc0
    = Some (OB_SUCCESS, group_header0 (int (length (group_body es))) mx log_id lsn, group_crc 0 es)"
  using lgh_calculate_exact [OF assms(1-5), of hw addr dc0] assms(6-8) by (simp add: lgh_generate_def Let_def group_header0_def)

lemma group_header_fields [simp]:
  "lgh_version (group_header n mx log_id lsn acc) = LOG_GROUP_ENTRY_HEADER_VERSION"
  "lgh_accumulated_checksum (group_header n mx log_id lsn acc) = acc"
  "lgh_committed_end_lsn (group_header n mx log_id lsn acc) = lsn"
  "lgh_max_scn (group_header n mx log_id lsn acc) = mx"
  "\<not> lgh_is_padding_log (group_header n mx log_id lsn acc)"
  by (simp_all add: group_header_def group_header0_def lgh_update_accumulated_checksum_def lgh_update_padding lgh_reset_def)

lemma group_header_len:
  assumes "0 \<le> n" "n < 2 ^ 31"
  shows "lgh_get_data_len (group_header n mx log_id lsn acc) = n"
proof -
  have "sint (word_of_int n :: 32 word) = n"
    using assms by (subst sint_sbintrunc') (auto intro: signed_take_bit_int_eq_self)
  then show ?thesis
    by (simp add: lgh_get_data_len_def group_header_def group_header0_def lgh_update_accumulated_checksum_def)
qed

lemma group_header_log_id:
  assumes "0 \<le> log_id" "log_id < 2 ^ 63"
  shows "sint (lgh_log_id (group_header n mx log_id lsn acc)) = log_id"
proof -
  have "sint (word_of_int log_id :: 64 word) = log_id"
    using assms by (subst sint_sbintrunc') (auto intro: signed_take_bit_int_eq_self)
  then show ?thesis by (simp add: group_header_def group_header0_def lgh_update_accumulated_checksum_def)
qed

lemma group_header_integrity:
  assumes "scn_is_valid mx" "is_valid_log_id log_id" "log_id < 2 ^ 63" "lsn_is_valid lsn"
  shows "lgh_check_header_integrity (group_header n mx log_id lsn acc)"
proof -
  have m: "lgh_magic (group_header n mx log_id lsn acc) = LGH_MAGIC" "lgh_check_header_checksum (group_header n mx log_id lsn acc)"
    by (simp_all add: group_header_def group_header0_def lgh_update_accumulated_checksum_def lgh_update_check)
  have "0 \<le> log_id" using assms(2) by (simp add: is_valid_log_id_def)
  with m assms show ?thesis
    using group_header_log_id [of log_id n mx lsn acc] by (simp add: lgh_check_header_integrity_def lgh_is_valid_def)
qed

lemma group_check_exact:
  assumes "list_all entry_ok es" "lgh_check_header_integrity h" "\<not> lgh_is_padding_log h"
    and "lgh_get_data_len h = int (length (group_body es))"
  shows "lgh_check_integrity hw addr h (Some (group_body es @ post)) (int (length (group_body es))) dc0 = (True, group_crc 0 es)"
  using lgh_check_loop_exact [OF assms(1), of 0 "group_body es @ post" 0 "length (group_body es)" hw addr le_new] assms(2-4)
  by (simp add: lgh_check_integrity_def lgh_check_log_checksum_def load_def lgh_check_header_integrity_def lgh_is_valid_def)

text \<open>C7.
  What a leader writes a reader accepts. The leader has a group of entries in memory, in at most
  two ranges split anywhere, behind room for the group header; it generates the header, acquires the
  accumulated checksum, stores it in the header with the header checksum and serializes the header.
  From a buffer that holds these bytes anywhere, a reader decodes the same header and body; its
  \<^verbatim>\<open>check_integrity\<close> succeeds and yields the checksum the leader computed from the ranges; and a
  follower that stands at the accumulated checksum of the leader accepts the group and follows it.
\<close>

theorem group_entry_accepted:
  assumes "wb_inv wb" "length (arr_list wb) \<le> 2" "gather m (arr_list wb) = hole @ group_body es" "length hole = 48"
    and "list_all entry_ok es" "length (group_body es) < 2 ^ 31"
    and "scn_is_valid mx" "is_valid_log_id log_id" "log_id < 2 ^ 63" "lsn_is_valid lsn"
    and "ck_is_inited l" "ck_is_inited f" "verify_checksum f = accum_checksum l"
  shows "\<exists>h dc acc l' h' hb.
    lgh_generate hw addr m False wb (int (length (group_body es))) mx log_id lsn lgh_reset 0 = Some (OB_SUCCESS, h, dc)
    \<and> acquire_accum_checksum hw addr dc 0 l = (OB_SUCCESS, acc, l')
    \<and> h' = lgh_update_header_checksum (lgh_update_accumulated_checksum acc h)
    \<and> lgh_serialize h' (Some hole) 48 0 = (OB_SUCCESS, 48, Some hb)
    \<and> (let b = pre @ hb @ group_body es @ post; e = \<lparr> lge_header = h', lge_buf = Some (group_body es @ post) \<rparr> in
       lge_deserialize (Some b) (int (length b)) (int (length pre)) e0
         = (OB_SUCCESS, int (length pre + 48 + length (group_body es)), e)
       \<and> lge_check_integrity hw' addr' e 0 = (True, dc)
       \<and> verify_accum_checksum hw' addr' dc (lgh_accumulated_checksum (lge_header e)) f
         = (OB_SUCCESS, f \<lparr> verify_checksum := accum_checksum l' \<rparr>))"
proof -
  let ?n = "int (length (group_body es))" and ?dc = "group_crc 0 es"
  let ?a = "ob_crc64 hw addr (accum_checksum l) (le_bytes ?dc)"
  let ?h = "group_header0 ?n mx log_id lsn" and ?h' = "group_header ?n mx log_id lsn ?a"
  have gen: "lgh_generate hw addr m False wb ?n mx log_id lsn lgh_reset 0 = Some (OB_SUCCESS, ?h, ?dc)"
    by (rule lgh_generate_exact [OF assms(1-5,7,8,10)])
  have len: "lgh_get_data_len ?h' = ?n" using assms(6) by (intro group_header_len) auto
  have int: "lgh_check_header_integrity ?h'" by (rule group_header_integrity [OF assms(7-10)])
  have ser: "lgh_serialize ?h' (Some hole) 48 0 = (OB_SUCCESS, 48, Some (lgh_bytes ?h'))"
    using enc_exactD [OF lgh_serialize_exact, of ?h' 0 48 hole] assms(4) by (simp add: store_def)
  have chk: "lge_check_integrity hw' addr' \<lparr> lge_header = ?h', lge_buf = Some (group_body es @ post) \<rparr> 0 = (True, ?dc)"
    using group_check_exact [OF assms(5) int _ len] by (simp add: lge_check_integrity_def len)
  have ver: "verify_accum_checksum hw' addr' ?dc ?a f = (OB_SUCCESS, f \<lparr> verify_checksum := ?a \<rparr>)"
    using assms(12,13) by (simp add: verify_accum_checksum_def verify_accum_checksum_static_def accum_mix)
  show ?thesis
    using gen ser chk ver lge_deserialize_exact [OF int len, of pre post e0] assms(11)
    by (intro exI [of _ ?h] exI [of _ ?dc] exI [of _ ?a] exI [of _ "l \<lparr> prev_accum_checksum := accum_checksum l, accum_checksum := ?a \<rparr>"]
        exI [of _ ?h'] exI [of _ "lgh_bytes ?h'"]) (simp add: acquire_accum_checksum_def Let_def flip: group_header_def)
qed

lemma entry_ok_example:
  "entry_ok (snd (leh_generate_header True 0 (Some [1, 2, 3]) 3 (SCN 7) leh_reset), [1, 2, 3])"
proof -
  obtain r h where g: "leh_generate_header True 0 (Some [1, 2, 3]) (int (length [1, 2, 3 :: byte])) (SCN 7) leh_reset = (r, h)"
    by fastforce
  have v: "scn_is_valid (SCN 7)" by code_simp
  show ?thesis using leh_generate_spec [OF _ _ v _ g] g by (simp add: entry_ok_def leh_reset_def)
qed

theorem group_entry_accepted_witness:
  "\<exists>m h dc. lgh_generate True 0 m False (wb_of [\<lparr> buf_ptr = 64, buf_len = 60 \<rparr>, \<lparr> buf_ptr = 124, buf_len = 23 \<rparr>]) 35
     (SCN 7) 1 (LSN 0) lgh_reset 0 = Some (OB_SUCCESS, h, dc)"
proof -
  let ?es = "[(snd (leh_generate_header True 0 (Some [1, 2, 3]) 3 (SCN 7) leh_reset), [1, 2, 3])]"
  let ?wb = "wb_of [\<lparr> buf_ptr = 64, buf_len = 60 \<rparr>, \<lparr> buf_ptr = 124, buf_len = 23 \<rparr>]"
  define all where "all = replicate 48 (0 :: byte) @ group_body ?es"
  let ?m = "\<lambda>a. all ! nat (a - 64)"
  have n: "length (group_body ?es) = 35" "length all = 83" by (simp_all add: entry_bytes_def all_def)
  have w: "wb_inv ?wb" "arr_list ?wb = [\<lparr> buf_ptr = 64, buf_len = 60 \<rparr>, \<lparr> buf_ptr = 124, buf_len = 23 \<rparr>]"
    by (simp_all add: wb_of_simps)
  have "mem_read ?m \<lparr> buf_ptr = 64, buf_len = 83 \<rparr> = all" using n(2) map_nth [of all] by (simp add: mem_read_def)
  then have g: "gather ?m (arr_list ?wb) = replicate 48 0 @ group_body ?es"
    using mem_read_split [of 60 23 ?m 64] by (simp add: w(2) all_def)
  have v: "scn_is_valid (SCN 7)" "lsn_is_valid (LSN 0)" by code_simp+
  let ?c = "\<lparr> ck_is_inited = True, prev_accum_checksum = 0, accum_checksum = 0, verify_checksum = 0 \<rparr>"
  show ?thesis
    using group_entry_accepted [of ?wb ?m "replicate 48 0" ?es "SCN 7" 1 "LSN 0" ?c ?c True 0 "[]" "[]" lge_new False 8]
      entry_ok_example w g v n
    by (auto simp: is_valid_log_id_def)
qed

subsection \<open>What the decoders accept\<close>

lemma lsn_adv: "lsn_deserialize buf L p = (OB_SUCCESS, p', y) \<Longrightarrow> p' = p + 8 \<and> p + 8 \<le> L"
  by (auto simp: lsn_deserialize_def dest: decode_adv split: prod.splits if_splits)

lemma lgh_fields_adv: "fld_adv lgh_fields 48"
  unfolding lgh_fields_def
  by (rule fld_adv_then fld_adv_rd decode_adv scn_fixed_adv lsn_adv refl | assumption | simp)+

lemma lgh_deserialize_adv:
  assumes "lgh_deserialize buf L p h0 = (OB_SUCCESS, p', h)"
  shows "p' = p + 48 \<and> p + 48 \<le> L \<and> lgh_check_header_integrity h \<and> buf \<noteq> None"
proof -
  obtain r q h1 where 1: "lgh_fields buf L (OB_SUCCESS, p, h0) = (r, q, h1)" by (metis prod_cases3)
  with assms have "r = OB_SUCCESS" "p' = q" "h = h1" "lgh_check_header_integrity h1" "buf \<noteq> None"
    by (auto simp: lgh_deserialize_def split: if_splits)
  with 1 show ?thesis using lgh_fields_adv unfolding fld_adv_def by blast
qed

text \<open>C19.
  What the decoders accept, whatever bytes they read. A decoded \<^verbatim>\<open>LogEntry\<close> is valid, has passed its header
  checksum, has a positive length, its data are the bytes behind its header, and it lies inside the buffer, so that
  the position moves forward by its size. A decoded \<^verbatim>\<open>LogGroupEntry\<close> has a valid header that passed its
  checksum and does not end behind the buffer. If the length in its header is not negative, it is valid, its body
  is the bytes behind the header and the position moves forward over both. The sign of that length is not
  checked: with a negative one the decoder succeeds too, with a NULL body, and the position ends inside
  the header or in front of it, so that the decoded group is not valid.
\<close>

theorem decoded_entries_well_formed:
  "(le_deserialize buf L p e0 = (OB_SUCCESS, p', e) \<longrightarrow>
      le_is_valid e \<and> leh_check_header_integrity (le_header e) \<and> le_buf e = map_option (drop (nat (p + 32))) buf
      \<and> p + 32 < p' \<and> p' \<le> L \<and> p' = p + le_get_serialize_size e)
   \<and> (lge_deserialize buf L p g0 = (OB_SUCCESS, q, g) \<longrightarrow>
      lgh_check_header_integrity (lge_header g) \<and> p + 48 \<le> L \<and> q \<le> L \<and> q = p + lge_get_serialize_size g
      \<and> (if 0 \<le> lgh_get_data_len (lge_header g)
         then lge_is_valid g \<and> lge_buf g = map_option (drop (nat (p + 48))) buf \<and> p + 48 \<le> q
         else \<not> lge_is_valid g \<and> lge_buf g = None \<and> q < p + 48))"
proof (intro conjI impI)
  assume d: "le_deserialize buf L p e0 = (OB_SUCCESS, p', e)"
  then obtain h p1 where h: "leh_deserialize buf L p (le_header e0) = (OB_SUCCESS, p1, h)" "le_header e = h"
    and b: "le_buf e = (if leh_get_data_len h > 0 then map_option (drop (nat p1)) buf else None)" "buf \<noteq> None"
    by (auto simp: le_deserialize_def Let_def split: prod.splits if_splits)
  note a = leh_deserialize_adv [OF h(1)]
  then show v: "le_is_valid e" "leh_check_header_integrity (le_header e)"
    using h(2) b by (auto simp: le_is_valid_def leh_check_header_integrity_def)
  then show "le_buf e = map_option (drop (nat (p + 32))) buf" using a b(1) by (auto simp: le_is_valid_def split: if_splits)
  show "p + 32 < p'" "p' \<le> L" "p' = p + le_get_serialize_size e"
    using le_deserialize_adv [OF d] by (simp_all add: le_get_serialize_size_def leh_size LEH_HEADER_SER_SIZE_def)
next
  assume d: "lge_deserialize buf L p g0 = (OB_SUCCESS, q, g)"
  then obtain h p1 where h: "lgh_deserialize buf L p (lge_header g0) = (OB_SUCCESS, p1, h)" "lge_header g = h"
    and b: "q = p1 + lgh_get_data_len h" "\<not> L - p1 < lgh_get_data_len h"
      "lge_buf g = (if lgh_get_data_len h \<ge> 0 then map_option (drop (nat p1)) buf else None)"
    by (auto simp: lge_deserialize_def Let_def split: prod.splits if_splits)
  note a = lgh_deserialize_adv [OF h(1)]
  then show "lgh_check_header_integrity (lge_header g)" "p + 48 \<le> L" "q \<le> L" "q = p + lge_get_serialize_size g"
    "if 0 \<le> lgh_get_data_len (lge_header g)
     then lge_is_valid g \<and> lge_buf g = map_option (drop (nat (p + 48))) buf \<and> p + 48 \<le> q
     else \<not> lge_is_valid g \<and> lge_buf g = None \<and> q < p + 48"
    using h(2) b
    by (auto simp: lge_is_valid_def lgh_check_header_integrity_def lge_get_serialize_size_def lgh_get_serialize_size_def
        encoded_length_i16_def encoded_length_i32_def encoded_length_i64_def get_fixed_serialize_size_def lsn_get_serialize_size_def)
qed

lemma lgh_example:
  "lgh_check_header_integrity (lgh_update_header_checksum (lgh_reset \<lparr> lgh_magic := LGH_MAGIC,
    lgh_version := LOG_GROUP_ENTRY_HEADER_VERSION, lgh_group_size := sz, lgh_max_scn := SCN 7, lgh_log_id := 1,
    lgh_committed_end_lsn := LSN 0 \<rparr>))"
proof -
  have v: "scn_is_valid (SCN 7)" "lsn_is_valid (LSN 0)" by code_simp+
  show ?thesis using v by (simp add: lgh_check_header_integrity_def lgh_is_valid_def lgh_update_check is_valid_log_id_def)
qed

text \<open>
  The length in a group header is not checked for its sign. A header with a negative length and the
  right checksum is decoded with \<^verbatim>\<open>OB_SUCCESS\<close>, a NULL body and a position inside the header just read.
\<close>

lemma lge_deserialize_steps_back:
  "\<exists>b e. lge_deserialize (Some b) 48 0 lge_new = (OB_SUCCESS, 28, e) \<and> lgh_get_data_len (lge_header e) = - 20"
proof -
  let ?h = "lgh_update_header_checksum (lgh_reset \<lparr> lgh_magic := LGH_MAGIC,
    lgh_version := LOG_GROUP_ENTRY_HEADER_VERSION, lgh_group_size := - 20, lgh_max_scn := SCN 7, lgh_log_id := 1,
    lgh_committed_end_lsn := LSN 0 \<rparr>)"
  have n: "sint (- 20 :: 32 word) = - 20" by simp
  have "lgh_deserialize (Some (lgh_bytes ?h)) (int 48) (int 0) (lge_header lge_new) = (OB_SUCCESS, int (0 + 48), ?h)"
    by (rule lgh_deserialize_exact [OF lgh_example]) (simp_all add: load_def)
  then show ?thesis
    using n by (intro exI [of _ "lgh_bytes ?h"]) (simp add: lge_deserialize_def Let_def lgh_get_data_len_def)
qed

theorem decoded_entries_well_formed_witness:
  "\<exists>b e c g. le_deserialize (Some b) 35 0 le_new = (OB_SUCCESS, 35, e) \<and> le_is_valid e \<and> le_get_serialize_size e = 35
     \<and> lge_deserialize (Some c) 48 0 lge_new = (OB_SUCCESS, 48, g) \<and> lge_is_valid g
     \<and> (\<exists>d x. lge_deserialize (Some d) 48 0 lge_new = (OB_SUCCESS, 28, x) \<and> \<not> lge_is_valid x)"
proof -
  let ?h = "snd (leh_generate_header True 0 (Some [1, 2, 3]) 3 (SCN 7) leh_reset)"
  let ?g = "lgh_update_header_checksum (lgh_reset \<lparr> lgh_magic := LGH_MAGIC,
    lgh_version := LOG_GROUP_ENTRY_HEADER_VERSION, lgh_group_size := 0, lgh_max_scn := SCN 7, lgh_log_id := 1,
    lgh_committed_end_lsn := LSN 0 \<rparr>)"
  have h: "leh_check_header_integrity ?h" "leh_get_data_len ?h = int (length [1, 2, 3 :: byte])"
    using entry_ok_example by (simp_all add: entry_ok_def)
  have l: "lgh_get_data_len ?g = int (length ([] :: byte list))" by (simp add: lgh_get_data_len_def)
  let ?e = "\<lparr> le_header = ?h, le_buf = Some [1, 2, 3] \<rparr>" and ?r = "\<lparr> lge_header = ?g, lge_buf = Some [] \<rparr>"
  have e: "le_deserialize (Some (leh_bytes ?h @ [1, 2, 3])) 35 0 le_new = (OB_SUCCESS, 35, ?e)"
    using le_deserialize_exact(1) [OF h, of 0 35 "leh_bytes ?h @ [1, 2, 3]" le_new] by (simp add: load_def)
  have g: "lge_deserialize (Some (lgh_bytes ?g)) 48 0 lge_new = (OB_SUCCESS, 48, ?r)"
    using lge_deserialize_exact [OF lgh_example l, of "[]" "[]" lge_new] by simp
  obtain d x where x: "lge_deserialize (Some d) 48 0 lge_new = (OB_SUCCESS, 28, x)" "lgh_get_data_len (lge_header x) = - 20"
    using lge_deserialize_steps_back by blast
  then have n: "\<not> lge_is_valid x" using decoded_entries_well_formed [of "Some d" 48 0 _ _ _ lge_new 28 x] by simp
  have 1: "le_is_valid ?e" "le_get_serialize_size ?e = 35"
    using decoded_entries_well_formed [of "Some (leh_bytes ?h @ [1, 2, 3])" 35 0 le_new 35 ?e] e by simp_all
  have 2: "lge_is_valid ?r"
    using decoded_entries_well_formed [of "Some (lgh_bytes ?g)" 48 0 _ _ _ lge_new 48 ?r] g l by (simp split: if_splits)
  show ?thesis using e g x(1) n 1 2 by blast
qed

end
