(* ===== verification/Ob_Thread_Lease.thy ===== *)
theory Ob_Thread_Lease
  imports Ob_Prelude
begin

section \<open>The thread lease: \<^verbatim>\<open>oblib/lib/thread/ob_thread_lease.h\<close>\<close>

text \<open>
  A lease lets many threads announce work and one of them do it. A thread publishes its work and
  calls \<^verbatim>\<open>acquire\<close>; the one that gets the lease handles what is published and calls \<^verbatim>\<open>revoke\<close>, which
  fails as long as somebody announced more work in the meantime, and then handles again. This is how
  \<^verbatim>\<open>log_sliding_window.cpp\<close> submits and slides logs. Modelled are the class, with one iteration of
  each loop as a function from the local copy and the shared status, and this protocol under every
  interleaving of the loads and compare-and-swaps of any number of threads.
\<close>

datatype StatusType = IDLE | READY | HANDLING

definition lease_new :: StatusType where "lease_new = IDLE"
definition lease_reset :: "StatusType \<Rightarrow> StatusType" where "lease_reset status = IDLE"
definition lease_is_idle :: "StatusType \<Rightarrow> bool" where "lease_is_idle status \<longleftrightarrow> status = IDLE"

text \<open>One iteration: the new status, and the result if the loop is done or the new local copy if not.\<close>

fun acquire_iter :: "StatusType \<Rightarrow> StatusType \<Rightarrow> StatusType \<times> (bool + StatusType)" where
  "acquire_iter IDLE status = (if status = IDLE then (HANDLING, Inl True) else (status, Inr status))"
| "acquire_iter HANDLING status = (if status = HANDLING then (READY, Inl False) else (status, Inr status))"
| "acquire_iter READY status = (status, Inl False)"

fun revoke_iter :: "StatusType \<Rightarrow> StatusType \<Rightarrow> StatusType \<times> (bool + StatusType)" where
  "revoke_iter HANDLING status = (if status = HANDLING then (IDLE, Inl True) else (status, Inr status))"
| "revoke_iter READY status = (if status = READY then (HANDLING, Inl False) else (status, Inr status))"
| "revoke_iter IDLE status = (status, Inl True)"

text \<open>Without interference the first iteration on the status just read ends each loop.\<close>

definition lease_acquire :: "StatusType \<Rightarrow> StatusType \<times> bool" where
  "lease_acquire status = (case acquire_iter status status of (s, Inl b) \<Rightarrow> (s, b) | (s, Inr _) \<Rightarrow> (s, False))"

definition lease_revoke :: "StatusType \<Rightarrow> StatusType \<times> bool" where
  "lease_revoke status = (case revoke_iter status status of (s, Inl b) \<Rightarrow> (s, b) | (s, Inr _) \<Rightarrow> (s, False))"

subsection \<open>Threads that share a lease\<close>

text \<open>
  Work items are numbered in the order of their publication; \<open>handled\<close> is how many had been published
  when the latest pass of a handler began. \<open>AcqLoad k\<close> is a thread that published item \<open>k\<close> and is
  about to read the status, \<open>Acq k st\<close> one inside the loop of \<^verbatim>\<open>acquire\<close> with the local copy \<open>st\<close>.
\<close>

datatype lease_pc = Idle | AcqLoad nat | Acq nat StatusType | Handle | RevLoad | Rev StatusType

record lease_state =
  l_status :: StatusType
  l_pc :: "nat \<Rightarrow> lease_pc"
  l_published :: nat
  l_handled :: nat

definition lease_start :: lease_state where
  "lease_start = \<lparr> l_status = lease_new, l_pc = \<lambda>_. Idle, l_published = 0, l_handled = 0 \<rparr>"

definition l_to :: "nat \<Rightarrow> lease_pc \<Rightarrow> lease_state \<Rightarrow> lease_state" where
  "l_to t p s = s \<lparr> l_pc := (l_pc s)(t := p) \<rparr>"

definition lease_next :: "nat \<Rightarrow> lease_state \<Rightarrow> lease_state" where
  "lease_next t s = (case l_pc s t of
     Idle \<Rightarrow> l_to t (AcqLoad (l_published s + 1)) (s \<lparr> l_published := l_published s + 1 \<rparr>)
   | AcqLoad k \<Rightarrow> l_to t (Acq k (l_status s)) s
   | Acq k st \<Rightarrow> (case acquire_iter st (l_status s) of (status, r) \<Rightarrow>
       l_to t (case r of Inl b \<Rightarrow> if b then Handle else Idle | Inr st' \<Rightarrow> Acq k st') (s \<lparr> l_status := status \<rparr>))
   | Handle \<Rightarrow> l_to t RevLoad (s \<lparr> l_handled := l_published s \<rparr>)
   | RevLoad \<Rightarrow> l_to t (Rev (l_status s)) s
   | Rev st \<Rightarrow> (case revoke_iter st (l_status s) of (status, r) \<Rightarrow>
       l_to t (case r of Inl b \<Rightarrow> if b then Idle else Handle | Inr st' \<Rightarrow> Rev st') (s \<lparr> l_status := status \<rparr>)))"

definition lease_run :: "nat list \<Rightarrow> lease_state" where
  "lease_run ts = fold lease_next ts lease_start"

definition l_owner :: "lease_pc \<Rightarrow> bool" where
  "l_owner p \<longleftrightarrow> (case p of Handle \<Rightarrow> True | RevLoad \<Rightarrow> True | Rev _ \<Rightarrow> True | _ \<Rightarrow> False)"

subsection \<open>Invariant\<close>

text \<open>Somebody is still responsible for item \<open>k\<close>.\<close>

definition l_pending :: "lease_state \<Rightarrow> nat \<Rightarrow> bool" where
  "l_pending s k \<longleftrightarrow> l_status s = READY \<or> (\<exists>t. l_pc s t = Handle)
     \<or> (\<exists>t. l_pc s t = AcqLoad k \<or> (\<exists>st. l_pc s t = Acq k st \<and> st \<noteq> READY))"

definition lease_inv :: "lease_state \<Rightarrow> bool" where
  "lease_inv s \<longleftrightarrow> (\<forall>t u. l_owner (l_pc s t) \<longrightarrow> l_owner (l_pc s u) \<longrightarrow> t = u)
     \<and> (l_status s \<noteq> IDLE \<longleftrightarrow> (\<exists>t. l_owner (l_pc s t)))
     \<and> (\<forall>t. l_pc s t \<noteq> Rev IDLE)
     \<and> l_handled s \<le> l_published s
     \<and> (\<forall>k. l_handled s < k \<longrightarrow> k \<le> l_published s \<longrightarrow> l_pending s k)"

lemma l_owner_simps [simp]:
  "\<not> l_owner Idle" "\<not> l_owner (AcqLoad k)" "\<not> l_owner (Acq k st)" "l_owner Handle" "l_owner RevLoad" "l_owner (Rev st)"
  by (simp_all add: l_owner_def)

lemma l_to_simps [simp]:
  "l_status (l_to t p s) = l_status s" "l_pc (l_to t p s) = (l_pc s)(t := p)"
  "l_published (l_to t p s) = l_published s" "l_handled (l_to t p s) = l_handled s"
  by (simp_all add: l_to_def)

lemma lease_inv_start: "lease_inv lease_start"
  by (simp add: lease_inv_def lease_start_def lease_new_def)

lemma lease_invD:
  assumes "lease_inv s"
  shows "l_owner (l_pc s t) \<Longrightarrow> l_owner (l_pc s u) \<Longrightarrow> t = u"
    and "l_owner (l_pc s t) \<Longrightarrow> l_status s \<noteq> IDLE"
    and "l_status s \<noteq> IDLE \<Longrightarrow> \<exists>t. l_owner (l_pc s t)"
    and "l_pc s t \<noteq> Rev IDLE" "l_handled s \<le> l_published s"
    and "l_handled s < k \<Longrightarrow> k \<le> l_published s \<Longrightarrow> l_pending s k"
  using assms unfolding lease_inv_def by blast+

text \<open>A step keeps the invariant if it keeps ownership in order and loses no responsibility.\<close>

lemma lease_inv_step:
  assumes inv: "lease_inv s" and s': "s' = l_to t p (s \<lparr> l_status := status \<rparr>)"
    and own: "l_owner p = (l_owner (l_pc s t) \<and> status \<noteq> IDLE \<or> \<not> l_owner (l_pc s t) \<and> l_status s = IDLE \<and> status \<noteq> IDLE)"
    and st: "status \<noteq> IDLE \<longleftrightarrow> l_owner p \<or> \<not> l_owner (l_pc s t) \<and> l_status s \<noteq> IDLE"
    and p: "p \<noteq> Rev IDLE"
    and keep: "\<And>k. l_handled s < k \<Longrightarrow> k \<le> l_published s \<Longrightarrow> l_pending s k \<Longrightarrow> l_pending s' k"
  shows "lease_inv s'"
proof -
  have f: "l_status s' = status" "l_pc s' = (l_pc s)(t := p)" "l_published s' = l_published s" "l_handled s' = l_handled s"
    using s' by simp_all
  have uniq: "a = b" if "l_owner (l_pc s' a)" "l_owner (l_pc s' b)" for a b
    using that own lease_invD(1,2) [OF inv] by (fastforce simp: f split: if_splits)
  have idle: "status \<noteq> IDLE \<longleftrightarrow> (\<exists>u. l_owner (l_pc s' u))"
    using st own lease_invD(1,2,3) [OF inv] by (fastforce simp: f split: if_splits)
  have rev: "l_pc s' u \<noteq> Rev IDLE" for u using p lease_invD(4) [OF inv, of u] by (simp add: f)
  have pend: "l_pending s' k" if "l_handled s' < k" "k \<le> l_published s'" for k
    using that keep lease_invD(6) [OF inv] by (simp add: f)
  show ?thesis
    unfolding lease_inv_def
  proof (intro conjI allI impI)
    show "l_status s' \<noteq> IDLE \<longleftrightarrow> (\<exists>t. l_owner (l_pc s' t))" using idle by (simp add: f(1))
    show "l_handled s' \<le> l_published s'" using lease_invD(5) [OF inv] by (simp add: f)
  qed (fact uniq rev pend)+
qed

definition l_cares :: "nat \<Rightarrow> lease_pc \<Rightarrow> bool" where
  "l_cares k p \<longleftrightarrow> p = Handle \<or> p = AcqLoad k \<or> (\<exists>st. p = Acq k st \<and> st \<noteq> READY)"

lemma l_pending_cares: "l_pending s k \<longleftrightarrow> l_status s = READY \<or> (\<exists>t. l_cares k (l_pc s t))"
  by (auto simp: l_pending_def l_cares_def)

lemma l_cares_simps [simp]:
  "l_cares k Handle" "l_cares k (AcqLoad i) \<longleftrightarrow> i = k" "l_cares k (Acq i st) \<longleftrightarrow> i = k \<and> st \<noteq> READY"
  "\<not> l_cares k Idle" "\<not> l_cares k RevLoad" "\<not> l_cares k (Rev st)"
  by (auto simp: l_cares_def)

lemma l_pending_keep:
  assumes "l_pending s k" "l_pc s' = (l_pc s)(t := p)"
    and "l_status s = READY \<Longrightarrow> l_status s' = READY \<or> l_cares k p"
    and "l_cares k (l_pc s t) \<Longrightarrow> l_status s' = READY \<or> l_cares k p"
  shows "l_pending s' k"
proof -
  from assms(1) consider "l_status s = READY" | u where "l_cares k (l_pc s u)" by (auto simp: l_pending_cares)
  then show ?thesis
  proof cases
    case 1
    then show ?thesis using assms(2,3) by (auto simp: l_pending_cares intro: exI [of _ t])
  next
    case 2
    show ?thesis
    proof (cases "u = t")
      case True
      then show ?thesis using 2 assms(2,4) by (auto simp: l_pending_cares intro: exI [of _ t])
    next
      case False
      then show ?thesis using 2 assms(2) by (auto simp: l_pending_cares intro: exI [of _ u])
    qed
  qed
qed

lemma lease_next_inv:
  assumes inv: "lease_inv s"
  shows "lease_inv (lease_next t s)"
proof (cases "l_pc s t")
  case Idle
  let ?s = "lease_next t s"
  have f: "l_status ?s = l_status s" "l_pc ?s = (l_pc s)(t := AcqLoad (l_published s + 1))"
    "l_published ?s = l_published s + 1" "l_handled ?s = l_handled s"
    using Idle by (simp_all add: lease_next_def)
  have own: "l_owner (l_pc ?s u) = l_owner (l_pc s u)" for u using Idle by (simp add: f)
  have pend: "l_pending ?s k" if "l_handled s < k" "k \<le> l_published s + 1" for k
  proof (cases "k = l_published s + 1")
    case False
    then have "l_pending s k" using lease_invD(6) [OF inv] that by simp
    then show ?thesis by (rule l_pending_keep [OF _ f(2)]) (use Idle in \<open>simp_all add: f(1)\<close>)
  qed (auto simp: l_pending_cares f intro: exI [of _ t])
  show ?thesis
    unfolding lease_inv_def own
    using lease_invD(1,2,3,4) [OF inv] lease_invD(5) [OF inv] pend by (auto simp: f)
next
  case (AcqLoad k)
  show ?thesis
    by (rule lease_inv_step [OF inv, of _ t "Acq k (l_status s)" "l_status s"])
      (use AcqLoad in \<open>auto simp: lease_next_def elim!: l_pending_keep [of _ _ _ t "Acq k (l_status s)"]\<close>)
next
  case (Acq k st)
  obtain status r where it: "acquire_iter st (l_status s) = (status, r)" by fastforce
  let ?p = "case r of Inl b \<Rightarrow> if b then Handle else Idle | Inr st' \<Rightarrow> Acq k st'"
  have ow: "l_owner ?p \<longleftrightarrow> l_status s = IDLE \<and> status \<noteq> IDLE" "l_status s \<noteq> IDLE \<Longrightarrow> status \<noteq> IDLE" "?p \<noteq> Rev IDLE"
    using it by (cases st; cases "l_status s"; auto)+
  have care: "l_status s = READY \<Longrightarrow> status = READY" "st \<noteq> READY \<Longrightarrow> status = READY \<or> l_cares k ?p"
    using it by (cases st; cases "l_status s"; auto)+
  have s': "lease_next t s = l_to t ?p (s \<lparr> l_status := status \<rparr>)" using Acq it by (simp add: lease_next_def)
  have keep: "l_pending (lease_next t s) k" if "l_pending s k" for k
    by (rule l_pending_keep [OF that, of _ t ?p]) (use Acq care in \<open>auto simp: s'\<close>)
  show ?thesis
    by (rule lease_inv_step [OF inv s' _ _ ow(3) keep]) (use Acq ow in auto)
next
  case Handle
  have own: "l_owner (l_pc (lease_next t s) u) = l_owner (l_pc s u)" for u using Handle by (simp add: lease_next_def)
  show ?thesis
    unfolding lease_inv_def own
    using lease_invD(1,2,3,4) [OF inv] Handle by (auto simp: lease_next_def)
next
  case RevLoad
  then have "l_status s \<noteq> IDLE" using lease_invD(2) [OF inv, of t] by simp
  then show ?thesis
    by (intro lease_inv_step [OF inv, of _ t "Rev (l_status s)" "l_status s"])
      (use RevLoad in \<open>auto simp: lease_next_def elim!: l_pending_keep [of _ _ _ t "Rev (l_status s)"]\<close>)
next
  case (Rev st)
  obtain status r where it: "revoke_iter st (l_status s) = (status, r)" by fastforce
  have st: "st \<noteq> IDLE" "l_status s \<noteq> IDLE" using Rev lease_invD(2,4) [OF inv, of t] by auto
  let ?p = "case r of Inl b \<Rightarrow> if b then Idle else Handle | Inr st' \<Rightarrow> Rev st'"
  have ow: "l_owner ?p \<longleftrightarrow> status \<noteq> IDLE" "?p \<noteq> Rev IDLE"
    using it st by (cases st; cases "l_status s"; auto)+
  have care: "l_status s = READY \<Longrightarrow> status = READY \<or> l_cares k ?p" for k
    using it st by (cases st; cases "l_status s"; auto)
  have s': "lease_next t s = l_to t ?p (s \<lparr> l_status := status \<rparr>)" using Rev it by (simp add: lease_next_def)
  have keep: "l_pending (lease_next t s) k" if "l_pending s k" for k
    by (rule l_pending_keep [OF that, of _ t ?p]) (use Rev care in \<open>auto simp: s'\<close>)
  show ?thesis
    by (rule lease_inv_step [OF inv s' _ _ ow(2) keep]) (use Rev st ow in auto)
qed

lemma lease_fold_inv: "lease_inv s \<Longrightarrow> lease_inv (fold lease_next ts s)"
  by (induction ts arbitrary: s) (auto intro: lease_next_inv)

lemma lease_run_inv: "lease_inv (lease_run ts)"
  by (simp add: lease_run_def lease_fold_inv lease_inv_start)

text \<open>C14.
  The lease is exclusive and loses no work, in every interleaving of any number of threads: at most
  one thread is between a successful \<^verbatim>\<open>acquire\<close> and its successful \<^verbatim>\<open>revoke\<close>, and whenever no thread is
  inside the protocol the lease is idle again and a pass of a handler has begun after the publication
  of every item, also of those whose \<^verbatim>\<open>acquire\<close> was refused because another thread held the lease.
\<close>

theorem lease_loses_no_work:
  assumes "s = lease_run ts"
  shows "(\<forall>t u. l_owner (l_pc s t) \<longrightarrow> l_owner (l_pc s u) \<longrightarrow> t = u)
    \<and> ((\<forall>t. l_pc s t = Idle) \<longrightarrow> l_status s = IDLE \<and> l_handled s = l_published s)"
proof -
  have inv: "lease_inv s" using assms lease_run_inv by simp
  have "l_handled s = l_published s \<and> l_status s = IDLE" if idle: "\<forall>t. l_pc s t = Idle"
  proof -
    have st: "l_status s = IDLE" using lease_invD(3) [OF inv] idle by force
    then have "\<not> l_pending s (l_published s)" using idle by (simp add: l_pending_def)
    then show ?thesis using st lease_invD(5) [OF inv] lease_invD(6) [OF inv, of "l_published s"] by fastforce
  qed
  then show ?thesis using lease_invD(1) [OF inv] by blast
qed

text \<open>Two threads; the second announces its item while the first holds the lease and is refused.\<close>

theorem lease_loses_no_work_witness:
  "l_handled (lease_run [0, 0, 0, 0, 1, 1, 0, 1, 0, 0, 0, 0, 0]) = 2
   \<and> (\<forall>t. l_pc (lease_run [0, 0, 0, 0, 1, 1, 0, 1, 0, 0, 0, 0, 0]) t = Idle)"
proof -
  let ?s = "lease_run [0, 0, 0, 0, 1, 1, 0, 1, 0, 0, 0, 0, 0]"
  have "(\<forall>t. l_pc ?s t = Idle) \<and> l_published ?s = 2"
    by (simp add: lease_run_def lease_start_def lease_new_def lease_next_def)
  then show ?thesis using lease_loses_no_work [of ?s, OF refl] by simp
qed

end
