(* ===== verification/Palf_Log_Task.thy ===== *)
theory Palf_Log_Task
  imports Palf_Group_Entry Palf_Group_Buffer
begin

section \<open>Log tasks: \<^verbatim>\<open>logservice/palf/log_task.h\<close>, \<^verbatim>\<open>log_task.cpp\<close>\<close>

text \<open>
  A log task is the slot of the sliding window for one group log. Threads that append entries fill
  the group buffer and add the size of their entry to a reference count; the thread that freezes the
  task subtracts the size of the whole group. The group is complete when the task is frozen and the
  count is zero, and whoever finds that out starts its submission. Modelled is the whole class; the
  clock is a parameter. The second half splits the operations that do not run under the lock of the
  task into their atomic accesses and lets any number of threads interleave.
\<close>

record LogTaskHeaderInfo =
  th_begin_lsn :: LSN
  th_end_lsn :: LSN
  th_log_id :: int
  th_min_scn :: SCN
  th_max_scn :: SCN
  th_data_len :: int
  th_prev_lsn :: LSN
  th_committed_end_lsn :: LSN
  th_data_checksum :: "64 word"
  th_accum_checksum :: "64 word"
  th_is_padding_log :: bool

definition th_reset :: LogTaskHeaderInfo where
  "th_reset = \<lparr> th_begin_lsn = lsn_reset, th_end_lsn = lsn_reset, th_log_id = OB_INVALID_LOG_ID,
     th_min_scn = invalid_scn, th_max_scn = invalid_scn, th_data_len = 0, th_prev_lsn = lsn_reset,
     th_committed_end_lsn = lsn_reset, th_data_checksum = - 1, th_accum_checksum = - 1, th_is_padding_log = False \<rparr>"

definition th_is_valid :: "LogTaskHeaderInfo \<Rightarrow> bool" where
  "th_is_valid h \<longleftrightarrow> is_valid_log_id (th_log_id h) \<and> lsn_is_valid (th_begin_lsn h)"

subsection \<open>\<^verbatim>\<open>LogSimpleBitMap\<close>\<close>

text \<open>Each loop of the source retries until its compare-and-swap succeeds; it then has the effect below at once.\<close>

definition bm_mask :: "nat \<Rightarrow> 16 word" where "bm_mask idx = push_bit idx 1"

definition bm_reset_all :: "16 word \<Rightarrow> 16 word" where "bm_reset_all v = 0"
definition bm_reset_map :: "nat \<Rightarrow> 16 word \<Rightarrow> 16 word" where "bm_reset_map idx v = v AND NOT (bm_mask idx)"
definition bm_set_map :: "nat \<Rightarrow> 16 word \<Rightarrow> 16 word" where "bm_set_map idx v = v OR bm_mask idx"
definition bm_test_map :: "nat \<Rightarrow> 16 word \<Rightarrow> bool" where "bm_test_map idx v \<longleftrightarrow> v AND bm_mask idx \<noteq> 0"

definition bm_test_and_set :: "nat \<Rightarrow> 16 word \<Rightarrow> bool \<times> 16 word" where
  "bm_test_and_set idx v = (v AND bm_mask idx = 0, v OR bm_mask idx)"

subsection \<open>\<^verbatim>\<open>LogTask\<close>\<close>

definition PRE_FILL :: nat where "PRE_FILL = 0"
definition IS_VALID :: nat where "IS_VALID = 1"
definition SUBMIT_LOG_EXIST :: nat where "SUBMIT_LOG_EXIST = 2"
definition IS_FREEZED :: nat where "IS_FREEZED = 3"
definition PRE_SUBMIT :: nat where "PRE_SUBMIT = 4"
definition PRE_SLIDE :: nat where "PRE_SLIDE = 5"
definition OB_INVALID_TIMESTAMP :: int where "OB_INVALID_TIMESTAMP = - 1"

lemmas state_bit_defs = PRE_FILL_def IS_VALID_def SUBMIT_LOG_EXIST_def IS_FREEZED_def PRE_SUBMIT_def PRE_SLIDE_def

record LogTask =
  lt_state_map :: "16 word"
  lt_header :: LogTaskHeaderInfo
  lt_ref_cnt :: int
  lt_log_cnt :: int
  lt_gen_ts :: int
  lt_freeze_ts :: int
  lt_submit_ts :: int
  lt_flushed_ts :: int

definition lt_reset :: LogTask where
  "lt_reset = \<lparr> lt_state_map = bm_reset_all 0, lt_header = th_reset, lt_ref_cnt = 0, lt_log_cnt = 0,
     lt_gen_ts = OB_INVALID_TIMESTAMP, lt_freeze_ts = OB_INVALID_TIMESTAMP, lt_submit_ts = OB_INVALID_TIMESTAMP,
     lt_flushed_ts = OB_INVALID_TIMESTAMP \<rparr>"

definition lt_set_bit :: "nat \<Rightarrow> LogTask \<Rightarrow> LogTask" where
  "lt_set_bit idx k = k \<lparr> lt_state_map := bm_set_map idx (lt_state_map k) \<rparr>"
definition lt_reset_bit :: "nat \<Rightarrow> LogTask \<Rightarrow> LogTask" where
  "lt_reset_bit idx k = k \<lparr> lt_state_map := bm_reset_map idx (lt_state_map k) \<rparr>"
definition lt_test_bit :: "nat \<Rightarrow> LogTask \<Rightarrow> bool" where
  "lt_test_bit idx k = bm_test_map idx (lt_state_map k)"
definition lt_test_and_set :: "nat \<Rightarrow> LogTask \<Rightarrow> bool \<times> LogTask" where
  "lt_test_and_set idx k = (case bm_test_and_set idx (lt_state_map k) of (b, v) \<Rightarrow> (b, k \<lparr> lt_state_map := v \<rparr>))"

definition lt_is_valid :: "LogTask \<Rightarrow> bool" where "lt_is_valid k = lt_test_bit IS_VALID k"
definition lt_set_valid :: "int \<Rightarrow> LogTask \<Rightarrow> LogTask" where "lt_set_valid now k = lt_set_bit IS_VALID (k \<lparr> lt_gen_ts := now \<rparr>)"
definition lt_is_freezed :: "LogTask \<Rightarrow> bool" where "lt_is_freezed k = lt_test_bit IS_FREEZED k"
definition lt_set_freezed :: "LogTask \<Rightarrow> LogTask" where "lt_set_freezed k = lt_set_bit IS_FREEZED k"
definition lt_try_pre_fill :: "LogTask \<Rightarrow> bool \<times> LogTask" where "lt_try_pre_fill k = lt_test_and_set PRE_FILL k"
definition lt_reset_pre_fill :: "LogTask \<Rightarrow> LogTask" where "lt_reset_pre_fill k = lt_reset_bit PRE_FILL k"
definition lt_try_pre_slide :: "LogTask \<Rightarrow> bool \<times> LogTask" where "lt_try_pre_slide k = lt_test_and_set PRE_SLIDE k"
definition lt_is_pre_slide :: "LogTask \<Rightarrow> bool" where "lt_is_pre_slide k = lt_test_bit PRE_SLIDE k"
definition lt_reset_pre_slide :: "LogTask \<Rightarrow> LogTask" where "lt_reset_pre_slide k = lt_reset_bit PRE_SLIDE k"
definition lt_is_pre_submit :: "LogTask \<Rightarrow> bool" where "lt_is_pre_submit k = lt_test_bit PRE_SUBMIT k"
definition lt_reset_pre_submit :: "LogTask \<Rightarrow> LogTask" where "lt_reset_pre_submit k = lt_reset_bit PRE_SUBMIT k"
definition lt_set_submit_log_exist :: "LogTask \<Rightarrow> bool \<times> LogTask" where "lt_set_submit_log_exist k = lt_test_and_set SUBMIT_LOG_EXIST k"
definition lt_reset_submit_log_exist :: "LogTask \<Rightarrow> LogTask" where "lt_reset_submit_log_exist k = lt_reset_bit SUBMIT_LOG_EXIST k"
definition lt_is_submit_log_exist :: "LogTask \<Rightarrow> bool" where "lt_is_submit_log_exist k = lt_test_bit SUBMIT_LOG_EXIST k"
definition lt_can_be_slid :: "LogTask \<Rightarrow> bool" where "lt_can_be_slid k = lt_is_pre_slide k"

definition lt_try_pre_submit :: "LogTask \<Rightarrow> bool \<times> LogTask" where
  "lt_try_pre_submit k = (if lt_is_freezed k \<and> 0 = lt_ref_cnt k then lt_test_and_set PRE_SUBMIT k else (False, k))"

definition lt_set_group_log_checksum :: "64 word \<Rightarrow> LogTask \<Rightarrow> LogTask" where
  "lt_set_group_log_checksum c k = k \<lparr> lt_header := (lt_header k) \<lparr> th_data_checksum := c \<rparr> \<rparr>"
definition lt_inc_update_max_scn :: "SCN \<Rightarrow> LogTask \<Rightarrow> LogTask" where
  "lt_inc_update_max_scn scn k =
     k \<lparr> lt_header := (lt_header k) \<lparr> th_max_scn := fst (scn_inc_update (th_max_scn (lt_header k)) scn) \<rparr> \<rparr>"
definition lt_update_data_len :: "int \<Rightarrow> LogTask \<Rightarrow> LogTask" where
  "lt_update_data_len n k = k \<lparr> lt_header := (lt_header k) \<lparr> th_data_len := th_data_len (lt_header k) + n \<rparr> \<rparr>"
definition lt_set_prev_lsn :: "LSN \<Rightarrow> LogTask \<Rightarrow> LogTask" where
  "lt_set_prev_lsn l k = k \<lparr> lt_header := (lt_header k) \<lparr> th_prev_lsn := l \<rparr> \<rparr>"
definition lt_set_end_lsn :: "LSN \<Rightarrow> LogTask \<Rightarrow> LogTask" where
  "lt_set_end_lsn l k = k \<lparr> lt_header := (lt_header k) \<lparr> th_end_lsn := l \<rparr> \<rparr>"

definition lt_ref :: "int \<Rightarrow> bool \<Rightarrow> LogTask \<Rightarrow> int \<times> LogTask" where
  "lt_ref val is_append_log k =
     (let k1 = (if is_append_log then k \<lparr> lt_log_cnt := lt_log_cnt k + 1 \<rparr> else k);
          k2 = k1 \<lparr> lt_ref_cnt := lt_ref_cnt k1 + val \<rparr> in (lt_ref_cnt k2, k2))"

definition lt_set_freeze_ts :: "int \<Rightarrow> LogTask \<Rightarrow> LogTask" where
  "lt_set_freeze_ts ts k = (if lt_freeze_ts k = OB_INVALID_TIMESTAMP then k \<lparr> lt_freeze_ts := ts \<rparr> else k)"
definition lt_set_submit_ts :: "int \<Rightarrow> LogTask \<Rightarrow> LogTask" where "lt_set_submit_ts ts k = k \<lparr> lt_submit_ts := ts \<rparr>"
definition lt_set_flushed_ts :: "int \<Rightarrow> LogTask \<Rightarrow> LogTask" where "lt_set_flushed_ts ts k = k \<lparr> lt_flushed_ts := ts \<rparr>"

definition lt_set_initial_header_info :: "int \<Rightarrow> LogTaskHeaderInfo \<Rightarrow> LogTask \<Rightarrow> ob_ret \<times> LogTask" where
  "lt_set_initial_header_info now info k =
     (if lt_is_valid k then (OB_ERR_UNEXPECTED, k)
      else let k1 = k \<lparr> lt_header := (lt_header k) \<lparr> th_begin_lsn := th_begin_lsn info, th_log_id := th_log_id info,
                  th_is_padding_log := th_is_padding_log info, th_min_scn := th_min_scn info \<rparr> \<rparr>;
               k2 = lt_update_data_len (th_data_len info) k1;
               k3 = lt_inc_update_max_scn (th_max_scn info) k2
           in (OB_SUCCESS, lt_set_valid now k3))"

definition lt_update_header_info :: "LSN \<Rightarrow> 64 word \<Rightarrow> LogTask \<Rightarrow> ob_ret \<times> LogTask" where
  "lt_update_header_info committed_end_lsn accum k =
     (if \<not> lsn_is_valid committed_end_lsn then (OB_INVALID_ARGUMENT, k)
      else if \<not> lt_is_valid k then (OB_ERR_UNEXPECTED, k)
      else (OB_SUCCESS, k \<lparr> lt_header := (lt_header k) \<lparr> th_committed_end_lsn := committed_end_lsn,
              th_accum_checksum := accum \<rparr> \<rparr>))"

definition lt_set_group_header :: "int \<Rightarrow> LSN \<Rightarrow> SCN \<Rightarrow> LogGroupEntryHeader \<Rightarrow> LogTask \<Rightarrow> ob_ret \<times> LogTask" where
  "lt_set_group_header now lsn scn g k =
     (if \<not> lsn_is_valid lsn \<or> \<not> lgh_is_valid g then (OB_INVALID_ARGUMENT, k)
      else if lt_is_valid k then (OB_STATE_NOT_MATCH, k)
      else (OB_SUCCESS, lt_set_valid now (k \<lparr> lt_header := (lt_header k) \<lparr> th_begin_lsn := lsn,
              th_end_lsn := lsn_add (lsn_add lsn (lgh_get_serialize_size g)) (lgh_get_data_len g),
              th_log_id := sint (lgh_log_id g), th_is_padding_log := lgh_is_padding_log g, th_min_scn := scn,
              th_max_scn := lgh_max_scn g, th_data_len := lgh_get_data_len g,
              th_committed_end_lsn := lgh_committed_end_lsn g,
              th_accum_checksum := lgh_accumulated_checksum g \<rparr> \<rparr>)))"

text \<open>
  \<^verbatim>\<open>try_freeze_\<close> subtracts the size of the group and sets the state bit in two atomic accesses, between
  which other threads may add to the count; the two are separate definitions.
\<close>

definition lt_freeze_ref :: "LSN \<Rightarrow> LogTask \<Rightarrow> LogTask" where
  "lt_freeze_ref end_lsn k =
     (let total_len = sint (lsn_diff end_lsn (th_begin_lsn (lt_header k))) in
      snd (lt_ref (0 - (total_len - LGH_HEADER_SER_SIZE)) False k))"

definition lt_freeze_mark :: "LSN \<Rightarrow> LogTask \<Rightarrow> LogTask" where
  "lt_freeze_mark end_lsn k = lt_set_bit IS_FREEZED (lt_set_end_lsn end_lsn k)"

definition lt_freeze_guard :: "LSN \<Rightarrow> LogTask \<Rightarrow> ob_ret" where
  "lt_freeze_guard end_lsn k =
     (if \<not> lsn_is_valid end_lsn then OB_INVALID_ARGUMENT
      else if \<not> lt_is_valid k then OB_EAGAIN
      else if lsn_ge (th_begin_lsn (lt_header k)) end_lsn then OB_INVALID_ARGUMENT
      else OB_SUCCESS)"

definition lt_try_freeze :: "LSN \<Rightarrow> LogTask \<Rightarrow> ob_ret \<times> LogTask" where
  "lt_try_freeze end_lsn k =
     (if lt_is_freezed k then (OB_SUCCESS, k)
      else let ret = lt_freeze_guard end_lsn k in
        if ret \<noteq> OB_SUCCESS then (ret, k) else (OB_SUCCESS, lt_freeze_mark end_lsn (lt_freeze_ref end_lsn k)))"

definition lt_try_freeze_by_myself :: "LogTask \<Rightarrow> ob_ret \<times> LogTask" where
  "lt_try_freeze_by_myself k =
     (if \<not> lsn_is_valid (th_end_lsn (lt_header k)) then (OB_EAGAIN, k)
      else lt_try_freeze (th_end_lsn (lt_header k)) k)"

subsection \<open>The threads that work on one task\<close>

text \<open>
  Thread 0 appends the first entry of the group (\<^verbatim>\<open>generate_new_group_log_\<close>), the threads below the number
  of entries append the others (\<^verbatim>\<open>append_to_group_log_\<close>), and every other thread freezes the task, either for
  the first entry of the next group (\<^verbatim>\<open>try_freeze_prev_log_\<close>) or in the background
  (\<^verbatim>\<open>try_freeze_last_log_task_\<close>). \<open>LtDone b\<close> is a thread that has finished with \<^verbatim>\<open>is_need_handle\<close> equal to \<open>b\<close>.
\<close>

record lt_conf =
  lc_begin :: LSN
  lc_log_id :: int
  lc_is_padding :: bool
  lc_sizes :: "int list"
  lc_scns :: "SCN list"
  lc_prev :: "nat \<Rightarrow> bool"
  lc_clock :: "nat \<Rightarrow> int"

definition lc_n :: "lt_conf \<Rightarrow> nat" where "lc_n c = length (lc_sizes c)"
definition lc_total :: "lt_conf \<Rightarrow> int" where "lc_total c = sum_list (lc_sizes c)"
definition lc_end :: "lt_conf \<Rightarrow> LSN" where "lc_end c = lsn_add (lc_begin c) (LGH_HEADER_SER_SIZE + lc_total c)"

definition lc_info :: "lt_conf \<Rightarrow> LogTaskHeaderInfo" where
  "lc_info c = th_reset \<lparr> th_begin_lsn := lc_begin c, th_log_id := lc_log_id c, th_is_padding_log := lc_is_padding c, th_min_scn := lc_scns c ! 0,
     th_max_scn := lc_scns c ! 0, th_data_len := lc_sizes c ! 0 \<rparr>"

datatype lt_pc = LtStart | LtFreezing | LtMarking | LtUnlocking | LtFilling | LtTag | LtCheckFrozen | LtCheckRef | LtDone bool

record lt_state =
  ls_task :: LogTask
  ls_lock :: "nat option"
  ls_pc :: "nat \<Rightarrow> lt_pc"

definition ls_start :: lt_state where
  "ls_start = \<lparr> ls_task = lt_reset, ls_lock = None, ls_pc = \<lambda>_. LtStart \<rparr>"

definition ls_to :: "nat \<Rightarrow> lt_pc \<Rightarrow> LogTask \<Rightarrow> lt_state \<Rightarrow> lt_state" where
  "ls_to t p k s = s \<lparr> ls_task := k, ls_pc := (ls_pc s)(t := p) \<rparr>"

definition ls_log_end :: "LogTask \<Rightarrow> LSN" where
  "ls_log_end k = lsn_add (lsn_add (th_begin_lsn (lt_header k)) LGH_HEADER_SER_SIZE) (th_data_len (lt_header k))"

text \<open>What each kind of thread does when it has taken the lock of the task.\<close>

definition ls_enter_first :: "lt_conf \<Rightarrow> lt_state \<Rightarrow> lt_state" where
  "ls_enter_first c s =
     (case lt_set_initial_header_info (lc_clock c 0) (lc_info c) (ls_task s) of (r, k1) \<Rightarrow>
        if r \<noteq> OB_SUCCESS then ls_to 0 (LtDone False) (ls_task s) s
        else ls_to 0 (if lsn_is_valid (th_end_lsn (lt_header k1)) then LtFreezing else LtUnlocking) k1
               (s \<lparr> ls_lock := Some 0 \<rparr>))"

definition ls_enter_prev :: "lt_conf \<Rightarrow> nat \<Rightarrow> lt_state \<Rightarrow> lt_state" where
  "ls_enter_prev c t s =
     (let k = ls_task s; s1 = s \<lparr> ls_lock := Some t \<rparr> in
      if \<not> lt_is_valid k then ls_to t LtUnlocking (lt_set_end_lsn (lc_end c) k) s1 else ls_to t LtFreezing k s1)"

definition ls_enter_last :: "lt_conf \<Rightarrow> nat \<Rightarrow> lt_state \<Rightarrow> lt_state" where
  "ls_enter_last c t s =
     (let k = ls_task s; s1 = s \<lparr> ls_lock := Some t \<rparr> in
      if \<not> lt_is_valid k then ls_to t LtUnlocking k s1
      else if lsn_gt (ls_log_end k) (lc_end c) then ls_to t LtUnlocking k s1
      else ls_to t LtFreezing k s1)"

definition ls_enter :: "lt_conf \<Rightarrow> nat \<Rightarrow> lt_state \<Rightarrow> lt_state" where
  "ls_enter c t s = (if t = 0 then ls_enter_first c s else if lc_prev c t then ls_enter_prev c t s else ls_enter_last c t s)"

lemmas ls_enter_defs = ls_enter_def ls_enter_first_def ls_enter_prev_def ls_enter_last_def

text \<open>
  One step of a thread: its accesses to the task. The header fields that are written together under the
  lock, and the two counters an append raises, take effect in one step; the reference count, the state
  bits and the lock are accessed one at a time, as in the source. What a thread does between its accesses
  to the task (the argument checks, the wait for room in the ring, the entry header, the copies into
  the ring) is no step of its own: it is over when \<open>LtFilling\<close> is left. A thread whose copy fails never
  raises the count and stays at \<open>LtFilling\<close>.
\<close>

definition lt_next :: "lt_conf \<Rightarrow> nat \<Rightarrow> lt_state \<Rightarrow> lt_state option" where
  "lt_next c t s =
     (let k = ls_task s; e = (if t = 0 then th_end_lsn (lt_header k) else lc_end c) in
      case ls_pc s t of
        LtStart \<Rightarrow>
          if 0 < t \<and> t < lc_n c
          then Some (ls_to t LtFilling (lt_update_data_len (lc_sizes c ! t) (lt_inc_update_max_scn (lc_scns c ! t) k)) s)
          else if ls_lock s \<noteq> None then None else Some (ls_enter c t s)
      | LtFreezing \<Rightarrow>
          if lt_is_freezed k \<or> lt_freeze_guard e k \<noteq> OB_SUCCESS then Some (ls_to t LtUnlocking k s)
          else Some (ls_to t LtMarking (lt_freeze_ref e k) s)
      | LtMarking \<Rightarrow> Some (ls_to t LtUnlocking (lt_freeze_mark e k) s)
      | LtUnlocking \<Rightarrow> Some (ls_to t (if t < lc_n c then LtFilling else LtCheckFrozen) k (s \<lparr> ls_lock := None \<rparr>))
      | LtFilling \<Rightarrow>
          Some (ls_to t (if t = 0 then LtTag else LtCheckFrozen) (snd (lt_ref (lc_sizes c ! t) True k)) s)
      | LtTag \<Rightarrow> Some (ls_to t LtCheckFrozen (snd (lt_set_submit_log_exist k)) s)
      | LtCheckFrozen \<Rightarrow> Some (ls_to t (if lt_is_freezed k then LtCheckRef else LtDone False) k s)
      | LtCheckRef \<Rightarrow> Some (ls_to t (LtDone (0 = lt_ref_cnt k))
          (if 0 < t \<and> t < lc_n c then k else lt_set_freeze_ts (lc_clock c t) k) s)
      | LtDone _ \<Rightarrow> None)"

inductive lt_reach :: "lt_conf \<Rightarrow> lt_state \<Rightarrow> bool" for c where
  start: "lt_reach c ls_start"
| step: "lt_reach c s \<Longrightarrow> lt_next c t s = Some s' \<Longrightarrow> lt_reach c s'"

definition lt_run :: "lt_conf \<Rightarrow> nat list \<Rightarrow> lt_state option" where
  "lt_run c ts = fold (\<lambda>t r. Option.bind r (lt_next c t)) ts (Some ls_start)"

definition conf_ok :: "lt_conf \<Rightarrow> bool" where
  "conf_ok c \<longleftrightarrow> lc_sizes c \<noteq> [] \<and> list_all (\<lambda>z. 0 < z) (lc_sizes c)
     \<and> uint (lsn_val (lc_begin c)) + 48 + lc_total c < 2 ^ 62"

subsection \<open>What the operations do to the bits and counters\<close>

lemma bm_test_set:
  "i < 16 \<Longrightarrow> j < 16 \<Longrightarrow> bm_test_map i (bm_set_map j v) \<longleftrightarrow> i = j \<or> bm_test_map i v"
  "i < 16 \<Longrightarrow> j < 16 \<Longrightarrow> bm_test_map i (bm_reset_map j v) \<longleftrightarrow> i \<noteq> j \<and> bm_test_map i v"
proof -
  have t: "bm_test_map i v \<longleftrightarrow> bit v i" for i and v :: "16 word"
  proof -
    have "v AND bm_mask i = (if bit v i then bm_mask i else 0)"
      by (rule bit_word_eqI) (auto simp: bm_mask_def bit_simps)
    moreover have "bm_mask i \<noteq> 0" if "bit v i"
    proof -
      have "bit (bm_mask i) i" using bit_imp_le_length [OF that] by (simp add: bm_mask_def bit_simps)
      then show ?thesis by auto
    qed
    ultimately show ?thesis by (auto simp: bm_test_map_def)
  qed
  show "i < 16 \<Longrightarrow> j < 16 \<Longrightarrow> bm_test_map i (bm_set_map j v) \<longleftrightarrow> i = j \<or> bm_test_map i v"
    "i < 16 \<Longrightarrow> j < 16 \<Longrightarrow> bm_test_map i (bm_reset_map j v) \<longleftrightarrow> i \<noteq> j \<and> bm_test_map i v"
    by (auto simp: t bm_set_map_def bm_reset_map_def bm_mask_def bit_simps)
qed

lemmas lt_op_defs = lt_set_bit_def lt_test_bit_def lt_test_and_set_def lt_is_valid_def lt_is_freezed_def lt_set_valid_def
  lt_update_data_len_def lt_inc_update_max_scn_def lt_set_end_lsn_def lt_ref_def lt_freeze_ref_def lt_freeze_mark_def
  lt_set_submit_log_exist_def lt_set_freeze_ts_def bm_test_and_set_def

lemma bm_or_mask: "v OR bm_mask j = bm_set_map j v"
  by (simp add: bm_set_map_def)

lemma lt_bits [simp]:
  "lt_is_valid (lt_update_data_len n k) = lt_is_valid k" "lt_is_freezed (lt_update_data_len n k) = lt_is_freezed k"
  "lt_is_valid (lt_inc_update_max_scn x k) = lt_is_valid k" "lt_is_freezed (lt_inc_update_max_scn x k) = lt_is_freezed k"
  "lt_is_valid (lt_set_end_lsn l k) = lt_is_valid k" "lt_is_freezed (lt_set_end_lsn l k) = lt_is_freezed k"
  "lt_is_valid (snd (lt_ref n b k)) = lt_is_valid k" "lt_is_freezed (snd (lt_ref n b k)) = lt_is_freezed k"
  "lt_is_valid (lt_freeze_ref l k) = lt_is_valid k" "lt_is_freezed (lt_freeze_ref l k) = lt_is_freezed k"
  "lt_is_valid (lt_freeze_mark l k) = lt_is_valid k" "lt_is_freezed (lt_freeze_mark l k)"
  "lt_is_valid (snd (lt_set_submit_log_exist k)) = lt_is_valid k"
  "lt_is_freezed (snd (lt_set_submit_log_exist k)) = lt_is_freezed k"
  "lt_is_valid (lt_set_freeze_ts ts k) = lt_is_valid k" "lt_is_freezed (lt_set_freeze_ts ts k) = lt_is_freezed k"
  "lt_is_valid (lt_set_valid now k)" "lt_is_freezed (lt_set_valid now k) = lt_is_freezed k"
  by (simp_all add: lt_op_defs Let_def bm_or_mask bm_test_set state_bit_defs)

lemma lt_fields [simp]:
  "lt_header (snd (lt_ref n b k)) = lt_header k" "lt_ref_cnt (snd (lt_ref n b k)) = lt_ref_cnt k + n"
  "lt_ref_cnt (lt_update_data_len n k) = lt_ref_cnt k" "lt_ref_cnt (lt_inc_update_max_scn x k) = lt_ref_cnt k"
  "th_data_len (lt_header (lt_update_data_len n k)) = th_data_len (lt_header k) + n"
  "th_data_len (lt_header (lt_inc_update_max_scn x k)) = th_data_len (lt_header k)"
  "th_begin_lsn (lt_header (lt_update_data_len n k)) = th_begin_lsn (lt_header k)"
  "th_begin_lsn (lt_header (lt_inc_update_max_scn x k)) = th_begin_lsn (lt_header k)"
  "th_end_lsn (lt_header (lt_update_data_len n k)) = th_end_lsn (lt_header k)"
  "th_end_lsn (lt_header (lt_inc_update_max_scn x k)) = th_end_lsn (lt_header k)"
  "lt_ref_cnt (lt_set_end_lsn l k) = lt_ref_cnt k" "th_end_lsn (lt_header (lt_set_end_lsn l k)) = l"
  "th_begin_lsn (lt_header (lt_set_end_lsn l k)) = th_begin_lsn (lt_header k)"
  "th_data_len (lt_header (lt_set_end_lsn l k)) = th_data_len (lt_header k)"
  "lt_header (lt_freeze_ref l k) = lt_header k"
  "lt_ref_cnt (lt_freeze_ref l k) = lt_ref_cnt k - (sint (lsn_diff l (th_begin_lsn (lt_header k))) - LGH_HEADER_SER_SIZE)"
  "lt_ref_cnt (lt_freeze_mark l k) = lt_ref_cnt k" "th_end_lsn (lt_header (lt_freeze_mark l k)) = l"
  "th_begin_lsn (lt_header (lt_freeze_mark l k)) = th_begin_lsn (lt_header k)"
  "th_data_len (lt_header (lt_freeze_mark l k)) = th_data_len (lt_header k)"
  "lt_header (snd (lt_set_submit_log_exist k)) = lt_header k" "lt_ref_cnt (snd (lt_set_submit_log_exist k)) = lt_ref_cnt k"
  "lt_header (lt_set_freeze_ts ts k) = lt_header k" "lt_ref_cnt (lt_set_freeze_ts ts k) = lt_ref_cnt k"
  "lt_header (lt_set_valid now k) = lt_header k" "lt_ref_cnt (lt_set_valid now k) = lt_ref_cnt k"
  by (simp_all add: lt_op_defs Let_def)

lemma lt_initial:
  assumes "lt_set_initial_header_info now info k = (r, k1)" "\<not> lt_is_valid k"
  shows "r = OB_SUCCESS" "lt_is_valid k1" "lt_is_freezed k1 = lt_is_freezed k" "lt_ref_cnt k1 = lt_ref_cnt k"
    "th_begin_lsn (lt_header k1) = th_begin_lsn info" "th_end_lsn (lt_header k1) = th_end_lsn (lt_header k)"
    "th_data_len (lt_header k1) = th_data_len (lt_header k) + th_data_len info"
proof -
  let ?k = "k \<lparr> lt_header := (lt_header k) \<lparr> th_begin_lsn := th_begin_lsn info, th_log_id := th_log_id info,
    th_is_padding_log := th_is_padding_log info, th_min_scn := th_min_scn info \<rparr> \<rparr>"
  have k1: "r = OB_SUCCESS" "k1 = lt_set_valid now (lt_inc_update_max_scn (th_max_scn info) (lt_update_data_len (th_data_len info) ?k))"
    using assms by (auto simp: lt_set_initial_header_info_def Let_def)
  have "lt_is_freezed ?k = lt_is_freezed k" by (simp add: lt_op_defs)
  then show "r = OB_SUCCESS" "lt_is_valid k1" "lt_is_freezed k1 = lt_is_freezed k" "lt_ref_cnt k1 = lt_ref_cnt k"
    "th_begin_lsn (lt_header k1) = th_begin_lsn info" "th_end_lsn (lt_header k1) = th_end_lsn (lt_header k)"
    "th_data_len (lt_header k1) = th_data_len (lt_header k) + th_data_len info"
    by (simp_all add: k1)
qed

subsection \<open>Invariant\<close>

definition lt_filled :: "lt_pc \<Rightarrow> bool" where
  "lt_filled p \<longleftrightarrow> (case p of LtTag \<Rightarrow> True | LtCheckFrozen \<Rightarrow> True | LtCheckRef \<Rightarrow> True | LtDone _ \<Rightarrow> True | _ \<Rightarrow> False)"

definition lt_locked :: "lt_pc \<Rightarrow> bool" where
  "lt_locked p \<longleftrightarrow> p = LtFreezing \<or> p = LtMarking \<or> p = LtUnlocking"

definition lt_wakes :: "lt_pc \<Rightarrow> bool" where
  "lt_wakes p \<longleftrightarrow> p = LtUnlocking \<or> p = LtTag \<or> p = LtCheckFrozen \<or> p = LtCheckRef \<or> p = LtDone True"

lemma lt_pc_simps [simp]:
  "\<not> lt_filled LtStart" "\<not> lt_filled LtFreezing" "\<not> lt_filled LtMarking" "\<not> lt_filled LtUnlocking" "\<not> lt_filled LtFilling"
  "lt_filled LtTag" "lt_filled LtCheckFrozen" "lt_filled LtCheckRef" "lt_filled (LtDone b)"
  "\<not> lt_locked LtStart" "lt_locked LtFreezing" "lt_locked LtMarking" "lt_locked LtUnlocking" "\<not> lt_locked LtFilling"
  "\<not> lt_locked LtTag" "\<not> lt_locked LtCheckFrozen" "\<not> lt_locked LtCheckRef" "\<not> lt_locked (LtDone b)"
  "\<not> lt_wakes LtStart" "\<not> lt_wakes LtFreezing" "\<not> lt_wakes LtMarking" "lt_wakes LtUnlocking" "\<not> lt_wakes LtFilling"
  "lt_wakes LtTag" "lt_wakes LtCheckFrozen" "lt_wakes LtCheckRef" "lt_wakes (LtDone b) = b"
  by (simp_all add: lt_filled_def lt_locked_def lt_wakes_def)

definition ls_holder :: "lt_state \<Rightarrow> lt_pc" where
  "ls_holder s = (case ls_lock s of None \<Rightarrow> LtStart | Some t \<Rightarrow> ls_pc s t)"

definition lc_sum :: "lt_conf \<Rightarrow> (nat \<Rightarrow> bool) \<Rightarrow> int" where
  "lc_sum c P = (\<Sum>t<lc_n c. if P t then lc_sizes c ! t else 0)"

definition lt_inv_lock :: "lt_conf \<Rightarrow> lt_state \<Rightarrow> bool" where
  "lt_inv_lock c s \<longleftrightarrow> (\<forall>t. lt_locked (ls_pc s t) \<longleftrightarrow> ls_lock s = Some t) \<and> (\<forall>t. 0 < t \<longrightarrow> t < lc_n c \<longrightarrow> \<not> lt_locked (ls_pc s t))
     \<and> (\<forall>t. ls_pc s t = LtFilling \<longrightarrow> t < lc_n c)"

definition end_ok :: "lt_conf \<Rightarrow> LSN \<Rightarrow> bool" where "end_ok c e \<longleftrightarrow> (lsn_is_valid e \<longrightarrow> e = lc_end c)"

lemma end_ok_end [simp]: "end_ok c (lc_end c)"
  by (simp add: end_ok_def)

definition settled :: "bool \<Rightarrow> LSN \<Rightarrow> lt_pc \<Rightarrow> bool \<Rightarrow> bool" where
  "settled started e h frozen \<longleftrightarrow> (started \<and> lsn_is_valid e \<and> h \<noteq> LtFreezing \<and> h \<noteq> LtMarking \<longrightarrow> frozen)"

lemma settled_simps [simp]:
  "settled st e h True" "settled st e LtFreezing b" "settled st e LtMarking b" "settled False e h b"
  "settled st e LtUnlocking b = settled st e LtStart b" "\<not> lsn_is_valid e \<Longrightarrow> settled st e h b"
  by (simp_all add: settled_def)

definition lt_core :: "lt_conf \<Rightarrow> LogTask \<Rightarrow> nat option \<Rightarrow> lt_pc \<Rightarrow> bool \<Rightarrow> int \<Rightarrow> int \<Rightarrow> bool" where
  "lt_core c k lock h started filled announced \<longleftrightarrow> (let e = th_end_lsn (lt_header k) in
     (lt_is_valid k \<longleftrightarrow> started)
   \<and> (started \<longrightarrow> th_begin_lsn (lt_header k) = lc_begin c)
   \<and> end_ok c e
   \<and> (h = LtFreezing \<or> h = LtMarking \<longrightarrow> started \<and> (lock = Some 0 \<longrightarrow> lsn_is_valid e))
   \<and> (h = LtMarking \<longrightarrow> \<not> lt_is_freezed k)
   \<and> (lt_is_freezed k \<longrightarrow> started \<and> lsn_is_valid e)
   \<and> lt_ref_cnt k = filled - (if lt_is_freezed k \<or> h = LtMarking then lc_total c else 0)
   \<and> th_data_len (lt_header k) = announced
   \<and> settled started e h (lt_is_freezed k))"

definition lt_inv_core :: "lt_conf \<Rightarrow> lt_state \<Rightarrow> bool" where
  "lt_inv_core c s \<longleftrightarrow> lt_core c (ls_task s) (ls_lock s) (ls_holder s) (ls_pc s 0 \<noteq> LtStart)
     (lc_sum c (\<lambda>t. lt_filled (ls_pc s t))) (lc_sum c (\<lambda>t. ls_pc s t \<noteq> LtStart))"

definition lt_inv_wait :: "lt_conf \<Rightarrow> lt_state \<Rightarrow> bool" where
  "lt_inv_wait c s \<longleftrightarrow>
     (\<forall>t. lc_n c \<le> t \<longrightarrow> lc_prev c t \<longrightarrow> ls_pc s t \<noteq> LtStart \<longrightarrow> ls_pc s t \<noteq> LtFreezing \<longrightarrow> ls_pc s t \<noteq> LtMarking
        \<longrightarrow> lsn_is_valid (th_end_lsn (lt_header (ls_task s))))
   \<and> (lt_is_freezed (ls_task s) \<longrightarrow> (\<forall>t<lc_n c. lt_filled (ls_pc s t)) \<longrightarrow> (\<exists>t. lt_wakes (ls_pc s t)))"

lemma lc_sum_upd:
  assumes "t < lc_n c" "\<not> P t" "\<And>u. u \<noteq> t \<Longrightarrow> Q u = P u" "Q t"
  shows "lc_sum c Q = lc_sum c P + lc_sizes c ! t"
proof -
  have "lc_sum c Q = (\<Sum>u<lc_n c. (if P u then lc_sizes c ! u else 0) + (if u = t then lc_sizes c ! t else 0))"
    unfolding lc_sum_def using assms by (intro sum.cong) auto
  also have "\<dots> = lc_sum c P + lc_sizes c ! t"
    using assms(1) by (simp add: sum.distrib lc_sum_def)
  finally show ?thesis .
qed

lemma lc_sum_cong: "(\<And>u. u < lc_n c \<Longrightarrow> Q u = P u) \<Longrightarrow> lc_sum c Q = lc_sum c P"
  unfolding lc_sum_def by (intro sum.cong) auto

lemma lc_sum_all: "(\<And>u. u < lc_n c \<Longrightarrow> P u) \<Longrightarrow> lc_sum c P = lc_total c"
  by (simp add: lc_sum_def lc_total_def lc_n_def sum_list_sum_nth atLeast0LessThan)

lemma conf_end:
  assumes "conf_ok c"
  shows "lsn_is_valid (lc_end c)" "lsn_lt (lc_begin c) (lc_end c)"
    "sint (lsn_diff (lc_end c) (lc_begin c)) = LGH_HEADER_SER_SIZE + lc_total c"
proof -
  have pos: "0 < lc_total c"
  proof -
    obtain z zs where zs: "lc_sizes c = z # zs" using assms by (auto simp: conf_ok_def neq_Nil_conv)
    moreover have "0 \<le> sum_list zs" using assms zs by (auto simp: conf_ok_def list_all_iff intro!: sum_list_nonneg)
    ultimately show ?thesis using assms by (simp add: conf_ok_def lc_total_def)
  qed
  have b: "off (lc_begin c) + 48 + lc_total c < 2 ^ 62" using assms by (simp add: conf_ok_def off_def)
  have e: "off (lc_end c) = off (lc_begin c) + (48 + lc_total c)"
    unfolding lc_end_def LGH_HEADER_SER_SIZE_def using b pos by (intro off_add) auto
  show "lsn_is_valid (lc_end c)" using b e pos off_nonneg [of "lc_begin c"] by (intro off_valid) simp
  show "lsn_lt (lc_begin c) (lc_end c)" using e pos by (simp add: off_less)
  show "sint (lsn_diff (lc_end c) (lc_begin c)) = LGH_HEADER_SER_SIZE + lc_total c"
    using off_diff [of "lc_begin c" "lc_end c"] e b pos by (simp add: LGH_HEADER_SER_SIZE_def)
qed

lemma ls_to_simps [simp]:
  "ls_task (ls_to t p k s) = k" "ls_lock (ls_to t p k s) = ls_lock s" "ls_pc (ls_to t p k s) = (ls_pc s)(t := p)"
  by (simp_all add: ls_to_def)

lemma ls_holder_to: "ls_holder (ls_to t p k s) = (if ls_lock s = Some t then p else ls_holder s)"
  by (auto simp: ls_holder_def split: option.splits)

lemma lt_lockD:
  assumes "lt_inv_lock c s"
  shows "lt_locked (ls_pc s t) \<longleftrightarrow> ls_lock s = Some t" "ls_lock s = None \<Longrightarrow> ls_holder s = LtStart"
    "ls_lock s = Some t \<Longrightarrow> ls_holder s = ls_pc s t"
    "0 < t \<Longrightarrow> t < lc_n c \<Longrightarrow> ls_lock s \<noteq> Some t" "ls_pc s t = LtFilling \<Longrightarrow> t < lc_n c"
  using assms by (auto simp: lt_inv_lock_def ls_holder_def)

lemma lt_lock_unlocked:
  assumes "lt_inv_lock c s" "\<not> lt_locked (ls_pc s t)" "\<not> lt_locked p" "p = LtFilling \<Longrightarrow> t < lc_n c"
  shows "lt_inv_lock c (ls_to t p k s)" "ls_holder (ls_to t p k s) = ls_holder s" "ls_lock s \<noteq> Some t"
  using assms lt_lockD(1) [OF assms(1), of t] by (auto simp: lt_inv_lock_def ls_holder_to)

lemma lt_lock_held:
  assumes "lt_inv_lock c s" "ls_lock s = Some t" "lt_locked p"
  shows "lt_inv_lock c (ls_to t p k s)" "ls_holder (ls_to t p k s) = p"
  using assms lt_lockD(1) [OF assms(1)] by (auto simp: lt_inv_lock_def ls_holder_to)

definition lt_inv :: "lt_conf \<Rightarrow> lt_state \<Rightarrow> bool" where
  "lt_inv c s \<longleftrightarrow> lt_inv_lock c s \<and> lt_inv_core c s \<and> lt_inv_wait c s"

lemma lt_inv_start: "lt_inv c ls_start"
proof -
  have f: "\<not> lt_is_valid lt_reset" "\<not> lt_is_freezed lt_reset"
    by (simp_all add: lt_is_valid_def lt_is_freezed_def lt_test_bit_def lt_reset_def bm_test_map_def bm_reset_all_def)
  have e: "\<not> lsn_is_valid (th_end_lsn (lt_header lt_reset))"
    by (simp add: lt_reset_def th_reset_def lsn_reset_def lsn_is_valid_def)
  show ?thesis
    using f e by (simp add: lt_inv_def end_ok_def settled_def lt_inv_lock_def lt_inv_core_def lt_core_def lt_inv_wait_def ls_start_def ls_holder_def lc_sum_def)
      (simp add: lt_reset_def th_reset_def)
qed

lemma lt_wait_step:
  assumes i: "lt_inv_wait c s" and pc: "ls_pc s' = (ls_pc s)(t := p)"
    and keep: "lsn_is_valid (th_end_lsn (lt_header (ls_task s))) \<Longrightarrow> lsn_is_valid (th_end_lsn (lt_header (ls_task s')))"
    and new: "lc_n c \<le> t \<Longrightarrow> lc_prev c t \<Longrightarrow> p \<noteq> LtStart \<Longrightarrow> p \<noteq> LtFreezing \<Longrightarrow> p \<noteq> LtMarking \<Longrightarrow>
      lsn_is_valid (th_end_lsn (lt_header (ls_task s')))"
    and wake: "lt_is_freezed (ls_task s') \<Longrightarrow> \<forall>u<lc_n c. lt_filled (ls_pc s' u) \<Longrightarrow>
      lt_wakes p \<or> lt_is_freezed (ls_task s) \<and> (\<forall>u<lc_n c. lt_filled (ls_pc s u)) \<and> \<not> lt_wakes (ls_pc s t)"
  shows "lt_inv_wait c s'"
  unfolding lt_inv_wait_def
proof (intro conjI allI impI)
  fix u assume u: "lc_n c \<le> u" "lc_prev c u" "ls_pc s' u \<noteq> LtStart" "ls_pc s' u \<noteq> LtFreezing" "ls_pc s' u \<noteq> LtMarking"
  show "lsn_is_valid (th_end_lsn (lt_header (ls_task s')))"
  proof (cases "u = t")
    case True
    then show ?thesis using u new by (simp add: pc)
  next
    case False
    then show ?thesis using u i keep by (auto simp: pc lt_inv_wait_def)
  qed
next
  assume f: "lt_is_freezed (ls_task s')" "\<forall>u<lc_n c. lt_filled (ls_pc s' u)"
  show "\<exists>u. lt_wakes (ls_pc s' u)"
  proof (cases "lt_wakes p")
    case True
    then show ?thesis by (auto simp: pc intro: exI [of _ t])
  next
    case False
    then have old: "lt_is_freezed (ls_task s)" "\<forall>u<lc_n c. lt_filled (ls_pc s u)" "\<not> lt_wakes (ls_pc s t)"
      using wake [OF f] by simp_all
    then obtain u where "lt_wakes (ls_pc s u)" using i by (auto simp: lt_inv_wait_def)
    then show ?thesis using old(3) by (auto simp: pc intro!: exI [of _ u])
  qed
qed

lemma lt_coreI:
  assumes "lt_core c (ls_task s) (ls_lock s) h st F N" "ls_holder s = h" "(ls_pc s 0 \<noteq> LtStart) = st"
    "lc_sum c (\<lambda>t. lt_filled (ls_pc s t)) = F" "lc_sum c (\<lambda>t. ls_pc s t \<noteq> LtStart) = N"
  shows "lt_inv_core c s"
  using assms by (simp add: lt_inv_core_def)

lemma lt_core_append:
  "lt_core c k l h st F N \<Longrightarrow> lt_core c (lt_update_data_len z (lt_inc_update_max_scn x k)) l h st F (N + z)"
  by (simp add: lt_core_def Let_def)

lemma lt_core_fill:
  "lt_core c k l h st F N \<Longrightarrow> lt_header k' = lt_header k \<Longrightarrow> lt_is_valid k' = lt_is_valid k \<Longrightarrow>
   lt_is_freezed k' = lt_is_freezed k \<Longrightarrow> lt_ref_cnt k' = lt_ref_cnt k + z \<Longrightarrow> lt_core c k' l h st (F + z) N"
  by (simp add: lt_core_def Let_def)

lemma lt_core_unlock: "lt_core c k l LtUnlocking st F N \<Longrightarrow> lt_core c k None LtStart st F N"
  by (simp add: lt_core_def Let_def)

lemma lt_core_mark:
  "lt_core c k l LtMarking st F N \<Longrightarrow> lsn_is_valid (lc_end c) \<Longrightarrow> lt_core c (lt_freeze_mark (lc_end c) k) l LtUnlocking st F N"
  by (simp add: lt_core_def Let_def)

lemma lt_core_freeze:
  "lt_core c k l LtFreezing st F N \<Longrightarrow> \<not> lt_is_freezed k \<Longrightarrow>
   sint (lsn_diff (lc_end c) (lc_begin c)) = LGH_HEADER_SER_SIZE + lc_total c \<Longrightarrow>
   lt_core c (lt_freeze_ref (lc_end c) k) l LtMarking st F N"
  by (simp add: lt_core_def Let_def)

lemma lt_core_frozen: "lt_core c k l LtFreezing st F N \<Longrightarrow> lt_is_freezed k \<Longrightarrow> lt_core c k l LtUnlocking st F N"
  by (simp add: lt_core_def Let_def)

text \<open>A step that leaves the bits, the header and the count alone changes only its own program point.\<close>

definition lt_same :: "LogTask \<Rightarrow> LogTask \<Rightarrow> bool" where
  "lt_same k' k \<longleftrightarrow> lt_header k' = lt_header k \<and> lt_is_valid k' = lt_is_valid k \<and> lt_is_freezed k' = lt_is_freezed k
     \<and> lt_ref_cnt k' = lt_ref_cnt k"

lemma lt_same_ops [simp]:
  "lt_same k k" "lt_same (lt_set_freeze_ts ts k) k" "lt_same (snd (lt_set_submit_log_exist k)) k"
  by (simp_all add: lt_same_def)

lemma lt_inv_check:
  assumes inv: "lt_inv c s" and f: "lt_filled (ls_pc s t)" "lt_filled p" and k: "lt_same k (ls_task s)"
    and w: "lt_is_freezed (ls_task s) \<Longrightarrow> (\<forall>u<lc_n c. lt_filled (ls_pc s u)) \<Longrightarrow> lt_wakes (ls_pc s t) \<Longrightarrow> lt_wakes p"
  shows "lt_inv c (ls_to t p k s)" (is "lt_inv c ?s")
proof -
  have i: "lt_inv_lock c s" "lt_inv_core c s" "lt_inv_wait c s" using inv by (simp_all add: lt_inv_def)
  have k': "lt_header k = lt_header (ls_task s)" "lt_is_valid k = lt_is_valid (ls_task s)"
    "lt_is_freezed k = lt_is_freezed (ls_task s)" "lt_ref_cnt k = lt_ref_cnt (ls_task s) + 0"
    using k by (simp_all add: lt_same_def)
  have ul: "\<not> lt_locked (ls_pc s t)" "\<not> lt_locked p" "ls_pc s t \<noteq> LtStart" "p \<noteq> LtStart" "p = LtFilling \<Longrightarrow> t < lc_n c"
    using f by (cases "ls_pc s t"; cases p; auto)+
  have l: "lt_inv_lock c ?s" "ls_holder ?s = ls_holder s"
    using lt_lock_unlocked [OF i(1) ul(1,2)] ul(5) by blast+
  have fl: "lc_sum c (\<lambda>u. lt_filled (ls_pc ?s u)) = lc_sum c (\<lambda>u. lt_filled (ls_pc s u)) + 0"
    using lc_sum_cong [of c "\<lambda>u. lt_filled (ls_pc ?s u)" "\<lambda>u. lt_filled (ls_pc s u)"] f by simp
  have ns: "lc_sum c (\<lambda>u. ls_pc ?s u \<noteq> LtStart) = lc_sum c (\<lambda>u. ls_pc s u \<noteq> LtStart)"
    by (rule lc_sum_cong) (use ul in auto)
  have "lt_inv_core c ?s"
    by (rule lt_coreI [OF _ l(2) _ fl ns])
      (use lt_core_fill [OF i(2) [unfolded lt_inv_core_def] k'] ul in auto)
  moreover have "lt_inv_wait c ?s"
  proof (rule lt_wait_step [OF i(3), of _ t p])
    show "lsn_is_valid (th_end_lsn (lt_header (ls_task ?s)))" if "lc_n c \<le> t" "lc_prev c t"
      using that i(3) f k' by (cases "ls_pc s t") (auto simp: lt_inv_wait_def)
    assume a: "lt_is_freezed (ls_task ?s)" "\<forall>u<lc_n c. lt_filled (ls_pc ?s u)"
    have "lt_filled (ls_pc s u)" if "u < lc_n c" for u using a(2) that f by (cases "u = t") auto
    then show "lt_wakes p \<or> lt_is_freezed (ls_task s) \<and> (\<forall>u<lc_n c. lt_filled (ls_pc s u)) \<and> \<not> lt_wakes (ls_pc s t)"
      using a k' w by auto
  qed (simp_all add: k')
  ultimately show ?thesis using l(1) by (simp add: lt_inv_def)
qed

lemma lt_inv_append:
  assumes inv: "lt_inv c s" and t: "ls_pc s t = LtStart" "0 < t" "t < lc_n c"
  shows "lt_inv c (ls_to t LtFilling (lt_update_data_len (lc_sizes c ! t) (lt_inc_update_max_scn x (ls_task s))) s)"
    (is "lt_inv c ?s")
proof -
  have i: "lt_inv_lock c s" "lt_inv_core c s" "lt_inv_wait c s" using inv by (simp_all add: lt_inv_def)
  have l: "lt_inv_lock c ?s" "ls_holder ?s = ls_holder s"
    using lt_lock_unlocked [OF i(1), of t LtFilling] t by simp_all
  have fl: "lc_sum c (\<lambda>u. lt_filled (ls_pc ?s u)) = lc_sum c (\<lambda>u. lt_filled (ls_pc s u))"
    by (rule lc_sum_cong) (use t(1) in auto)
  have ns: "lc_sum c (\<lambda>u. ls_pc ?s u \<noteq> LtStart) = lc_sum c (\<lambda>u. ls_pc s u \<noteq> LtStart) + lc_sizes c ! t"
    by (rule lc_sum_upd) (use t in auto)
  have "lt_inv_core c ?s"
    by (rule lt_coreI [OF _ l(2) _ fl ns])
      (use lt_core_append [OF i(2) [unfolded lt_inv_core_def]] t(2) in auto)
  moreover have "lt_inv_wait c ?s"
    by (rule lt_wait_step [OF i(3), of _ t LtFilling]) (use t in auto)
  ultimately show ?thesis using l(1) by (simp add: lt_inv_def)
qed

lemma lt_inv_fill:
  assumes inv: "lt_inv c s" and t: "ls_pc s t = LtFilling" and p: "lt_filled p" "lt_wakes p"
    and k: "lt_header k = lt_header (ls_task s)" "lt_is_valid k = lt_is_valid (ls_task s)"
      "lt_is_freezed k = lt_is_freezed (ls_task s)" "lt_ref_cnt k = lt_ref_cnt (ls_task s) + lc_sizes c ! t"
  shows "lt_inv c (ls_to t p k s)" (is "lt_inv c ?s")
proof -
  have i: "lt_inv_lock c s" "lt_inv_core c s" "lt_inv_wait c s" using inv by (simp_all add: lt_inv_def)
  have p': "\<not> lt_locked p" "p \<noteq> LtStart" "p \<noteq> LtFilling" using p(1) by (cases p; simp)+
  have n: "t < lc_n c" using lt_lockD(5) [OF i(1)] t by simp
  have l: "lt_inv_lock c ?s" "ls_holder ?s = ls_holder s"
    using lt_lock_unlocked [OF i(1), of t p] t p' by simp_all
  have ns: "lc_sum c (\<lambda>u. ls_pc ?s u \<noteq> LtStart) = lc_sum c (\<lambda>u. ls_pc s u \<noteq> LtStart)"
    by (rule lc_sum_cong) (use t p' in auto)
  have fl: "lc_sum c (\<lambda>u. lt_filled (ls_pc ?s u)) = lc_sum c (\<lambda>u. lt_filled (ls_pc s u)) + lc_sizes c ! t"
    by (rule lc_sum_upd) (use t n p in auto)
  have "lt_inv_core c ?s"
    by (rule lt_coreI [OF _ l(2) _ fl ns])
      (use lt_core_fill [OF i(2) [unfolded lt_inv_core_def] k] t p' in auto)
  moreover have "lt_inv_wait c ?s"
    by (rule lt_wait_step [OF i(3), of _ t p]) (use t n k p in auto)
  ultimately show ?thesis using l(1) by (simp add: lt_inv_def)
qed

lemma lt_inv_unlock:
  assumes inv: "lt_inv c s" and t: "ls_pc s t = LtUnlocking"
  shows "lt_inv c (ls_to t (if t < lc_n c then LtFilling else LtCheckFrozen) (ls_task s) (s \<lparr> ls_lock := None \<rparr>))"
    (is "lt_inv c ?s")
proof -
  have i: "lt_inv_lock c s" "lt_inv_core c s" "lt_inv_wait c s" using inv by (simp_all add: lt_inv_def)
  have h: "ls_lock s = Some t" using lt_lockD(1) [OF i(1), of t] t by simp
  have l: "lt_inv_lock c ?s" using i(1) h by (auto simp: lt_inv_lock_def)
  have ho: "ls_holder ?s = LtStart" "ls_holder s = LtUnlocking" using h t by (simp_all add: ls_holder_def)
  have ns: "lc_sum c (\<lambda>u. ls_pc ?s u \<noteq> LtStart) = lc_sum c (\<lambda>u. ls_pc s u \<noteq> LtStart)"
    by (rule lc_sum_cong) (use t(1) in auto)
  have fl: "lc_sum c (\<lambda>u. lt_filled (ls_pc ?s u)) = lc_sum c (\<lambda>u. lt_filled (ls_pc s u))"
    by (rule lc_sum_cong) (use t in auto)
  have "lt_inv_core c ?s"
    by (rule lt_coreI [OF _ ho(1) _ fl ns])
      (use lt_core_unlock [OF i(2) [unfolded lt_inv_core_def ho(2)]] t in auto)
  moreover have "lt_inv_wait c ?s"
    by (rule lt_wait_step [OF i(3), of _ t "if t < lc_n c then LtFilling else LtCheckFrozen"])
      (use t i(3) in \<open>auto simp: lt_inv_wait_def\<close>)
  ultimately show ?thesis using l by (simp add: lt_inv_def)
qed

lemma lt_inv_mark:
  assumes inv: "lt_inv c s" and ok: "conf_ok c" and t: "ls_pc s t = LtMarking"
    and e: "e = (if t = 0 then th_end_lsn (lt_header (ls_task s)) else lc_end c)"
  shows "lt_inv c (ls_to t LtUnlocking (lt_freeze_mark e (ls_task s)) s)" (is "lt_inv c ?s")
proof -
  have i: "lt_inv_lock c s" "lt_inv_core c s" "lt_inv_wait c s" using inv by (simp_all add: lt_inv_def)
  have h: "ls_lock s = Some t" using lt_lockD(1) [OF i(1), of t] t by simp
  have l: "lt_inv_lock c ?s" "ls_holder ?s = LtUnlocking" using lt_lock_held [OF i(1) h, of LtUnlocking] by simp_all
  have ho: "ls_holder s = LtMarking" using h t by (simp add: ls_holder_def)
  have e': "e = lc_end c" using i(2) h ho e unfolding lt_inv_core_def lt_core_def Let_def by (auto simp: end_ok_def)
  have ns: "lc_sum c (\<lambda>u. ls_pc ?s u \<noteq> LtStart) = lc_sum c (\<lambda>u. ls_pc s u \<noteq> LtStart)"
    by (rule lc_sum_cong) (use t(1) in auto)
  have fl: "lc_sum c (\<lambda>u. lt_filled (ls_pc ?s u)) = lc_sum c (\<lambda>u. lt_filled (ls_pc s u))"
    by (rule lc_sum_cong) (use t(1) in auto)
  have "lt_inv_core c ?s"
    by (rule lt_coreI [OF _ l(2) _ fl ns])
      (use lt_core_mark [OF i(2) [unfolded lt_inv_core_def ho] conf_end(1) [OF ok]] t e' in auto)
  moreover have "lt_inv_wait c ?s"
    by (rule lt_wait_step [OF i(3), of _ t LtUnlocking]) (use e' conf_end(1) [OF ok] in auto)
  ultimately show ?thesis using l by (simp add: lt_inv_def)
qed

lemma lt_inv_freeze:
  assumes inv: "lt_inv c s" and ok: "conf_ok c" and t: "ls_pc s t = LtFreezing"
    and e: "e = (if t = 0 then th_end_lsn (lt_header (ls_task s)) else lc_end c)"
    and s': "s' = (if lt_is_freezed (ls_task s) \<or> lt_freeze_guard e (ls_task s) \<noteq> OB_SUCCESS then ls_to t LtUnlocking (ls_task s) s
      else ls_to t LtMarking (lt_freeze_ref e (ls_task s)) s)"
  shows "lt_inv c s'"
proof -
  have i: "lt_inv_lock c s" "lt_inv_core c s" "lt_inv_wait c s" using inv by (simp_all add: lt_inv_def)
  have h: "ls_lock s = Some t" using lt_lockD(1) [OF i(1), of t] t by simp
  have ho: "ls_holder s = LtFreezing" using h t by (simp add: ls_holder_def)
  have v: "lt_is_valid (ls_task s)" "th_begin_lsn (lt_header (ls_task s)) = lc_begin c" and e': "e = lc_end c"
    using i(2) h ho e unfolding lt_inv_core_def lt_core_def Let_def by (auto simp: end_ok_def)
  have g: "lt_freeze_guard e (ls_task s) = OB_SUCCESS"
    using conf_end(1,2) [OF ok] v e' by (auto simp: lt_freeze_guard_def)
  let ?p = "if lt_is_freezed (ls_task s) then LtUnlocking else LtMarking"
  let ?k = "if lt_is_freezed (ls_task s) then ls_task s else lt_freeze_ref e (ls_task s)"
  have s2: "s' = ls_to t ?p ?k s" using s' g by simp
  have l: "lt_inv_lock c s'" "ls_holder s' = ?p" using lt_lock_held [OF i(1) h, of ?p ?k] by (auto simp: s2 split: if_splits)
  have ns: "lc_sum c (\<lambda>u. ls_pc s' u \<noteq> LtStart) = lc_sum c (\<lambda>u. ls_pc s u \<noteq> LtStart)"
    by (rule lc_sum_cong) (use t(1) in \<open>auto simp: s2\<close>)
  have fl: "lc_sum c (\<lambda>u. lt_filled (ls_pc s' u)) = lc_sum c (\<lambda>u. lt_filled (ls_pc s u))"
    by (rule lc_sum_cong) (use t(1) in \<open>auto simp: s2\<close>)
  have tk: "ls_task s' = ?k" "ls_pc s' 0 \<noteq> LtStart" "ls_lock s' = ls_lock s"
    using i(2) v t unfolding lt_inv_core_def lt_core_def Let_def by (auto simp: s2)
  have st: "ls_pc s 0 \<noteq> LtStart" using i(2) v(1) by (simp add: lt_inv_core_def lt_core_def Let_def)
  have "lt_inv_core c s'"
    by (rule lt_coreI [OF _ l(2) _ fl ns])
      (use lt_core_freeze [OF i(2) [unfolded lt_inv_core_def ho] _ conf_end(3) [OF ok]]
        lt_core_frozen [OF i(2) [unfolded lt_inv_core_def ho]] tk st e' in auto)
  moreover have "lt_inv_wait c s'"
    by (rule lt_wait_step [OF i(3), of _ t ?p]) (use i(2) in \<open>auto simp: s2 lt_inv_core_def lt_core_def Let_def split: if_splits\<close>)
  ultimately show ?thesis using l by (simp add: lt_inv_def)
qed

text \<open>Taking the lock.\<close>

lemma lt_core_lock:
  assumes "lt_core c k None LtStart st F N" "0 < t" "h = LtUnlocking \<or> h = LtFreezing \<and> st"
  shows "lt_core c k (Some t) h st F N"
  using assms by (auto simp: lt_core_def Let_def)

lemma lt_core_set_end:
  assumes "lt_core c k None LtStart st F N" "\<not> lt_is_valid k" "lsn_is_valid (lc_end c)"
  shows "lt_core c (lt_set_end_lsn (lc_end c) k) (Some t) LtUnlocking st F N"
  using assms by (auto simp: lt_core_def Let_def)

lemma lt_core_initial:
  assumes "lt_core c k None LtStart False F N" "lt_set_initial_header_info now (lc_info c) k = (r, k1)"
    "h = (if lsn_is_valid (th_end_lsn (lt_header k1)) then LtFreezing else LtUnlocking)"
  shows "lt_core c k1 l h True F (N + lc_sizes c ! 0)"
proof -
  have v: "\<not> lt_is_valid k" "\<not> lt_is_freezed k" using assms(1) by (auto simp: lt_core_def Let_def)
  note f = lt_initial [OF assms(2) v(1)]
  show ?thesis
    using assms(1,3) v f by (auto simp: lt_core_def Let_def lc_info_def)
qed

lemma lt_lock_taken:
  assumes "lt_inv_lock c s" "ls_lock s = None" "lt_locked p" "\<not> (0 < t \<and> t < lc_n c)"
  shows "lt_inv_lock c (ls_to t p k (s \<lparr> ls_lock := Some t \<rparr>))" "ls_holder (ls_to t p k (s \<lparr> ls_lock := Some t \<rparr>)) = p"
  using assms by (auto simp: lt_inv_lock_def ls_holder_def)

lemma lt_inv_take:
  assumes inv: "lt_inv c s" and t: "ls_pc s t = LtStart" "\<not> (0 < t \<and> t < lc_n c)" "ls_lock s = None"
    and p: "p = LtUnlocking \<or> p = LtFreezing"
    and core: "lt_core c k (Some t) p (t = 0 \<or> ls_pc s 0 \<noteq> LtStart) (lc_sum c (\<lambda>u. lt_filled (ls_pc s u)))
      (lc_sum c (\<lambda>u. ls_pc s u \<noteq> LtStart) + (if t = 0 \<and> 0 < lc_n c then lc_sizes c ! 0 else 0))"
    and e: "lsn_is_valid (th_end_lsn (lt_header (ls_task s))) \<Longrightarrow> lsn_is_valid (th_end_lsn (lt_header k))"
    and new: "lc_n c \<le> t \<Longrightarrow> lc_prev c t \<Longrightarrow> p = LtUnlocking \<Longrightarrow> lsn_is_valid (th_end_lsn (lt_header k))"
    and fr: "lt_is_freezed k = lt_is_freezed (ls_task s)"
  shows "lt_inv c (ls_to t p k (s \<lparr> ls_lock := Some t \<rparr>))" (is "lt_inv c ?s")
proof -
  have i: "lt_inv_lock c s" "lt_inv_core c s" "lt_inv_wait c s" using inv by (simp_all add: lt_inv_def)
  have p': "lt_locked p" "p \<noteq> LtStart" "\<not> lt_filled p" using p by auto
  note l = lt_lock_taken [OF i(1) t(3) p'(1) t(2), of k]
  have fl: "lc_sum c (\<lambda>u. lt_filled (ls_pc ?s u)) = lc_sum c (\<lambda>u. lt_filled (ls_pc s u))"
    by (rule lc_sum_cong) (use t(1) p' in auto)
  have ns: "lc_sum c (\<lambda>u. ls_pc ?s u \<noteq> LtStart) =
      lc_sum c (\<lambda>u. ls_pc s u \<noteq> LtStart) + (if t = 0 \<and> 0 < lc_n c then lc_sizes c ! 0 else 0)"
  proof (cases "t = 0 \<and> 0 < lc_n c")
    case True
    have "lc_sum c (\<lambda>u. ls_pc ?s u \<noteq> LtStart) = lc_sum c (\<lambda>u. ls_pc s u \<noteq> LtStart) + lc_sizes c ! t"
      by (rule lc_sum_upd) (use True t p' in auto)
    then show ?thesis using True by simp
  next
    case False
    have "lc_sum c (\<lambda>u. ls_pc ?s u \<noteq> LtStart) = lc_sum c (\<lambda>u. ls_pc s u \<noteq> LtStart)"
      by (rule lc_sum_cong) (use False t(2) in auto)
    then show ?thesis using False by (simp only: if_False add_0_right)
  qed
  have "lt_inv_core c ?s"
    by (rule lt_coreI [OF _ l(2) _ fl ns]) (use core p' in auto)
  moreover have "lt_inv_wait c ?s"
  proof (rule lt_wait_step [OF i(3), of _ t p])
    assume a: "lt_is_freezed (ls_task ?s)" "\<forall>u<lc_n c. lt_filled (ls_pc ?s u)"
    have "lt_filled (ls_pc s u)" if "u < lc_n c" for u
      using a(2) that p'(3) by (cases "u = t") (auto dest: spec [of _ u])
    then show "lt_wakes p \<or> lt_is_freezed (ls_task s) \<and> (\<forall>u<lc_n c. lt_filled (ls_pc s u)) \<and> \<not> lt_wakes (ls_pc s t)"
      using a(1) fr t(1) by simp
  qed (use p e new in auto)
  ultimately show ?thesis using l(1) by (simp add: lt_inv_def)
qed

lemma lt_inv_enter:
  assumes inv: "lt_inv c s" and ok: "conf_ok c" and t: "ls_pc s t = LtStart" "\<not> (0 < t \<and> t < lc_n c)" "ls_lock s = None"
  shows "lt_inv c (ls_enter c t s)"
proof -
  have i: "lt_inv_lock c s" "lt_inv_core c s" using inv by (simp_all add: lt_inv_def)
  have n: "0 < lc_n c" using ok by (simp add: conf_ok_def lc_n_def)
  have core: "lt_core c (ls_task s) None LtStart (ls_pc s 0 \<noteq> LtStart) (lc_sum c (\<lambda>u. lt_filled (ls_pc s u)))
      (lc_sum c (\<lambda>u. ls_pc s u \<noteq> LtStart))"
    using i(2) lt_lockD(2) [OF i(1) t(3)] t(3) by (simp add: lt_inv_core_def)
  have st: "lt_is_valid (ls_task s) \<longleftrightarrow> ls_pc s 0 \<noteq> LtStart" using core by (simp add: lt_core_def Let_def)
  show ?thesis
  proof (cases "t = 0")
    case True
    obtain r k1 where k1: "lt_set_initial_header_info (lc_clock c 0) (lc_info c) (ls_task s) = (r, k1)" by fastforce
    have v: "\<not> lt_is_valid (ls_task s)" using st t(1) True by simp
    note f = lt_initial [OF k1 v]
    let ?p = "if lsn_is_valid (th_end_lsn (lt_header k1)) then LtFreezing else LtUnlocking"
    have "lt_inv c (ls_to t ?p k1 (s \<lparr> ls_lock := Some t \<rparr>))"
      by (rule lt_inv_take [OF inv t]) (use lt_core_initial [OF _ k1 refl] core t(1) True n f in auto)
    then show ?thesis using True k1 f(1) by (simp add: ls_enter_defs Let_def)
  next
    case False
    then have t': "0 < t" "lc_n c \<le> t" using t(2) by auto
    show ?thesis
    proof (cases "lc_prev c t \<and> \<not> lt_is_valid (ls_task s)")
      case True
      have "lt_inv c (ls_to t LtUnlocking (lt_set_end_lsn (lc_end c) (ls_task s)) (s \<lparr> ls_lock := Some t \<rparr>))"
        by (rule lt_inv_take [OF inv t]) (use lt_core_set_end [OF core] True conf_end(1) [OF ok] t' in auto)
      then show ?thesis using True False by (simp add: ls_enter_defs Let_def)
    next
      case no: False
      let ?p = "if \<not> lc_prev c t \<and> (\<not> lt_is_valid (ls_task s) \<or> lsn_gt (ls_log_end (ls_task s)) (lc_end c)) then LtUnlocking else LtFreezing"
      have "lt_inv c (ls_to t ?p (ls_task s) (s \<lparr> ls_lock := Some t \<rparr>))"
        by (rule lt_inv_take [OF inv t]) (use lt_core_lock [OF core t'(1)] no st t' in auto)
      moreover have "ls_enter c t s = ls_to t ?p (ls_task s) (s \<lparr> ls_lock := Some t \<rparr>)"
        using no False by (auto simp: ls_enter_defs Let_def)
      ultimately show ?thesis by simp
    qed
  qed
qed

lemma lt_next_inv:
  assumes inv: "lt_inv c s" and ok: "conf_ok c" and step: "lt_next c t s = Some s'"
  shows "lt_inv c s'"
proof (cases "ls_pc s t")
  case LtStart
  then consider "0 < t" "t < lc_n c" | "\<not> (0 < t \<and> t < lc_n c)" "ls_lock s = None"
    using step by (auto simp: lt_next_def Let_def split: if_splits)
  then show ?thesis
    using LtStart step lt_inv_append [OF inv LtStart] lt_inv_enter [OF inv ok LtStart]
    by cases (auto simp: lt_next_def Let_def)
next
  case LtFreezing
  then show ?thesis
    using step lt_inv_freeze [OF inv ok LtFreezing refl refl] by (auto simp: lt_next_def Let_def split: if_splits)
next
  case LtMarking
  then show ?thesis using step lt_inv_mark [OF inv ok LtMarking refl] by (auto simp: lt_next_def Let_def)
next
  case LtUnlocking
  then show ?thesis using step lt_inv_unlock [OF inv LtUnlocking] by (auto simp: lt_next_def Let_def)
next
  case LtFilling
  have "lt_inv c (ls_to t (if t = 0 then LtTag else LtCheckFrozen) (snd (lt_ref (lc_sizes c ! t) True (ls_task s))) s)"
    by (rule lt_inv_fill [OF inv LtFilling]) auto
  then show ?thesis using step LtFilling by (auto simp: lt_next_def Let_def)
next
  case LtTag
  have "lt_inv c (ls_to t LtCheckFrozen (snd (lt_set_submit_log_exist (ls_task s))) s)"
    by (rule lt_inv_check [OF inv]) (use LtTag in auto)
  then show ?thesis using step LtTag by (simp add: lt_next_def Let_def)
next
  case LtCheckFrozen
  have "lt_inv c (ls_to t (if lt_is_freezed (ls_task s) then LtCheckRef else LtDone False) (ls_task s) s)"
    by (rule lt_inv_check [OF inv]) (use LtCheckFrozen in auto)
  then show ?thesis using step LtCheckFrozen by (simp add: lt_next_def Let_def)
next
  case LtCheckRef
  let ?k = "if 0 < t \<and> t < lc_n c then ls_task s else lt_set_freeze_ts (lc_clock c t) (ls_task s)"
  have "lt_inv c (ls_to t (LtDone (0 = lt_ref_cnt (ls_task s))) ?k s)"
  proof (rule lt_inv_check [OF inv])
    assume f: "lt_is_freezed (ls_task s)" "\<forall>u<lc_n c. lt_filled (ls_pc s u)"
    have "lc_sum c (\<lambda>u. lt_filled (ls_pc s u)) = lc_total c" using f(2) by (intro lc_sum_all) simp
    then have "lt_ref_cnt (ls_task s) = 0"
      using inv f(1) by (simp add: lt_inv_def lt_inv_core_def lt_core_def Let_def)
    then show "lt_wakes (LtDone (0 = lt_ref_cnt (ls_task s)))" by simp
  qed (use LtCheckRef in auto)
  then show ?thesis using step LtCheckRef by (simp add: lt_next_def Let_def)
next
  case (LtDone b)
  then show ?thesis using step by (simp add: lt_next_def Let_def)
qed

lemma lt_reach_inv: "lt_reach c s \<Longrightarrow> conf_ok c \<Longrightarrow> lt_inv c s"
  by (induction rule: lt_reach.induct) (auto intro: lt_inv_start lt_next_inv)

subsection \<open>Runs\<close>

lemma lt_run_snoc: "lt_run c (ts @ [t]) = Some s' \<longleftrightarrow> (\<exists>s. lt_run c ts = Some s \<and> lt_next c t s = Some s')"
  by (auto simp: lt_run_def bind_eq_Some_conv)

lemma lt_run_reach: "lt_run c ts = Some s \<Longrightarrow> lt_reach c s"
proof (induction ts arbitrary: s rule: rev_induct)
  case Nil
  then show ?case by (simp add: lt_run_def lt_reach.start)
next
  case (snoc t ts)
  then show ?case by (auto simp: lt_run_snoc intro: lt_reach.step)
qed

lemmas lt_run_inv = lt_reach_inv [OF lt_run_reach]







lemma lt_sum_full:
  assumes "conf_ok c" "lc_sum c P = lc_total c" "t < lc_n c"
  shows "P t"
proof (rule ccontr)
  assume "\<not> P t"
  then have "lc_sum c (P(t := True)) = lc_sum c P + lc_sizes c ! t" by (intro lc_sum_upd) (use assms in auto)
  moreover have "lc_sum c (P(t := True)) \<le> lc_sum c (\<lambda>_. True)"
    unfolding lc_sum_def by (rule sum_mono) (use assms(1) in \<open>auto simp: conf_ok_def list_all_length lc_n_def\<close>)
  moreover have "0 < lc_sizes c ! t" using assms by (auto simp: conf_ok_def list_all_length lc_n_def)
  ultimately show False using assms(2) lc_sum_all [of c "\<lambda>_. True"] by simp
qed

lemma lt_pre_submit_once:
  assumes "lt_try_pre_submit k = (True, k')"
  shows "lt_is_freezed k" "lt_ref_cnt k = 0" "lt_header k' = lt_header k" "\<not> fst (lt_try_pre_submit k')"
proof -
  have k: "lt_is_freezed k" "lt_ref_cnt k = 0" "k' = k \<lparr> lt_state_map := bm_set_map PRE_SUBMIT (lt_state_map k) \<rparr>"
    using assms by (auto simp: lt_try_pre_submit_def lt_test_and_set_def bm_test_and_set_def bm_or_mask split: if_splits)
  have "bm_test_map PRE_SUBMIT (lt_state_map k')" using k(3) bm_test_set(1) [of PRE_SUBMIT PRE_SUBMIT] by (simp add: PRE_SUBMIT_def)
  then have "\<not> fst (lt_test_and_set PRE_SUBMIT k')"
    by (simp add: lt_test_and_set_def bm_test_and_set_def bm_test_map_def)
  then show "lt_is_freezed k" "lt_ref_cnt k = 0" "lt_header k' = lt_header k" "\<not> fst (lt_try_pre_submit k')"
    using k by (auto simp: lt_try_pre_submit_def)
qed

definition lc_example :: lt_conf where
  "lc_example = \<lparr> lc_begin = LSN 4096, lc_log_id = 7, lc_is_padding = False, lc_sizes = [60, 70], lc_scns = [SCN 100, SCN 101],
     lc_prev = \<lambda>_. True, lc_clock = \<lambda>_. 0 \<rparr>"

text \<open>The freezer of the next group comes before the first entry; the group freezes itself and the second entry completes it.\<close>

definition lc_schedule :: "nat list" where
  "lc_schedule = [2, 1, 2, 0, 2, 0, 0, 0, 0, 0, 0, 0, 1, 1, 1]"

lemma lc_example_ok: "conf_ok lc_example"
  by (simp add: conf_ok_def lc_example_def lc_total_def)

lemma lc_example_run:
  obtains s where "lt_run lc_example lc_schedule = Some s" "fst (lt_try_pre_submit (ls_task s))"
    "\<forall>t<3. lt_next lc_example t s = None"
proof -
  have "map_option (\<lambda>s. fst (lt_try_pre_submit (ls_task s)) \<and> list_all (\<lambda>t. lt_next lc_example t s = None) [0, 1, 2])
      (lt_run lc_example lc_schedule) = Some True"
    by code_simp
  then obtain s where "lt_run lc_example lc_schedule = Some s" "fst (lt_try_pre_submit (ls_task s))"
    "list_all (\<lambda>t. lt_next lc_example t s = None) [0, 1, 2]"
    by (auto simp: map_option_eq_Some)
  then show ?thesis by (intro that [of s]) (auto simp: numeral_3_eq_3 numeral_2_eq_2 less_Suc_eq)
qed

text \<open>C9.
  A group is submitted complete and once. Whatever the interleaving of the thread that opens the
  group, the threads that append to it and those that freeze it, \<^verbatim>\<open>try_pre_submit\<close> succeeds only when every
  entry of the group has been copied into the buffer; the begin and the length it then finds in the
  header are those of the whole group, although they are updated without the lock, so that the end
  computed from them is the end the allocator gave the group; and a second call fails.
\<close>

theorem lt_submit_complete:
  assumes "conf_ok c" "lt_run c ts = Some s" "lt_try_pre_submit (ls_task s) = (True, k)"
  shows "(\<forall>t<lc_n c. lt_filled (ls_pc s t)) \<and> th_begin_lsn (lt_header k) = lc_begin c
    \<and> th_data_len (lt_header k) = lc_total c \<and> ls_log_end k = lc_end c \<and> \<not> fst (lt_try_pre_submit k)"
proof -
  note f = lt_pre_submit_once [OF assms(3)]
  have core: "lt_core c (ls_task s) (ls_lock s) (ls_holder s) (ls_pc s 0 \<noteq> LtStart)
     (lc_sum c (\<lambda>t. lt_filled (ls_pc s t))) (lc_sum c (\<lambda>t. ls_pc s t \<noteq> LtStart))"
    using lt_run_inv [OF assms(2,1)] by (simp add: lt_inv_def lt_inv_core_def)
  have "lc_sum c (\<lambda>t. lt_filled (ls_pc s t)) = lc_total c" using core f(1,2) by (simp add: lt_core_def Let_def)
  then have full: "lt_filled (ls_pc s t)" if "t < lc_n c" for t using lt_sum_full [OF assms(1)] that by blast
  then have "lc_sum c (\<lambda>t. ls_pc s t \<noteq> LtStart) = lc_total c"
    by (intro lc_sum_all) (metis lt_pc_simps(1))
  then have h: "th_begin_lsn (lt_header k) = lc_begin c" "th_data_len (lt_header k) = lc_total c"
    using core f(1,3) by (auto simp: lt_core_def Let_def)
  have "lsn_add (lsn_add l m) n = lsn_add l (m + n)" for l m n by (simp add: lsn_add_def lsn_plus_def add.assoc)
  then show ?thesis using full h f(4) by (simp add: ls_log_end_def lc_end_def)
qed

theorem lt_submit_complete_witness:
  "\<exists>s k. lt_run lc_example lc_schedule = Some s \<and> lt_try_pre_submit (ls_task s) = (True, k)
    \<and> lt_filled (ls_pc s 1) \<and> th_data_len (lt_header k) = 130 \<and> ls_log_end k = LSN 4274"
proof -
  obtain s where s: "lt_run lc_example lc_schedule = Some s" "fst (lt_try_pre_submit (ls_task s))" by (rule lc_example_run)
  obtain k where k: "lt_try_pre_submit (ls_task s) = (True, k)" using s(2) by (cases "lt_try_pre_submit (ls_task s)") simp
  have "lc_n lc_example = 2" "lc_total lc_example = 130" "lc_end lc_example = LSN 4274" by code_simp+
  then show ?thesis using s(1) k lt_submit_complete [OF lc_example_ok s(1) k] by auto
qed








end
