(* ===== verification/Spec2Isabelle.thy ===== *)
theory Spec2Isabelle
  imports Palf_Allocator Palf_Checksum Palf_Group_Buffer_Conc Palf_Sliding_Window_Conc Palf_Group_Entry
    Ob_Thread_Lease Palf_Log_Task
begin

text \<open>
  \<^bold>\<open>Verification of the write-ahead log of seekdb.\<close>

  The write-ahead log (\<^verbatim>\<open>logservice/palf\<close>) is the part of the server on which durability rests. A
  client hands a log entry to the log; the LSN allocator gives it a position and a system change
  number and decides whether it opens a new group log; the entry is copied into a ring buffer; when
  the group is frozen its header is generated over the bytes in the ring, which may wrap, and the
  group is written to disk as a list of memory ranges; a sliding window of log tasks tracks which
  groups are on disk and moves forward over those that are; a chain of checksums lets a reader or a
  standby notice any divergence. The development models these parts and the code below them that
  they depend on. Paths are relative to \<^verbatim>\<open>src/src\<close>.

  \<^bold>\<open>Foundations.\<close>
  \<^item> \<open>Ob_Prelude\<close>: return codes, byte buffers with positions (\<open>cbuf\<close>, \<open>load\<close>, \<open>store\<close>), memory images of
    words, and the contracts of encoders and decoders (\<open>enc_exact\<close>, \<open>dec_exact\<close>, \<open>fld_exact\<close>) with the
    collection \<open>codec_intros\<close> from which every serialization lemma is composed.
  \<^item> \<open>Ob_Codec\<close>: the integer codecs of \<^verbatim>\<open>oblib/lib/utility/serialization.h\<close> and the frame of
    version and length of the \<^verbatim>\<open>OB_UNIS\<close> macros (\<^verbatim>\<open>ob_unify_serialize.h\<close>); the locale \<open>wire_codec\<close> is the
    contract that the codecs of LSNs and SCNs are interpreted in.
  \<^item> \<open>Ob_Atomic\<close>: compare-and-swap loops under interference; the locale \<open>cas_order\<close> holds for every
    monotone update and is interpreted for LSNs and SCNs.
  \<^item> \<open>Ob_Thread_Lease\<close>: \<^verbatim>\<open>oblib/lib/thread/ob_thread_lease.h\<close>, by which one of many threads that announce
    work does it; every interleaving of its loads and compare-and-swaps is a run of \<open>lease_next\<close>.
  \<^item> \<open>Ob_Array\<close>: \<^verbatim>\<open>ObSEArray\<close> of \<^verbatim>\<open>oblib/lib/container/ob_array.h\<close> with its inline and allocated storage,
    refined to lists; failing allocation is a parameter of the operations.
  \<^item> \<open>Ob_Crc_Tables\<close>, \<open>Ob_Crc\<close>, \<open>Ob_Checksum\<close>: the CRC routines of \<^verbatim>\<open>oblib/lib/checksum/ob_crc64.cpp\<close> with
    their nine tables, \<^verbatim>\<open>ObBatchChecksum\<close> and the parity checks. The three routines agree, for every
    buffer, alignment and 32-bit seed; they are linear and injective in the seed.
  \<^item> \<open>Ob_Xxhash\<close>: \<^verbatim>\<open>oblib/lib/hash_func/xxhash.c\<close>. The locale \<open>striped\<close> is the contract of a hash that
    consumes stripes; it is interpreted four times, for the stripe and word loops of both widths.

  \<^bold>\<open>Numbers and positions.\<close>
  \<^item> \<open>Palf_Scn\<close>: \<^verbatim>\<open>share/scn.cpp\<close>, a version in two bits and a timestamp in 62.
  \<^item> \<open>Palf_Lsn\<close>: \<^verbatim>\<open>share/log/palf/lsn.cpp\<close> and the constants of \<^verbatim>\<open>log_define.h\<close>.
  \<^item> \<open>Palf_Allocator\<close>: \<^verbatim>\<open>logservice/palf/lsn_allocator.cpp\<close>. The 128-bit word is a record of its fields;
    \<open>alloc_lsn_scn\<close> is the loop of the source, and it refines an abstract tail of the log with unbounded
    numbers, on which \<open>tail_grant\<close> says exactly what the next grant is. Histories of calls tile the log.

  \<^bold>\<open>Buffers.\<close>
  \<^item> \<open>Palf_Write_Buf\<close>: \<^verbatim>\<open>log_writer_utils.cpp\<close>, scatter lists over a byte-addressed memory.
  \<^item> \<open>Palf_Group_Buffer\<close>: \<^verbatim>\<open>log_group_buffer.cpp\<close>, the ring; the locale \<open>extent_source\<close> relates the ranges it
    hands out to the log. \<open>Palf_Group_Buffer_Conc\<close> splits \<open>fill\<close> and \<open>read_data\<close> into the atomic loads,
    tests and byte copies of the source, with any number of writers and one reader.

  \<^bold>\<open>The window.\<close>
  \<^item> \<open>Palf_Sliding_Window\<close>: \<^verbatim>\<open>fixed_sliding_window.h\<close> as sequential operations; \<open>Palf_Sliding_Window_Conc\<close> has
    \<open>get\<close>, \<open>revert\<close> and \<open>slide\<close> as program points of arbitrarily many threads. A call is lapped when the
    window moves once around its array during the call; without lapping the invariant holds, and one
    theorem shows what a lapped \<^verbatim>\<open>revert_\<close> does.

  \<^item> \<open>Palf_Log_Task\<close>: \<^verbatim>\<open>log_task.cpp\<close>, the whole class, and the protocol by which the threads of
    \<^verbatim>\<open>log_sliding_window.cpp\<close> that open, append to and freeze a group share one task, as runs of \<open>lt_next\<close>
    over its atomic accesses. A group is submitted only when complete, every run ends, and somebody is
    told to submit.

  \<^bold>\<open>Entries.\<close>
  \<^item> \<open>Palf_Checksum\<close>: \<^verbatim>\<open>log_checksum.cpp\<close>, the accumulated checksum as an interpretation of the locale
    \<open>seed_chain\<close>.
  \<^item> \<open>Palf_Entry\<close>: \<^verbatim>\<open>log_entry_header.cpp\<close>, \<^verbatim>\<open>log_entry.cpp\<close>, \<^verbatim>\<open>share/log/ob_log_base_header.cpp\<close>.
  \<^item> \<open>Palf_Group_Entry\<close>: \<^verbatim>\<open>log_group_entry_header.cpp\<close>, \<^verbatim>\<open>log_group_entry.cpp\<close>. Its main theorem follows a
    group from the ring of the leader to a reader through all the components above.

  \<^bold>\<open>Conventions.\<close> Machine integers that may wrap are words; positions and lengths that the code keeps
  far from the limits of \<^verbatim>\<open>int64_t\<close> are \<open>int\<close>. A NULL pointer is \<open>None\<close>. Out-parameters are arguments with
  the old value and components of the result. Loops are recursive functions with a termination proof;
  the retry loop of the allocator is a partial function, and its refinement theorem shows that it
  returns. A failed \<^verbatim>\<open>ob_assert\<close> is \<open>None\<close>. Logging is left out.

  \<^bold>\<open>Not modelled.\<close> Everything above the log (SQL, storage engine, root server, front end), the threads
  and system calls of log storage and I/O, the iterators, which are templates over a storage
  interface, the driver \<^verbatim>\<open>log_sliding_window.cpp\<close> that composes the modelled parts under its own locks,
  apart from how its threads share a log task, and of the modelled files the printers, the codecs of
  strings, floats and tagged integers, and arrays of element types with constructors.
\<close>

end
